(* ===== verification/Prelude.thy ===== *)
theory Prelude
  imports Main "HOL-Library.Word" "HOL-Library.Sublist"
begin

text \<open>
  Shared vocabulary of the development: the operations of \<^verbatim>\<open>std::string_view\<close>
  and \<^verbatim>\<open>std::string\<close> that the sources use, \<^verbatim>\<open>std::to_string\<close>, and the generic
  lemmas on lists and options that several components need.  A string is a list of
  bytes (\<open>char\<close>); \<^verbatim>\<open>std::string_view::npos\<close> is \<open>None\<close>.
\<close>

named_theorems sv_simps \<open>string view operations in terms of takeWhile and dropWhile\<close>

section \<open>Searching strings\<close>

fun find_index :: "('a \<Rightarrow> bool) \<Rightarrow> 'a list \<Rightarrow> nat option" where
  "find_index P [] = None"
| "find_index P (x # xs) = (if P x then Some 0 else map_option Suc (find_index P xs))"

text \<open>\<^verbatim>\<open>find(c, pos)\<close> and \<^verbatim>\<open>find_first_of(chars, pos)\<close>.\<close>

definition sv_find :: "char \<Rightarrow> string \<Rightarrow> nat \<Rightarrow> nat option" where
  "sv_find c s pos = map_option (\<lambda>i. pos + i) (find_index (\<lambda>x. x = c) (drop pos s))"

definition sv_find_first_of :: "string \<Rightarrow> string \<Rightarrow> nat \<Rightarrow> nat option" where
  "sv_find_first_of cs s pos =
     map_option (\<lambda>i. pos + i) (find_index (\<lambda>x. x \<in> set cs) (drop pos s))"

text \<open>\<^verbatim>\<open>rfind(c)\<close>: the last position of a character.\<close>

fun sv_rfind :: "char \<Rightarrow> string \<Rightarrow> nat option" where
  "sv_rfind c [] = None"
| "sv_rfind c (x # xs) =
     (case sv_rfind c xs of
        Some i \<Rightarrow> Some (Suc i)
      | None \<Rightarrow> if x = c then Some 0 else None)"

text \<open>\<^verbatim>\<open>substr(pos, n)\<close>, for a position inside the string.\<close>

definition sv_substr :: "string \<Rightarrow> nat \<Rightarrow> nat \<Rightarrow> string" where
  "sv_substr s pos n = take n (drop pos s)"

definition sv_starts_with :: "string \<Rightarrow> char \<Rightarrow> bool" where
  "sv_starts_with s c \<longleftrightarrow> s \<noteq> [] \<and> hd s = c"

lemma find_index_conv:
  "find_index P xs =
     (if \<exists>x\<in>set xs. P x then Some (length (takeWhile (\<lambda>x. \<not> P x) xs)) else None)"
  by (induction xs) auto

lemma find_index_None [sv_simps]: "find_index P xs = None \<longleftrightarrow> (\<forall>x\<in>set xs. \<not> P x)"
  by (simp add: find_index_conv)

lemma find_index_nth: "find_index P xs = Some i \<Longrightarrow> i < length xs \<and> P (xs ! i)"
  by (induction xs arbitrary: i) (auto split: if_splits)

lemma find_index_SomeD:
  assumes "find_index P xs = Some i"
  shows "i < length xs" "P (xs ! i)" "take i xs = takeWhile (\<lambda>x. \<not> P x) xs"
    "drop i xs = dropWhile (\<lambda>x. \<not> P x) xs"
proof -
  from assms show "i < length xs" "P (xs ! i)" by (simp_all add: find_index_nth)
  from assms have i: "i = length (takeWhile (\<lambda>x. \<not> P x) xs)"
    by (auto simp: find_index_conv split: if_splits)
  show "take i xs = takeWhile (\<lambda>x. \<not> P x) xs"
    unfolding i by (rule takeWhile_eq_take [symmetric])
  show "drop i xs = dropWhile (\<lambda>x. \<not> P x) xs"
    unfolding i by (rule dropWhile_eq_drop [symmetric])
qed

lemma sv_find_SomeD:
  assumes "sv_find c s pos = Some e"
  shows "pos \<le> e" "e < length s" "s ! e = c"
  using assms find_index_SomeD [of "\<lambda>x. x = c" "drop pos s"]
  by (fastforce simp: sv_find_def)+

lemma sv_find_first_of_SomeD:
  assumes "sv_find_first_of cs s pos = Some e"
  shows "pos \<le> e" "e < length s" "s ! e \<in> set cs"
  using assms find_index_SomeD [of "\<lambda>x. x \<in> set cs" "drop pos s"]
  by (fastforce simp: sv_find_first_of_def)+

lemma sv_rfind_None [sv_simps]: "sv_rfind c s = None \<longleftrightarrow> c \<notin> set s"
  by (induction s) (auto split: option.splits if_splits)

lemma sv_rfind_Some:
  assumes "sv_rfind c s = Some i"
  shows "i < length s \<and> s ! i = c \<and> c \<notin> set (drop (Suc i) s)"
  using assms
proof (induction s arbitrary: i)
  case Nil
  then show ?case by simp
next
  case (Cons x xs)
  show ?case
  proof (cases "sv_rfind c xs")
    case None
    then have "c \<notin> set xs" by (simp add: sv_simps)
    with None Cons.prems show ?thesis by (auto split: if_splits)
  next
    case (Some j)
    with Cons.prems have "i = Suc j" by simp
    with Cons.IH [OF Some] show ?thesis by simp
  qed
qed

lemma nth_mem_drop: "i \<le> j \<Longrightarrow> j < length xs \<Longrightarrow> xs ! j \<in> set (drop i xs)"
  by (auto simp: in_set_conv_nth intro!: exI [of _ "j - i"])

lemma sv_rfind_eqI:
  assumes "i < length s" "s ! i = c" "c \<notin> set (drop (Suc i) s)"
  shows "sv_rfind c s = Some i"
proof -
  obtain j where j: "sv_rfind c s = Some j"
    using assms sv_rfind_None [of c s] nth_mem [OF assms(1)] by auto
  from sv_rfind_Some [OF this] have "j < length s" "s ! j = c" "c \<notin> set (drop (Suc j) s)"
    by auto
  with assms have "\<not> i < j" "\<not> j < i"
    using nth_mem_drop [of "Suc i" j s] nth_mem_drop [of "Suc j" i s] by auto
  with j show ?thesis by simp
qed

section \<open>Decimal numbers: \<open>std::to_string\<close>\<close>

definition digit_char :: "nat \<Rightarrow> char" where
  "digit_char d = char_of (48 + d)"

fun to_string :: "nat \<Rightarrow> string" where
  "to_string n = (if n < 10 then [digit_char n] else to_string (n div 10) @ [digit_char (n mod 10)])"

declare to_string.simps [simp del]

definition of_decimal :: "string \<Rightarrow> nat" where
  "of_decimal s = foldl (\<lambda>a c. 10 * a + (of_char c - 48)) 0 s"

lemma of_decimal_to_string: "of_decimal (to_string n) = n"
proof (induction n rule: to_string.induct)
  case (1 n)
  show ?case
  proof (cases "n < 10")
    case True
    then show ?thesis
      by (subst to_string.simps) (simp add: of_decimal_def digit_char_def)
  next
    case False
    with 1 have "of_decimal (to_string (n div 10)) = n div 10" by simp
    with False show ?thesis
      by (subst to_string.simps) (simp add: of_decimal_def digit_char_def)
  qed
qed

lemma to_string_inject: "to_string m = to_string n \<longleftrightarrow> m = n"
  by (metis of_decimal_to_string)

end
