(* ===== verification/Router_Model.thy ===== *)
theory Router_Model
  imports Prelude
begin

text \<open>
  The radix-tree router of \<^verbatim>\<open>src/Router.cpp\<close> and \<^verbatim>\<open>src/Router.hpp\<close>: its node type,
  pattern validation, insertion and matching.

  A \<^verbatim>\<open>Node*\<close> into the tree is the list of edges that leads to the node from the root
  (\<open>edge list\<close>); the functions that mutate a subtree return the new subtree and the
  pointer that the code returns.  An exception is a value of \<open>exn\<close>; because a C++
  exception does not undo the mutations made before it, the operations that can throw
  return the state as well as the outcome.  \<open>DanglingPointer\<close> is not an exception of the
  code: it marks the use of a pointer that leads nowhere, and the development proves that
  it never occurs.  A handler is known to the router only by
  reference (\<^verbatim>\<open>std::reference_wrapper<const Handler>\<close>), so it is a value of an arbitrary
  type \<open>'h\<close> of references; the HTTP verb (an enum of Boost.Beast) is a type \<open>'v\<close>.
\<close>

section \<open>Data\<close>

datatype exn = InvalidArgument string | BadOptionalAccess | DanglingPointer

record 'h route =
  r_handler :: 'h
  r_parameter_names :: "string list"

record 'h match_result =
  mr_route :: "'h route"
  mr_parameter_values :: "string list"

datatype node_type = NStatic | NParameter | NCatchAll

datatype 'h node =
  Node (n_type: node_type) (n_prefix: string) (n_static: "'h node list")
    (n_parameter: "'h node option") (n_catch_all: "'h node option") (n_route: "'h route option")

text \<open>\<^verbatim>\<open>std::make_unique<Node>()\<close> with a type.\<close>

definition make_node :: "node_type \<Rightarrow> string \<Rightarrow> 'h node" where
  "make_node ty pre = Node ty pre [] None None None"

fun set_static :: "'h node list \<Rightarrow> 'h node \<Rightarrow> 'h node" where
  "set_static cs (Node ty pre ss pm ca r) = Node ty pre cs pm ca r"

fun set_parameter :: "'h node option \<Rightarrow> 'h node \<Rightarrow> 'h node" where
  "set_parameter p (Node ty pre ss pm ca r) = Node ty pre ss p ca r"

fun set_catch_all :: "'h node option \<Rightarrow> 'h node \<Rightarrow> 'h node" where
  "set_catch_all c (Node ty pre ss pm ca r) = Node ty pre ss pm c r"

fun set_route :: "'h route option \<Rightarrow> 'h node \<Rightarrow> 'h node" where
  "set_route x (Node ty pre ss pm ca r) = Node ty pre ss pm ca x"

section \<open>Common prefix\<close>

function common_prefix_loop :: "string \<Rightarrow> string \<Rightarrow> nat \<Rightarrow> nat" where
  "common_prefix_loop a b i =
     (if i < length a \<and> i < length b \<and> a ! i = b ! i
      then common_prefix_loop a b (Suc i) else i)"
  by pat_completeness auto
termination
  by (relation "measure (\<lambda>(a, b, i). length a - i)") auto

declare common_prefix_loop.simps [simp del]

definition common_prefix :: "string \<Rightarrow> string \<Rightarrow> nat" where
  "common_prefix a b = common_prefix_loop a b 0"

lemma common_prefix_loop_eq:
  "i \<le> length a \<Longrightarrow> i \<le> length b \<Longrightarrow>
   common_prefix_loop a b i = i + length (longest_common_prefix (drop i a) (drop i b))"
proof (induction a b i rule: common_prefix_loop.induct)
  case (1 a b i)
  show ?case
  proof (cases "i < length a \<and> i < length b")
    case True
    then have "drop i a = a ! i # drop (Suc i) a" "drop i b = b ! i # drop (Suc i) b"
      by (simp_all add: Cons_nth_drop_Suc)
    with True 1 show ?thesis by (subst common_prefix_loop.simps) auto
  next
    case False
    with "1.prems" have "drop i a = [] \<or> drop i b = []" by auto
    with False show ?thesis
      by (subst common_prefix_loop.simps) auto
  qed
qed

lemma common_prefix_lcp: "common_prefix a b = length (longest_common_prefix a b)"
  using common_prefix_loop_eq [of 0 a b] by (simp add: common_prefix_def)

section \<open>Pattern validation\<close>

text \<open>The end of the segment that holds position \<open>marker\<close>: the next slash or the end.\<close>

definition segment_end :: "string \<Rightarrow> nat \<Rightarrow> nat" where
  "segment_end pattern marker =
     (case sv_find (CHR ''/'') pattern marker of None \<Rightarrow> length pattern | Some e \<Rightarrow> e)"

lemma segment_end_gt:
  "marker < length pattern \<Longrightarrow> pattern ! marker \<noteq> CHR ''/'' \<Longrightarrow> marker < segment_end pattern marker"
  using sv_find_SomeD [of "CHR ''/''" pattern marker]
  by (auto simp: segment_end_def le_less split: option.splits)

lemma segment_end_le: "segment_end pattern marker \<le> length pattern"
  using sv_find_SomeD(2) [of "CHR ''/''" pattern marker]
  by (auto simp: segment_end_def less_imp_le split: option.splits)

function validate_loop :: "string \<Rightarrow> nat \<Rightarrow> exn + unit" where
  "validate_loop pattern position =
     (case sv_find_first_of '':*'' pattern position of
        None \<Rightarrow> Inr ()
      | Some marker \<Rightarrow>
          if marker = 0 \<or> pattern ! (marker - 1) \<noteq> CHR ''/''
          then Inl (InvalidArgument ''Parameter marker must start a path segment'')
          else
            (let endp = segment_end pattern marker;
                 name = sv_substr pattern (marker + 1) (endp - marker - 1)
             in if name = [] then Inl (InvalidArgument ''Parameter name must not be empty'')
                else if sv_find_first_of '':*'' name 0 \<noteq> None
                then Inl (InvalidArgument ''Parameter must occupy an entire path segment'')
                else if pattern ! marker = CHR ''*'' \<and> endp \<noteq> length pattern
                then Inl (InvalidArgument ''Catch-all must be the final path segment'')
                else validate_loop pattern endp))"
  by pat_completeness auto
termination
proof (relation "measure (\<lambda>(pattern, position). length pattern - position)", goal_cases)
  case 1
  show ?case by simp
next
  case (2 pattern position marker endp name)
  then have m: "position \<le> marker" "marker < length pattern" "pattern ! marker \<in> set '':*''"
    using sv_find_first_of_SomeD by blast+
  then have "marker < endp"
    using segment_end_gt [of marker pattern] 2 by auto
  with m show ?case by auto
qed

declare validate_loop.simps [simp del]

definition validate_pattern :: "string \<Rightarrow> exn + unit" where
  "validate_pattern pattern =
     (if pattern = [] \<or> hd pattern \<noteq> CHR ''/''
      then Inl (InvalidArgument (''Route pattern must start with '' @ [CHR 0x27, CHR ''/'', CHR 0x27]))
      else validate_loop pattern 0)"

section \<open>Node pointers\<close>

datatype edge = StaticEdge nat | ParameterEdge | CatchAllEdge

type_synonym node_ptr = "edge list"

text \<open>Dereferencing a pointer; \<open>None\<close> is a pointer that leads nowhere.\<close>

fun node_at :: "'h node \<Rightarrow> node_ptr \<Rightarrow> 'h node option" where
  "node_at n [] = Some n"
| "node_at n (StaticEdge i # p) =
     (if i < length (n_static n) then node_at (n_static n ! i) p else None)"
| "node_at n (ParameterEdge # p) =
     (case n_parameter n of None \<Rightarrow> None | Some c \<Rightarrow> node_at c p)"
| "node_at n (CatchAllEdge # p) =
     (case n_catch_all n of None \<Rightarrow> None | Some c \<Rightarrow> node_at c p)"

text \<open>Overwriting the object behind a pointer.\<close>

fun put_at :: "'h node \<Rightarrow> node_ptr \<Rightarrow> 'h node \<Rightarrow> 'h node" where
  "put_at n [] m = m"
| "put_at n (StaticEdge i # p) m =
     (if i < length (n_static n)
      then set_static ((n_static n)[i := put_at (n_static n ! i) p m]) n else n)"
| "put_at n (ParameterEdge # p) m =
     (case n_parameter n of None \<Rightarrow> n | Some c \<Rightarrow> set_parameter (Some (put_at c p m)) n)"
| "put_at n (CatchAllEdge # p) m =
     (case n_catch_all n of None \<Rightarrow> n | Some c \<Rightarrow> set_catch_all (Some (put_at c p m)) n)"

section \<open>Insertion\<close>

text \<open>
  The split of a child at offset \<open>n\<close> of its prefix: the child keeps the first \<open>n\<close>
  characters and its identity, a new node takes the rest and everything below.
\<close>

fun split_child :: "nat \<Rightarrow> 'h node \<Rightarrow> 'h node" where
  "split_child n (Node ty pre ss pm ca r) =
     (let suffix = Node NStatic (drop n pre) ss pm ca r
      in Node ty (take n pre) [suffix] None None None)"

lemma common_prefix_pos:
  "a \<noteq> [] \<Longrightarrow> b \<noteq> [] \<Longrightarrow> hd a = hd b \<Longrightarrow> 0 < common_prefix a b"
  by (cases a, simp, cases b) (auto simp: common_prefix_lcp)

text \<open>
  \<open>insert_static\<close> returns the changed parent and the pointer, relative to it, that the
  code returns; \<open>insert_children\<close> is its loop over the static children, with the node
  appended when no child shares the first character.  The code takes \<^verbatim>\<open>front()\<close> of the
  prefix and of the text; the two tests for an empty string only make the function total:
  the text is not empty after the first test of \<open>insert_static\<close>, and no static child of a
  tree the router builds has an empty prefix (\<open>node_ok\<close>).
\<close>

function insert_static :: "'h node \<Rightarrow> string \<Rightarrow> 'h node \<times> node_ptr"
  and insert_children :: "'h node list \<Rightarrow> string \<Rightarrow> 'h node list \<times> nat \<times> node_ptr" where
  "insert_static parent text =
     (if text = [] then (parent, [])
      else (case insert_children (n_static parent) text of
              (cs, i, p) \<Rightarrow> (set_static cs parent, StaticEdge i # p)))"
| "insert_children [] text = ([make_node NStatic text], 0, [])"
| "insert_children (child # cs) text =
     (if text = [] \<or> n_prefix child = [] \<or> n_type child \<noteq> NStatic \<or> hd (n_prefix child) \<noteq> hd text
      then (case insert_children cs text of (cs', i, p) \<Rightarrow> (child # cs', Suc i, p))
      else
        (let n = common_prefix (n_prefix child) text;
             child1 = (if n < length (n_prefix child) then split_child n child else child)
         in case insert_static child1 (drop n text) of (child2, p) \<Rightarrow> (child2 # cs, 0, p)))"
  by pat_completeness auto

termination
proof (relation "measures [\<lambda>x. case x of Inl (p, t) \<Rightarrow> length t | Inr (cs, t) \<Rightarrow> length t,
      \<lambda>x. case x of Inl (p, t) \<Rightarrow> Suc (length (n_static p)) | Inr (cs, t) \<Rightarrow> length cs]", goal_cases)
  case 1
  show ?case by simp
next
  case (2 pn tx)
  then show ?case by simp
next
  case (3 child cs tx)
  then show ?case by simp
next
  case (4 child cs tx n child1)
  from 4(1) have ne: "tx \<noteq> []" "n_prefix child \<noteq> []" "hd (n_prefix child) = hd tx" by simp_all
  then have "0 < n" unfolding 4(2) by (intro common_prefix_pos)
  with ne(1) have "length (drop n tx) < length tx" by simp
  then show ?case by simp
qed

declare insert_static.simps [simp del]

definition insert_special :: "'h node \<Rightarrow> node_type \<Rightarrow> 'h node \<times> (exn + node_ptr)" where
  "insert_special parent ty =
     (if ty = NStatic
      then (parent, Inl (InvalidArgument ''insert_special called with Static type''))
      else if n_type parent = NParameter \<or> n_type parent = NCatchAll
      then (parent, Inl (InvalidArgument ''Cannot insert a special node under another special node''))
      else if ty = NParameter
      then (case n_parameter parent of
              None \<Rightarrow> (set_parameter (Some (make_node NParameter [])) parent, Inr [ParameterEdge])
            | Some _ \<Rightarrow> (parent, Inr [ParameterEdge]))
      else (case n_catch_all parent of
              None \<Rightarrow> (set_catch_all (Some (make_node NCatchAll [])) parent, Inr [CatchAllEdge])
            | Some _ \<Rightarrow> (parent, Inr [CatchAllEdge])))"

text \<open>The two insertions at a pointer into the tree, with the pointer they return.\<close>

definition static_at :: "'h node \<Rightarrow> node_ptr \<Rightarrow> string \<Rightarrow> 'h node \<times> node_ptr" where
  "static_at root current text =
     (case node_at root current of
        None \<Rightarrow> (root, current)
      | Some n \<Rightarrow> (case insert_static n text of
                      (n', p) \<Rightarrow> (put_at root current n', current @ p)))"

definition special_at :: "'h node \<Rightarrow> node_ptr \<Rightarrow> node_type \<Rightarrow> 'h node \<times> (exn + node_ptr)" where
  "special_at root current ty =
     (case node_at root current of
        None \<Rightarrow> (root, Inr current)
      | Some n \<Rightarrow> (case insert_special n ty of
                      (n', Inl e) \<Rightarrow> (put_at root current n', Inl e)
                    | (n', Inr p) \<Rightarrow> (put_at root current n', Inr (current @ p))))"

text \<open>The end of the special token at the front of the remaining pattern.\<close>

definition token_end :: "string \<Rightarrow> nat" where
  "token_end rest =
     (if hd rest = CHR ''*'' then length rest
      else case sv_find (CHR ''/'') rest 0 of None \<Rightarrow> length rest | Some e \<Rightarrow> e)"

text \<open>
  One round of the loop of \<open>insert_route\<close>: the literal text in front of the marker, then
  the special node, with the parameter's name copied.
\<close>

definition insert_literal ::
  "'h node \<Rightarrow> node_ptr \<Rightarrow> string \<Rightarrow> nat \<Rightarrow> 'h node \<times> node_ptr \<times> string" where
  "insert_literal root current rest marker =
     (if marker \<noteq> 0
      then (case static_at root current (sv_substr rest 0 marker) of
              (root1, current1) \<Rightarrow> (root1, current1, drop marker rest))
      else (root, current, rest))"

definition insert_token ::
  "'h node \<Rightarrow> node_ptr \<Rightarrow> string list \<Rightarrow> string \<Rightarrow> nat \<Rightarrow>
   'h node \<times> (exn + node_ptr \<times> string list \<times> string)" where
  "insert_token root current names rest marker =
     (case insert_literal root current rest marker of
        (root1, current1, rest1) \<Rightarrow>
          (let catch_all = (hd rest1 = CHR ''*'');
               endp = token_end rest1;
               names1 = names @ [sv_substr rest1 1 (endp - 1)]
           in case special_at root1 current1 (if catch_all then NCatchAll else NParameter) of
                (root2, Inl e) \<Rightarrow> (root2, Inl e)
              | (root2, Inr current2) \<Rightarrow> (root2, Inr (current2, names1, drop endp rest1))))"

lemma token_end_pos:
  assumes "rest \<noteq> []" "hd rest \<in> set '':*''"
  shows "0 < token_end rest"
proof (cases "sv_find (CHR ''/'') rest 0")
  case None
  with assms show ?thesis by (simp add: token_end_def)
next
  case (Some e)
  from sv_find_SomeD [OF Some] assms have "e \<noteq> 0"
    by (intro notI) (cases rest; auto)
  with Some assms show ?thesis by (simp add: token_end_def)
qed

lemma first_of_drop:
  "sv_find_first_of cs s 0 = Some m \<Longrightarrow> drop m s \<noteq> [] \<and> hd (drop m s) \<in> set cs \<and> m < length s"
  using sv_find_first_of_SomeD [of cs s 0 m] by (simp add: hd_drop_conv_nth)

lemma insert_literal_rest:
  "insert_literal root current rest marker = (root1, current1, rest1) \<Longrightarrow> rest1 = drop marker rest"
  by (auto simp: insert_literal_def split: if_splits prod.splits)

lemma insert_token_shorter:
  assumes "sv_find_first_of '':*'' rest 0 = Some marker"
    and "insert_token root current names rest marker = (root2, Inr (current2, names1, rest2))"
  shows "length rest2 < length rest"
proof -
  obtain root1 current1 rest1 where
    lit: "insert_literal root current rest marker = (root1, current1, rest1)"
    by (metis prod_cases3)
  then have r1: "rest1 = drop marker rest" by (rule insert_literal_rest)
  with first_of_drop [OF assms(1)] have "rest1 \<noteq> []" "0 < token_end rest1"
    by (auto intro: token_end_pos)
  moreover from assms(2) lit have "rest2 = drop (token_end rest1) rest1"
    by (auto simp: insert_token_def Let_def split: prod.splits sum.splits)
  ultimately show ?thesis using r1 by auto
qed

function insert_loop ::
  "'h node \<Rightarrow> node_ptr \<Rightarrow> string list \<Rightarrow> string \<Rightarrow> 'h node \<times> (exn + node_ptr \<times> string list)" where
  "insert_loop root current names rest =
     (if rest = [] then (root, Inr (current, names))
      else case sv_find_first_of '':*'' rest 0 of
        None \<Rightarrow> (case static_at root current rest of (root', current') \<Rightarrow> (root', Inr (current', names)))
      | Some marker \<Rightarrow>
          (case insert_token root current names rest marker of
             (root2, Inl e) \<Rightarrow> (root2, Inl e)
           | (root2, Inr (current2, names1, rest2)) \<Rightarrow> insert_loop root2 current2 names1 rest2))"
  by pat_completeness auto

termination
  by (relation "measure (\<lambda>(root, current, names, rest). length rest)")
    (auto intro: insert_token_shorter [OF _ sym])

declare insert_loop.simps [simp del]

section \<open>The router object\<close>

text \<open>
  \<^verbatim>\<open>roots_\<close> maps a verb to an owning pointer, which may be null (\<open>Some None\<close>).
\<close>

record ('v, 'h) router =
  roots :: "'v \<Rightarrow> 'h node option option"

definition new_router :: "('v, 'h) router" where
  "new_router = \<lparr>roots = (\<lambda>_. None)\<rparr>"

text \<open>\<^verbatim>\<open>roots_[method]\<close>, with a new node when there is none.\<close>

definition root_for :: "('v, 'h) router \<Rightarrow> 'v \<Rightarrow> 'h node" where
  "root_for r method = (case roots r method of Some (Some n) \<Rightarrow> n | _ \<Rightarrow> make_node NStatic [])"

definition store_root :: "('v, 'h) router \<Rightarrow> 'v \<Rightarrow> 'h node \<Rightarrow> ('v, 'h) router" where
  "store_root r method n = r\<lparr>roots := (roots r)(method \<mapsto> Some n)\<rparr>"

definition insert_route ::
  "('v, 'h) router \<Rightarrow> 'v \<Rightarrow> string \<Rightarrow> 'h \<Rightarrow> ('v, 'h) router \<times> (exn + unit)" where
  "insert_route r method pattern handler =
     (case insert_loop (root_for r method) [] [] pattern of
        (root, Inl e) \<Rightarrow> (store_root r method root, Inl e)
      | (root, Inr (current, names)) \<Rightarrow>
          (case node_at root current of
             None \<Rightarrow> (store_root r method root, Inl DanglingPointer)
           | Some n \<Rightarrow>
               if n_route n \<noteq> None
               then (store_root r method root, Inl (InvalidArgument ''Duplicate route''))
               else (store_root r method
                       (put_at root current
                          (set_route (Some \<lparr>r_handler = handler, r_parameter_names = names\<rparr>) n)),
                     Inr ())))"

definition add_route ::
  "('v, 'h) router \<Rightarrow> 'v \<Rightarrow> string \<Rightarrow> 'h \<Rightarrow> ('v, 'h) router \<times> (exn + unit)" where
  "add_route r method pattern handler =
     (case validate_pattern pattern of
        Inl e \<Rightarrow> (r, Inl e)
      | Inr _ \<Rightarrow> insert_route r method pattern handler)"

section \<open>Matching\<close>

lemma node_size_static [termination_simp]: "Suc (2 * size_list size (n_static n)) < 2 * size n"
  by (cases n) simp

lemma node_size_parameter [termination_simp]: "Suc (2 * size_option size (n_parameter n)) < 2 * size n"
  by (cases n; cases "n_parameter n") auto

text \<open>
  The recursive lambda \<open>search\<close> of \<^verbatim>\<open>Router::match\<close>.  \<open>vals\<close> is the vector
  \<^verbatim>\<open>parameter_values\<close> that the lambda captures by reference, so it is passed in and
  returned; \<^verbatim>\<open>resize(saved)\<close> to an earlier size is \<open>take saved\<close>.  \<open>search_static\<close> is
  the loop over the static children.
\<close>

function (sequential) search ::
    "string \<Rightarrow> 'h node \<Rightarrow> nat \<Rightarrow> string list \<Rightarrow> 'h node option \<times> string list"
  and search_static ::
    "string \<Rightarrow> 'h node list \<Rightarrow> nat \<Rightarrow> string list \<Rightarrow> 'h node option \<times> string list"
  and search_parameter ::
    "string \<Rightarrow> 'h node option \<Rightarrow> nat \<Rightarrow> string list \<Rightarrow> 'h node option \<times> string list" where
  "search target node position vals =
     (if position = length target \<and> n_route node \<noteq> None then (Some node, vals)
      else
        (case search_static target (n_static node) position vals of
           (Some m, vals1) \<Rightarrow> (Some m, vals1)
         | (None, vals1) \<Rightarrow>
             (case search_parameter target (n_parameter node) position vals1 of
                (Some m, vals2) \<Rightarrow> (Some m, vals2)
              | (None, vals2) \<Rightarrow>
                  (case n_catch_all node of
                     None \<Rightarrow> (None, vals2)
                   | Some c \<Rightarrow>
                       if n_route c \<noteq> None \<and> drop position target \<noteq> []
                          \<and> drop position target \<noteq> ''/''
                       then (Some c, vals2 @ [drop position target])
                       else (None, vals2)))))"
| "search_static target [] position vals = (None, vals)"
| "search_static target (child # cs) position vals =
     (if sv_substr (drop position target) 0 (length (n_prefix child)) \<noteq> n_prefix child
      then search_static target cs position vals
      else
        (let saved = length vals
         in case search target child (position + length (n_prefix child)) vals of
              (Some m, vals1) \<Rightarrow> (Some m, vals1)
            | (None, vals1) \<Rightarrow> search_static target cs position (take saved vals1)))"
| "search_parameter target None position vals = (None, vals)"
| "search_parameter target (Some c) position vals =
     (if position < length target \<and> target ! position \<noteq> CHR ''/''
      then
        (let endp = segment_end target position;
             saved = length vals
         in case search target c endp (vals @ [sv_substr target position (endp - position)]) of
              (Some m, vals1) \<Rightarrow> (Some m, vals1)
            | (None, vals1) \<Rightarrow> (None, take saved vals1))
      else (None, vals))"
  by pat_completeness auto

termination
  by (relation "measure (\<lambda>x. case x of Inl (t, n, p, v) \<Rightarrow> 2 * size n
        | Inr (Inl (t, cs, p, v)) \<Rightarrow> Suc (2 * size_list size cs)
        | Inr (Inr (t, c, p, v)) \<Rightarrow> Suc (2 * size_option size c))")
    (auto simp: node_size_static node_size_parameter)

declare search.simps [simp del]

text \<open>The part of a target before its query string.\<close>

definition strip_query :: "string \<Rightarrow> string" where
  "strip_query target =
     (case sv_find (CHR ''?'') target 0 of None \<Rightarrow> target | Some q \<Rightarrow> sv_substr target 0 q)"

text \<open>
  \<^verbatim>\<open>Router::match\<close>.  \<^verbatim>\<open>matched->route_.value()\<close> throws when the node has no route.
\<close>

definition match_route ::
  "('v, 'h) router \<Rightarrow> 'v \<Rightarrow> string \<Rightarrow> exn + 'h match_result option" where
  "match_route r method target =
     (case roots r method of
        None \<Rightarrow> Inr None
      | Some None \<Rightarrow> Inr None
      | Some (Some root) \<Rightarrow>
          (case search (strip_query target) root 0 [] of
             (None, vals) \<Rightarrow> Inr None
           | (Some n, vals) \<Rightarrow>
               (case n_route n of
                  None \<Rightarrow> Inl BadOptionalAccess
                | Some rt \<Rightarrow> Inr (Some \<lparr>mr_route = rt, mr_parameter_values = vals\<rparr>))))"

end
