(* ===== verification/Router_Spec.thy ===== *)
theory Router_Spec
  imports Router_Model
begin

text \<open>
  What the router promises, without a tree: a pattern is a list of tokens, a pattern
  matches a path with at most one list of parameter values, and of two patterns that match
  the same path the one with the more specific token at the first difference is preferred
  (literal before parameter before catch-all).  \<open>entries\<close> abstracts a tree to the
  patterns and routes it stores; \<open>best\<close> is the search of the code over suffixes of the
  target, without positions and without the shared vector.
\<close>

section \<open>Patterns as token lists\<close>

datatype tok = Lit char | Param | CatchAll

abbreviation upto_slash :: "string \<Rightarrow> string" where
  "upto_slash s \<equiv> takeWhile (\<lambda>c. c \<noteq> CHR ''/'') s"

abbreviation from_slash :: "string \<Rightarrow> string" where
  "from_slash s \<equiv> dropWhile (\<lambda>c. c \<noteq> CHR ''/'') s"

function tokens :: "string \<Rightarrow> tok list" where
  "tokens [] = []"
| "tokens (c # s) =
     (if c = CHR ''*'' then [CatchAll]
      else if c = CHR '':'' then Param # tokens (from_slash s)
      else Lit c # tokens s)"
  by pat_completeness auto
termination
  by (relation "measure length") (auto simp: le_imp_less_Suc length_dropWhile_le)

function token_names :: "string \<Rightarrow> string list" where
  "token_names [] = []"
| "token_names (c # s) =
     (if c = CHR ''*'' then [s]
      else if c = CHR '':'' then upto_slash s # token_names (from_slash s)
      else token_names s)"
  by pat_completeness auto
termination
  by (relation "measure length") (auto simp: le_imp_less_Suc length_dropWhile_le)

text \<open>The values a pattern gives its parameters on a path, when it matches the path.\<close>

fun pattern_match :: "tok list \<Rightarrow> string \<Rightarrow> string list option" where
  "pattern_match [] s = (if s = [] then Some [] else None)"
| "pattern_match (Lit c # ts) s =
     (case s of [] \<Rightarrow> None | x # xs \<Rightarrow> if x = c then pattern_match ts xs else None)"
| "pattern_match (Param # ts) s =
     (if s = [] \<or> hd s = CHR ''/'' then None
      else map_option (Cons (upto_slash s)) (pattern_match ts (from_slash s)))"
| "pattern_match (CatchAll # ts) s =
     (if ts = [] \<and> s \<noteq> [] \<and> s \<noteq> ''/'' then Some [s] else None)"

fun rank :: "tok \<Rightarrow> nat" where
  "rank (Lit c) = 0"
| "rank Param = 1"
| "rank CatchAll = 2"

fun preferred :: "tok list \<Rightarrow> tok list \<Rightarrow> bool" where
  "preferred (a # as) (b # bs) = (if a = b then preferred as bs else rank a < rank b)"
| "preferred _ _ = False"

section \<open>The contents of a tree\<close>

abbreviation prepend :: "tok list \<Rightarrow> (tok list \<times> 'a) list \<Rightarrow> (tok list \<times> 'a) list" where
  "prepend p es \<equiv> map (\<lambda>(ts, r). (p @ ts, r)) es"

fun entries :: "'h node \<Rightarrow> (tok list \<times> 'h route) list" where
  "entries (Node ty pre ss pm ca r) =
     (case r of None \<Rightarrow> [] | Some x \<Rightarrow> [([], x)])
     @ concat (map (\<lambda>c. prepend (map Lit (n_prefix c)) (entries c)) ss)
     @ (case pm of None \<Rightarrow> [] | Some c \<Rightarrow> prepend [Param] (entries c))
     @ (case ca of None \<Rightarrow> [] | Some c \<Rightarrow> prepend [CatchAll] (entries c))"

text \<open>The shape of every tree the router builds.\<close>

definition plain :: "string \<Rightarrow> bool" where
  "plain s \<longleftrightarrow> CHR '':'' \<notin> set s \<and> CHR ''*'' \<notin> set s"

fun node_ok :: "'h node \<Rightarrow> bool" where
  "node_ok (Node ty pre ss pm ca r) \<longleftrightarrow>
     (\<forall>c\<in>set ss. n_type c = NStatic \<and> n_prefix c \<noteq> [] \<and> plain (n_prefix c) \<and> node_ok c)
     \<and> distinct (map (\<lambda>c. hd (n_prefix c)) ss)
     \<and> (case pm of None \<Rightarrow> True
        | Some c \<Rightarrow> n_type c = NParameter \<and> n_prefix c = [] \<and> n_parameter c = None
                    \<and> n_catch_all c = None \<and> node_ok c)
     \<and> (case ca of None \<Rightarrow> True
        | Some c \<Rightarrow> n_type c = NCatchAll \<and> n_prefix c = [] \<and> n_static c = []
                    \<and> n_parameter c = None \<and> n_catch_all c = None)"

section \<open>The search over suffixes\<close>

function (sequential) best :: "'h node \<Rightarrow> string \<Rightarrow> ('h node \<times> string list) option"
  and best_static :: "'h node list \<Rightarrow> string \<Rightarrow> ('h node \<times> string list) option"
  and best_parameter :: "'h node option \<Rightarrow> string \<Rightarrow> ('h node \<times> string list) option" where
  "best node s =
     (if s = [] \<and> n_route node \<noteq> None then Some (node, [])
      else case best_static (n_static node) s of
        Some x \<Rightarrow> Some x
      | None \<Rightarrow>
         (case best_parameter (n_parameter node) s of
            Some x \<Rightarrow> Some x
          | None \<Rightarrow>
             (case n_catch_all node of
                None \<Rightarrow> None
              | Some c \<Rightarrow> if n_route c \<noteq> None \<and> s \<noteq> [] \<and> s \<noteq> ''/'' then Some (c, [s]) else None)))"
| "best_static [] s = None"
| "best_static (c # cs) s =
     (if prefix (n_prefix c) s
      then case best c (drop (length (n_prefix c)) s) of
             Some x \<Rightarrow> Some x
           | None \<Rightarrow> best_static cs s
      else best_static cs s)"
| "best_parameter None s = None"
| "best_parameter (Some c) s =
     (if s \<noteq> [] \<and> hd s \<noteq> CHR ''/''
      then map_option (\<lambda>(m, vs). (m, upto_slash s # vs)) (best c (from_slash s))
      else None)"
  by pat_completeness auto
termination
  by (relation "measure (\<lambda>x. case x of Inl (n, s) \<Rightarrow> 2 * size n
        | Inr (Inl (cs, s)) \<Rightarrow> Suc (2 * size_list size cs)
        | Inr (Inr (c, s)) \<Rightarrow> Suc (2 * size_option size c))")
    (auto simp: node_size_static node_size_parameter)

declare best.simps [simp del]

text \<open>Embedding a result of \<open>best\<close> in the code's pair of node and vector.\<close>

definition with_vals :: "string list \<Rightarrow> ('h node \<times> string list) option \<Rightarrow> 'h node option \<times> string list" where
  "with_vals vals x = (case x of None \<Rightarrow> (None, vals) | Some (m, vs) \<Rightarrow> (Some m, vals @ vs))"

lemma segment_end_drop:
  assumes "position \<le> length target"
  shows "drop (segment_end target position) target = from_slash (drop position target)"
    and "sv_substr target position (segment_end target position - position)
           = upto_slash (drop position target)"
proof -
  show "drop (segment_end target position) target = from_slash (drop position target)"
  proof (cases "find_index (\<lambda>x. x = CHR ''/'') (drop position target)")
    case None
    then have "\<forall>c\<in>set (drop position target). c \<noteq> CHR ''/''" by (simp add: sv_simps)
    then have tail: "from_slash (drop position target) = []" by simp
    from None have "segment_end target position = length target"
      by (simp add: segment_end_def sv_find_def)
    then show ?thesis unfolding tail by simp
  next
    case (Some i)
    from find_index_SomeD(4) [OF Some] Some show ?thesis
      by (simp add: segment_end_def sv_find_def add.commute)
  qed
  show "sv_substr target position (segment_end target position - position)
          = upto_slash (drop position target)"
  proof (cases "find_index (\<lambda>x. x = CHR ''/'') (drop position target)")
    case None
    then have "\<forall>c\<in>set (drop position target). c \<noteq> CHR ''/''" by (simp add: sv_simps)
    then have all: "upto_slash (drop position target) = drop position target" by simp
    from None have "segment_end target position = length target"
      by (simp add: segment_end_def sv_find_def)
    then show ?thesis unfolding all by (simp add: sv_substr_def)
  next
    case (Some i)
    from find_index_SomeD(3) [OF Some] Some show ?thesis
      by (simp add: segment_end_def sv_find_def sv_substr_def)
  qed
qed

lemma substr_prefix: "sv_substr s 0 (length p) = p \<longleftrightarrow> prefix p s"
  by (auto simp: sv_substr_def prefix_def) (metis append_take_drop_id)

end
