(* ===== verification/Router_Match.thy ===== *)
theory Router_Match
  imports Router_Spec
begin

text \<open>
  Correctness of matching: the recursive search of the code computes \<open>best\<close>, and
  \<open>best\<close> finds the preferred one among the stored patterns that match.
\<close>

section \<open>The code's search and the search over suffixes\<close>

text \<open>One step of each routine, given what the calls it makes return.\<close>

lemma search_node_step:
  assumes "\<not> (position = length target \<and> n_route node \<noteq> None)" "position \<le> length target"
    and static: "search_static target (n_static node) position vals
      = with_vals vals (best_static (n_static node) (drop position target))"
    and parameter: "search_static target (n_static node) position vals = (None, vals) \<Longrightarrow>
      search_parameter target (n_parameter node) position vals
      = with_vals vals (best_parameter (n_parameter node) (drop position target))"
  shows "search target node position vals = with_vals vals (best node (drop position target))"
proof -
  have guard: "\<not> (drop position target = [] \<and> n_route node \<noteq> None)" using assms(1,2) by auto
  show ?thesis
  proof (cases "best_static (n_static node) (drop position target)")
    case (Some x)
    with static guard assms(1) show ?thesis
      by (cases x) (auto simp: search.simps [of target node] best.simps [of node] with_vals_def)
  next
    case None
    with static parameter assms(1) guard show ?thesis
      by (cases "best_parameter (n_parameter node) (drop position target)")
        (auto simp: search.simps [of target node] best.simps [of node] with_vals_def split: option.splits)
  qed
qed

lemma search_child_step:
  assumes p: "prefix (n_prefix child) (drop position target)"
    and child: "search target child (position + length (n_prefix child)) vals
      = with_vals vals (best child (drop (length (n_prefix child)) (drop position target)))"
    and others: "search target child (position + length (n_prefix child)) vals = (None, vals) \<Longrightarrow>
      search_static target cs position vals = with_vals vals (best_static cs (drop position target))"
  shows "search_static target (child # cs) position vals
    = with_vals vals (best_static (child # cs) (drop position target))"
proof (cases "best child (drop (length (n_prefix child)) (drop position target))")
  case (Some x)
  with child p show ?thesis by (auto simp: substr_prefix with_vals_def Let_def split: prod.splits)
next
  case None
  with child have "search target child (position + length (n_prefix child)) vals = (None, vals)"
    by (simp add: with_vals_def)
  with others p None show ?thesis by (simp add: substr_prefix Let_def)
qed

lemma search_best:
  fixes node :: "'h node" and cs :: "'h node list" and pc :: "'h node option"
  shows "position \<le> length target \<Longrightarrow>
      search target node position vals = with_vals vals (best node (drop position target))"
    and "position \<le> length target \<Longrightarrow>
      search_static target cs position vals = with_vals vals (best_static cs (drop position target))"
    and "position \<le> length target \<Longrightarrow>
      search_parameter target pc position vals = with_vals vals (best_parameter pc (drop position target))"
proof (induction target node position vals and target cs position vals and target pc position vals
    rule: search_search_static_search_parameter.induct)
  case (1 target node position vals)
  show ?case
  proof (cases "position = length target \<and> n_route node \<noteq> None")
    case True
    then show ?thesis by (simp add: search.simps best.simps with_vals_def)
  next
    case False
    then show ?thesis
      using "1.IH"(1) [OF False "1.prems"] "1.IH"(2) [OF False _ refl "1.prems"] "1.prems"
      by (intro search_node_step) simp_all
  qed
next
  case (3 target child cs position vals)
  show ?case
  proof (cases "prefix (n_prefix child) (drop position target)")
    case False
    with 3 show ?thesis by (simp add: substr_prefix)
  next
    case True
    then have len: "position + length (n_prefix child) \<le> length target"
      using "3.prems" prefix_length_le by fastforce
    from True have sub: "sv_substr (drop position target) 0 (length (n_prefix child)) = n_prefix child"
      by (simp add: substr_prefix)
    show ?thesis
    proof (rule search_child_step [OF True])
      show "search target child (position + length (n_prefix child)) vals
          = with_vals vals (best child (drop (length (n_prefix child)) (drop position target)))"
        using "3.IH"(2) [OF _ refl len] sub by (simp add: add.commute)
      show "search_static target cs position vals = with_vals vals (best_static cs (drop position target))"
        if "search target child (position + length (n_prefix child)) vals = (None, vals)"
        using "3.IH"(3) [OF _ refl that [symmetric] refl "3.prems"] sub by simp
    qed
  qed
next
  case (5 target c position vals)
  let ?s = "drop position target"
  show ?case
  proof (cases "position < length target \<and> target ! position \<noteq> CHR ''/''")
    case False
    with 5 show ?thesis by (auto simp: with_vals_def hd_drop_conv_nth)
  next
    case True
    have "search target c (segment_end target position) (vals @ [upto_slash ?s])
            = with_vals (vals @ [upto_slash ?s]) (best c (from_slash ?s))"
      using "5.IH" [OF True refl refl segment_end_le] segment_end_drop [OF "5.prems"] by simp
    with True segment_end_drop(2) [OF "5.prems"] show ?thesis
      by (cases "best c (from_slash ?s)")
        (auto simp: Let_def with_vals_def hd_drop_conv_nth)
  qed
qed (simp_all add: with_vals_def)

section \<open>Matching literal text\<close>

lemma pattern_match_literal:
  "pattern_match (map Lit p @ ts) s =
     (if prefix p s then pattern_match ts (drop (length p) s) else None)"
  by (induction p arbitrary: s) (auto split: list.splits)

lemma pattern_match_empty: "pattern_match ts [] = (if ts = [] then Some [] else None)"
  by (cases "(ts, [] :: string)" rule: pattern_match.cases) auto

lemma preferred_literal: "preferred (map Lit p @ ts) (map Lit p @ ts') = preferred ts ts'"
  by (induction p) auto

text \<open>A result is optimal for a set of entries when it is one of them and none is preferred.\<close>

definition optimal ::
  "(tok list \<times> 'h route) set \<Rightarrow> string \<Rightarrow> ('h route \<times> string list) option \<Rightarrow> bool" where
  "optimal E s x =
     (case x of
        None \<Rightarrow> \<forall>ts r. (ts, r) \<in> E \<longrightarrow> pattern_match ts s = None
      | Some (r, vs) \<Rightarrow> \<exists>ts. (ts, r) \<in> E \<and> pattern_match ts s = Some vs
          \<and> (\<forall>ts' r'. (ts', r') \<in> E \<longrightarrow> pattern_match ts' s \<noteq> None \<longrightarrow>
               ts' = ts \<or> preferred ts ts'))"

abbreviation route_result ::
  "('h node \<times> string list) option \<Rightarrow> ('h route \<times> string list) option" where
  "route_result x \<equiv> map_option (\<lambda>(m, vs). (the (n_route m), vs)) x"

lemma optimal_SomeI:
  assumes "(ts, r) \<in> E" "pattern_match ts s = Some vs"
    and "\<And>ts' r'. (ts', r') \<in> E \<Longrightarrow> pattern_match ts' s \<noteq> None \<Longrightarrow> ts' = ts \<or> preferred ts ts'"
  shows "optimal E s (Some (r, vs))"
  using assms unfolding optimal_def by fastforce

lemma optimal_SomeE:
  assumes "optimal E s (Some (r, vs))"
  obtains ts where "(ts, r) \<in> E" "pattern_match ts s = Some vs"
    "\<forall>ts' r'. (ts', r') \<in> E \<longrightarrow> pattern_match ts' s \<noteq> None \<longrightarrow> ts' = ts \<or> preferred ts ts'"
  using assms unfolding optimal_def option.case prod.case by blast

lemma optimal_NoneI: "(\<And>ts r. (ts, r) \<in> E \<Longrightarrow> pattern_match ts s = None) \<Longrightarrow> optimal E s None"
  by (auto simp: optimal_def)

lemma optimal_NoneD: "optimal E s None \<Longrightarrow> (ts, r) \<in> E \<Longrightarrow> pattern_match ts s = None"
  by (auto simp: optimal_def)

text \<open>How optimality composes, part by part of a node.\<close>

lemma optimal_later:
  assumes "\<And>ts r. (ts, r) \<in> E \<Longrightarrow> pattern_match ts s = None" "optimal F s y"
  shows "optimal (E \<union> F) s y"
proof (cases y)
  case None
  with assms show ?thesis by (auto intro!: optimal_NoneI dest: optimal_NoneD)
next
  case (Some z)
  with assms(2) have "optimal F s (Some (fst z, snd z))" by simp
  then obtain ts where ts: "(ts, fst z) \<in> F" "pattern_match ts s = Some (snd z)"
    "\<forall>ts' r'. (ts', r') \<in> F \<longrightarrow> pattern_match ts' s \<noteq> None \<longrightarrow> ts' = ts \<or> preferred ts ts'"
    by (rule optimal_SomeE)
  with assms(1) have "optimal (E \<union> F) s (Some (fst z, snd z))"
    by (intro optimal_SomeI [of ts]) auto
  with Some show ?thesis by simp
qed

lemma optimal_earlier:
  assumes "optimal E s (Some z)" and pref: "\<And>ts r ts' r'. (ts, r) \<in> E \<Longrightarrow> (ts', r') \<in> F \<Longrightarrow>
      pattern_match ts s \<noteq> None \<Longrightarrow> pattern_match ts' s \<noteq> None \<Longrightarrow> preferred ts ts'"
  shows "optimal (E \<union> F) s (Some z)"
proof -
  from assms(1) have "optimal E s (Some (fst z, snd z))" by simp
  then obtain ts where ts: "(ts, fst z) \<in> E" "pattern_match ts s = Some (snd z)"
    "\<forall>ts' r'. (ts', r') \<in> E \<longrightarrow> pattern_match ts' s \<noteq> None \<longrightarrow> ts' = ts \<or> preferred ts ts'"
    by (rule optimal_SomeE)
  with pref [OF ts(1)] have "optimal (E \<union> F) s (Some (fst z, snd z))"
    by (intro optimal_SomeI [of ts]) auto
  then show ?thesis by simp
qed

lemma optimal_union:
  assumes x: "optimal E s x" and y: "x = None \<Longrightarrow> optimal F s y"
    and pref: "\<And>ts r ts' r'. (ts, r) \<in> E \<Longrightarrow> (ts', r') \<in> F \<Longrightarrow> pattern_match ts s \<noteq> None \<Longrightarrow>
      pattern_match ts' s \<noteq> None \<Longrightarrow> preferred ts ts'"
  shows "optimal (E \<union> F) s (case x of Some z \<Rightarrow> Some z | None \<Rightarrow> y)"
proof (cases x)
  case None
  with x y show ?thesis by (auto intro!: optimal_later dest: optimal_NoneD)
next
  case (Some z)
  with x pref show ?thesis by (auto intro!: optimal_earlier)
qed

lemma optimal_prepend:
  assumes x: "optimal (set es) s' x"
    and step: "\<And>ts. pattern_match (p @ ts) s = map_option f (pattern_match ts s')"
    and pref: "\<And>ts ts'. preferred (p @ ts) (p @ ts') = preferred ts ts'"
  shows "optimal (set (prepend p es)) s (map_option (\<lambda>(r, vs). (r, f vs)) x)"
proof (cases x)
  case None
  with x show ?thesis by (auto intro!: optimal_NoneI dest: optimal_NoneD simp: step)
next
  case (Some z)
  obtain r vs where z: "z = (r, vs)" by (cases z)
  with x Some have "optimal (set es) s' (Some (r, vs))" by simp
  then obtain ts where ts: "(ts, r) \<in> set es" "pattern_match ts s' = Some vs"
    "\<forall>ts' r'. (ts', r') \<in> set es \<longrightarrow> pattern_match ts' s' \<noteq> None \<longrightarrow> ts' = ts \<or> preferred ts ts'"
    by (rule optimal_SomeE)
  have "optimal (set (prepend p es)) s (Some (r, f vs))"
  proof (rule optimal_SomeI [of "p @ ts"])
    show "(p @ ts, r) \<in> set (prepend p es)" using ts(1) by force
    show "pattern_match (p @ ts) s = Some (f vs)" by (simp add: step ts(2))
    show "ts' = p @ ts \<or> preferred (p @ ts) ts'"
      if "(ts', r') \<in> set (prepend p es)" "pattern_match ts' s \<noteq> None" for ts' r'
      using that ts(3) by (auto simp: step pref)
  qed
  with Some z show ?thesis by simp
qed

abbreviation static_entries :: "'h node list \<Rightarrow> (tok list \<times> 'h route) list" where
  "static_entries cs \<equiv> concat (map (\<lambda>c. prepend (map Lit (n_prefix c)) (entries c)) cs)"

abbreviation special_entries :: "tok \<Rightarrow> 'h node option \<Rightarrow> (tok list \<times> 'h route) list" where
  "special_entries t pc \<equiv> (case pc of None \<Rightarrow> [] | Some c \<Rightarrow> prepend [t] (entries c))"

abbreviation own_entries :: "'h route option \<Rightarrow> (tok list \<times> 'h route) list" where
  "own_entries r \<equiv> (case r of None \<Rightarrow> [] | Some x \<Rightarrow> [([], x)])"

lemma entries_parts:
  "entries n = own_entries (n_route n) @ static_entries (n_static n)
     @ special_entries Param (n_parameter n) @ special_entries CatchAll (n_catch_all n)"
  by (cases n) simp

definition static_ok :: "'h node list \<Rightarrow> bool" where
  "static_ok cs \<longleftrightarrow>
     (\<forall>c\<in>set cs. n_type c = NStatic \<and> n_prefix c \<noteq> [] \<and> plain (n_prefix c) \<and> node_ok c)
     \<and> distinct (map (\<lambda>c. hd (n_prefix c)) cs)"

definition parameter_ok :: "'h node option \<Rightarrow> bool" where
  "parameter_ok pc \<longleftrightarrow> (case pc of None \<Rightarrow> True
     | Some c \<Rightarrow> n_type c = NParameter \<and> n_prefix c = [] \<and> n_parameter c = None
                 \<and> n_catch_all c = None \<and> node_ok c)"

definition catch_all_ok :: "'h node option \<Rightarrow> bool" where
  "catch_all_ok ca \<longleftrightarrow> (case ca of None \<Rightarrow> True
     | Some c \<Rightarrow> n_type c = NCatchAll \<and> n_prefix c = [] \<and> n_static c = []
                 \<and> n_parameter c = None \<and> n_catch_all c = None)"

lemma node_ok_parts:
  "node_ok n \<longleftrightarrow> static_ok (n_static n) \<and> parameter_ok (n_parameter n) \<and> catch_all_ok (n_catch_all n)"
  by (cases n) (simp add: static_ok_def parameter_ok_def catch_all_ok_def conj_ac)

lemma static_ok_Cons:
  "static_ok (c # cs) \<longleftrightarrow>
     n_type c = NStatic \<and> n_prefix c \<noteq> [] \<and> plain (n_prefix c) \<and> node_ok c
     \<and> (\<forall>d\<in>set cs. hd (n_prefix c) \<noteq> hd (n_prefix d)) \<and> static_ok cs"
  unfolding static_ok_def by (auto simp: image_iff)

lemma static_entry_match:
  assumes "(ts, r) \<in> set (static_entries cs)" "static_ok cs" "pattern_match ts s \<noteq> None"
  shows "s \<noteq> [] \<and> (\<exists>c us. ts = Lit c # us) \<and> (\<exists>d\<in>set cs. hd (n_prefix d) = hd s)"
proof -
  from assms(1) obtain c us where c: "c \<in> set cs" "ts = map Lit (n_prefix c) @ us"
    by auto
  with assms(2) have ne: "n_prefix c \<noteq> []" by (simp add: static_ok_def)
  from c assms(3) have "prefix (n_prefix c) s"
    by (simp add: pattern_match_literal split: if_splits)
  with ne c show ?thesis by (cases "n_prefix c") (force simp: prefix_def)+
qed

section \<open>The search finds the preferred match\<close>

lemma optimal_own:
  "optimal (set (own_entries r)) s (if s = [] \<and> r \<noteq> None then Some (the r, []) else None)"
  by (auto simp: optimal_def split: option.splits)

lemma catch_all_entries:
  "catch_all_ok ca \<Longrightarrow> set (special_entries CatchAll ca) =
     (case ca of None \<Rightarrow> {} | Some c \<Rightarrow> (case n_route c of None \<Rightarrow> {} | Some r \<Rightarrow> {([CatchAll], r)}))"
  by (cases ca; cases "the ca") (auto simp: catch_all_ok_def split: option.splits)

lemma optimal_catch_all:
  assumes "catch_all_ok ca"
  shows "optimal (set (special_entries CatchAll ca)) s
     (route_result (case ca of None \<Rightarrow> None
        | Some c \<Rightarrow> if n_route c \<noteq> None \<and> s \<noteq> [] \<and> s \<noteq> ''/'' then Some (c, [s]) else None))"
proof (cases ca)
  case None
  then show ?thesis by (simp add: optimal_def)
next
  case (Some c)
  with assms have e: "set (special_entries CatchAll ca) =
      (case n_route c of None \<Rightarrow> {} | Some r \<Rightarrow> {([CatchAll], r)})"
    by (subst catch_all_entries) simp_all
  show ?thesis unfolding e using Some by (cases "n_route c") (simp_all add: optimal_def)
qed

lemma special_entry_match:
  "(ts, r) \<in> set (special_entries t pc) \<Longrightarrow> pattern_match ts s \<noteq> None \<Longrightarrow>
   s \<noteq> [] \<and> (\<exists>us. ts = t # us)"
  by (cases s) (auto simp: pattern_match_empty split: option.splits)

lemma optimal_static_Cons:
  assumes ok: "static_ok (c # cs)"
    and c: "prefix (n_prefix c) s \<Longrightarrow>
      optimal (set (entries c)) (drop (length (n_prefix c)) s) (route_result x)"
    and cs: "(prefix (n_prefix c) s \<Longrightarrow> x = None) \<Longrightarrow>
      optimal (set (static_entries cs)) s (route_result y)"
  shows "optimal (set (static_entries (c # cs))) s
    (route_result (if prefix (n_prefix c) s then (case x of Some z \<Rightarrow> Some z | None \<Rightarrow> y) else y))"
proof -
  let ?p = "n_prefix c" and ?E = "set (prepend (map Lit (n_prefix c)) (entries c))"
  let ?x = "if prefix ?p s then route_result x else None"
  have "optimal ?E s ?x"
  proof (cases "prefix ?p s")
    case True
    then have "optimal ?E s (map_option (\<lambda>(r, vs). (r, vs)) (route_result x))"
      by (intro optimal_prepend [OF c])
        (auto simp: pattern_match_literal preferred_literal option.map_ident)
    moreover have "map_option (\<lambda>(r, vs). (r, vs)) (route_result x) = route_result x"
      by (cases x) auto
    ultimately have "optimal ?E s (route_result x)" by (simp only:)
    with True show ?thesis by simp
  next
    case False
    then show ?thesis by (auto intro!: optimal_NoneI simp: pattern_match_literal)
  qed
  then have "optimal (?E \<union> set (static_entries cs)) s
    (case ?x of Some z \<Rightarrow> Some z | None \<Rightarrow> route_result y)"
  proof (rule optimal_union)
    show "optimal (set (static_entries cs)) s (route_result y)" if "?x = None"
      using that by (intro cs) simp
    fix ts r ts' r'
    assume "(ts, r) \<in> ?E" and rest: "(ts', r') \<in> set (static_entries cs)" "pattern_match ts' s \<noteq> None"
      and "pattern_match ts s \<noteq> None"
    then have "prefix ?p s" by (auto simp: pattern_match_literal split: if_splits)
    moreover have "?p \<noteq> []" using ok by (simp add: static_ok_Cons)
    ultimately have "hd s = hd ?p" by (cases ?p) (auto simp: prefix_def)
    moreover obtain d where "d \<in> set cs" "hd (n_prefix d) = hd s"
      using static_entry_match [OF rest(1) _ rest(2)] ok by (auto simp: static_ok_Cons)
    ultimately show "preferred ts ts'" using ok by (auto simp: static_ok_Cons)
  qed
  then show ?thesis by (cases x) (auto split: if_splits)
qed

lemma optimal_parameter:
  assumes c: "s \<noteq> [] \<Longrightarrow> hd s \<noteq> CHR ''/'' \<Longrightarrow> optimal (set (entries c)) (from_slash s) (route_result x)"
  shows "optimal (set (special_entries Param (Some c))) s
    (route_result (if s \<noteq> [] \<and> hd s \<noteq> CHR ''/''
       then map_option (\<lambda>(m, vs). (m, upto_slash s # vs)) x else None))"
proof (cases "s \<noteq> [] \<and> hd s \<noteq> CHR ''/''")
  case True
  then have "optimal (set (prepend [Param] (entries c))) s
      (map_option (\<lambda>(r, vs). (r, upto_slash s # vs)) (route_result x))"
    by (intro optimal_prepend [OF c]) auto
  with True show ?thesis by (simp add: option.map_comp comp_def case_prod_beta)
next
  case False
  then show ?thesis by (auto intro!: optimal_NoneI)
qed

text \<open>The children of a node: static ones first, then the parameter, then the catch-all.\<close>

lemma optimal_children:
  assumes ok: "static_ok cs"
    and st: "optimal (set (static_entries cs)) s x"
    and pm: "x = None \<Longrightarrow> optimal (set (special_entries Param pc)) s y"
    and ca: "optimal (set (special_entries CatchAll cc)) s z"
  shows "optimal (set (static_entries cs) \<union> (set (special_entries Param pc) \<union> set (special_entries CatchAll cc))) s
    (case x of Some u \<Rightarrow> Some u | None \<Rightarrow> (case y of Some u \<Rightarrow> Some u | None \<Rightarrow> z))"
proof -
  let ?P = "set (special_entries Param pc)" and ?C = "set (special_entries CatchAll cc)"
  have PC: "optimal (?P \<union> ?C) s (case y of Some u \<Rightarrow> Some u | None \<Rightarrow> z)" if "x = None"
    by (rule optimal_union [OF pm [OF that] ca]) (auto dest!: special_entry_match)
  show ?thesis
  proof (rule optimal_union [OF st PC])
    fix ts r ts' r'
    assume 1: "(ts, r) \<in> set (static_entries cs)" "pattern_match ts s \<noteq> None"
      and 2: "(ts', r') \<in> ?P \<union> ?C" "pattern_match ts' s \<noteq> None"
    from 2 have "\<exists>us. ts' = Param # us \<or> ts' = CatchAll # us"
      using special_entry_match by (metis UnE)
    with static_entry_match [OF 1(1) ok 1(2)] show "preferred ts ts'" by auto
  qed
qed

lemma optimal_node:
  assumes ok: "node_ok n"
    and st: "\<not> (s = [] \<and> n_route n \<noteq> None) \<Longrightarrow>
      optimal (set (static_entries (n_static n))) s (route_result x)"
    and pm: "\<not> (s = [] \<and> n_route n \<noteq> None) \<Longrightarrow> x = None \<Longrightarrow>
      optimal (set (special_entries Param (n_parameter n))) s (route_result y)"
  shows "optimal (set (entries n)) s
    (route_result (if s = [] \<and> n_route n \<noteq> None then Some (n, [])
      else case x of Some z \<Rightarrow> Some z | None \<Rightarrow> (case y of Some z \<Rightarrow> Some z
        | None \<Rightarrow> (case n_catch_all n of None \<Rightarrow> None
           | Some c \<Rightarrow> if n_route c \<noteq> None \<and> s \<noteq> [] \<and> s \<noteq> ''/'' then Some (c, [s]) else None))))"
    (is "optimal _ s (route_result (if ?own then _ else case x of Some z \<Rightarrow> Some z
        | None \<Rightarrow> (case y of Some z \<Rightarrow> Some z | None \<Rightarrow> ?ca)))")
proof -
  let ?S = "set (static_entries (n_static n))" and ?P = "set (special_entries Param (n_parameter n))"
    and ?C = "set (special_entries CatchAll (n_catch_all n))"
  from ok have parts: "static_ok (n_static n)" "catch_all_ok (n_catch_all n)"
    by (simp_all add: node_ok_parts)
  have SPC: "optimal (?S \<union> (?P \<union> ?C)) s (case route_result x of Some z \<Rightarrow> Some z
      | None \<Rightarrow> (case route_result y of Some z \<Rightarrow> Some z | None \<Rightarrow> route_result ?ca))" if "\<not> ?own"
    by (rule optimal_children [OF parts(1) st [OF that] pm [OF that] optimal_catch_all [OF parts(2)]]) simp
  have "optimal (set (own_entries (n_route n)) \<union> (?S \<union> (?P \<union> ?C))) s
     (case (if s = [] \<and> n_route n \<noteq> None then Some (the (n_route n), []) else None) of
        Some z \<Rightarrow> Some z
      | None \<Rightarrow> (case route_result x of Some z \<Rightarrow> Some z
          | None \<Rightarrow> (case route_result y of Some z \<Rightarrow> Some z | None \<Rightarrow> route_result ?ca)))"
  proof (rule optimal_union [OF optimal_own SPC])
    fix ts r ts' r'
    assume 1: "(ts, r) \<in> set (own_entries (n_route n))" "pattern_match ts s \<noteq> None"
      and 2: "(ts', r') \<in> ?S \<union> (?P \<union> ?C)" "pattern_match ts' s \<noteq> None"
    from 1 have "s = []" by (auto split: option.splits if_splits)
    moreover from 2(1) have "s \<noteq> []"
    proof (elim UnE)
      assume "(ts', r') \<in> ?S"
      from static_entry_match [OF this parts(1) 2(2)] show ?thesis by simp
    next
      assume "(ts', r') \<in> ?P"
      from special_entry_match [OF this 2(2)] show ?thesis by simp
    next
      assume "(ts', r') \<in> ?C"
      from special_entry_match [OF this 2(2)] show ?thesis by simp
    qed
    ultimately show "preferred ts ts'" by simp
  qed (simp split: if_splits)
  then have "optimal (set (entries n)) s
     (case (if s = [] \<and> n_route n \<noteq> None then Some (the (n_route n), []) else None) of
        Some z \<Rightarrow> Some z
      | None \<Rightarrow> (case route_result x of Some z \<Rightarrow> Some z
          | None \<Rightarrow> (case route_result y of Some z \<Rightarrow> Some z | None \<Rightarrow> route_result ?ca)))"
    by (subst entries_parts) (simp only: set_append)
  also have "\<dots> = route_result (if ?own then Some (n, []) else case x of Some z \<Rightarrow> Some z
        | None \<Rightarrow> (case y of Some z \<Rightarrow> Some z | None \<Rightarrow> ?ca))"
    by (cases x; cases y) auto
  finally show ?thesis .
qed

theorem best_optimal:
  fixes n :: "'h node" and cs :: "'h node list" and pc :: "'h node option"
  shows "node_ok n \<Longrightarrow> optimal (set (entries n)) s (route_result (best n s))"
    and "static_ok cs \<Longrightarrow> optimal (set (static_entries cs)) s (route_result (best_static cs s))"
    and "parameter_ok pc \<Longrightarrow>
      optimal (set (special_entries Param pc)) s (route_result (best_parameter pc s))"
proof (induction n s and cs s and pc s rule: best_best_static_best_parameter.induct)
  case (1 node s)
  show ?case
    unfolding best.simps [of node s]
    by (rule optimal_node [OF "1.prems"]) (use 1 in \<open>simp_all add: node_ok_parts\<close>)
next
  case (2 s)
  then show ?case by (simp add: optimal_def)
next
  case (3 c cs s)
  then have "static_ok cs" "node_ok c" by (simp_all add: static_ok_Cons)
  with 3 have "optimal (set (static_entries (c # cs))) s
     (route_result (if prefix (n_prefix c) s
        then (case best c (drop (length (n_prefix c)) s) of Some z \<Rightarrow> Some z | None \<Rightarrow> best_static cs s)
        else best_static cs s))"
    by (intro optimal_static_Cons) auto
  then show ?case by (simp only: best_static.simps)
next
  case (4 s)
  then show ?case by (simp add: optimal_def)
next
  case (5 c s)
  then show ?case
    unfolding best_parameter.simps
    by (intro optimal_parameter) (simp add: parameter_ok_def)
qed

lemma best_has_route:
  fixes n :: "'h node" and cs :: "'h node list" and pc :: "'h node option"
  shows "best n s = Some (m, vs) \<Longrightarrow> n_route m \<noteq> None"
    and "best_static cs s = Some (m, vs) \<Longrightarrow> n_route m \<noteq> None"
    and "best_parameter pc s = Some (m, vs) \<Longrightarrow> n_route m \<noteq> None"
proof (induction n s and cs s and pc s arbitrary: vs and vs and vs
    rule: best_best_static_best_parameter.induct)
  case (1 node s)
  then show ?case
    by (simp add: best.simps [of node s] split: if_splits option.splits)
next
  case (3 c cs s)
  then show ?case by (auto split: if_splits option.splits)
next
  case (5 c s)
  then show ?case by (auto split: if_splits)
qed simp_all

end
