(* ===== verification/Router_Insert.thy ===== *)
theory Router_Insert
  imports Router_Match
begin

text \<open>
  Correctness of insertion.  Building the path of a pattern changes the shape of the tree
  (nodes are split and added) but not its contents; only the last assignment of a route
  adds an entry.  A pattern whose path is already there leaves the tree as it is.
\<close>

section \<open>Tokens along a path\<close>

fun path_tokens :: "'h node \<Rightarrow> node_ptr \<Rightarrow> tok list" where
  "path_tokens n [] = []"
| "path_tokens n (StaticEdge i # p) =
     map Lit (n_prefix (n_static n ! i)) @ path_tokens (n_static n ! i) p"
| "path_tokens n (ParameterEdge # p) =
     Param # (case n_parameter n of None \<Rightarrow> [] | Some c \<Rightarrow> path_tokens c p)"
| "path_tokens n (CatchAllEdge # p) =
     CatchAll # (case n_catch_all n of None \<Rightarrow> [] | Some c \<Rightarrow> path_tokens c p)"

lemma setter_simps [simp]:
  "n_type (set_static cs n) = n_type n" "n_prefix (set_static cs n) = n_prefix n"
  "n_static (set_static cs n) = cs" "n_parameter (set_static cs n) = n_parameter n"
  "n_catch_all (set_static cs n) = n_catch_all n" "n_route (set_static cs n) = n_route n"
  "n_type (set_parameter p n) = n_type n" "n_prefix (set_parameter p n) = n_prefix n"
  "n_static (set_parameter p n) = n_static n" "n_parameter (set_parameter p n) = p"
  "n_catch_all (set_parameter p n) = n_catch_all n" "n_route (set_parameter p n) = n_route n"
  "n_type (set_catch_all p n) = n_type n" "n_prefix (set_catch_all p n) = n_prefix n"
  "n_static (set_catch_all p n) = n_static n" "n_parameter (set_catch_all p n) = n_parameter n"
  "n_catch_all (set_catch_all p n) = p" "n_route (set_catch_all p n) = n_route n"
  "n_type (set_route r n) = n_type n" "n_prefix (set_route r n) = n_prefix n"
  "n_static (set_route r n) = n_static n" "n_parameter (set_route r n) = n_parameter n"
  "n_catch_all (set_route r n) = n_catch_all n" "n_route (set_route r n) = r"
  by (cases n; simp)+

lemma make_node_simps [simp]:
  "n_type (make_node ty pre) = ty" "n_prefix (make_node ty pre) = pre"
  "n_static (make_node ty pre) = []" "n_parameter (make_node ty pre) = None"
  "n_catch_all (make_node ty pre) = None" "n_route (make_node ty pre) = None"
  by (simp_all add: make_node_def)

lemma entries_make_node [simp]: "entries (make_node ty pre) = []"
  by (simp add: make_node_def)

lemma node_ok_make_node [simp]: "node_ok (make_node ty pre)"
  by (simp add: make_node_def)

lemma split_child_simps [simp]:
  "n_type (split_child k c) = n_type c" "n_prefix (split_child k c) = take k (n_prefix c)"
  by (cases c; simp add: Let_def)+

lemma entries_split_child:
  "k \<le> length (n_prefix c) \<Longrightarrow>
   prepend (map Lit (take k (n_prefix c))) (entries (split_child k c))
     = prepend (map Lit (n_prefix c)) (entries c)"
  by (cases c) (simp add: Let_def comp_def case_prod_beta flip: map_append append_assoc)

lemma node_ok_split_child:
  "node_ok c \<Longrightarrow> k < length (n_prefix c) \<Longrightarrow> plain (n_prefix c) \<Longrightarrow> node_ok (split_child k c)"
  by (cases c) (auto simp: Let_def plain_def dest: in_set_dropD)

lemma plain_take_drop: "plain s \<Longrightarrow> plain (take k s) \<and> plain (drop k s)"
  by (auto simp: plain_def dest: in_set_takeD in_set_dropD)

lemma common_prefix_take: "take (common_prefix a b) a = take (common_prefix a b) b"
  "common_prefix a b \<le> length a" "common_prefix a b \<le> length b"
proof -
  have "prefix (longest_common_prefix a b) a" "prefix (longest_common_prefix a b) b"
    by (rule longest_common_prefix_prefix1, rule longest_common_prefix_prefix2)
  then show "take (common_prefix a b) a = take (common_prefix a b) b"
    unfolding common_prefix_lcp by (metis append_eq_conv_conj prefix_def)
  show "common_prefix a b \<le> length a" "common_prefix a b \<le> length b"
    unfolding common_prefix_lcp
    by (rule prefix_length_le, rule longest_common_prefix_prefix1 longest_common_prefix_prefix2)+
qed

section \<open>Inserting literal text\<close>

abbreviation head :: "'h node \<Rightarrow> char" where
  "head c \<equiv> hd (n_prefix c)"

definition inserted :: "'h node \<Rightarrow> string \<Rightarrow> 'h node \<Rightarrow> node_ptr \<Rightarrow> bool" where
  "inserted n tx n' p \<longleftrightarrow>
     n_type n' = n_type n \<and> n_prefix n' = n_prefix n \<and> n_parameter n' = n_parameter n
     \<and> n_catch_all n' = n_catch_all n \<and> n_route n' = n_route n
     \<and> node_ok n' \<and> set (entries n') = set (entries n)
     \<and> (\<exists>m. node_at n' p = Some m \<and> path_tokens n' p = map Lit tx
          \<and> (if tx = [] then m = n' else n_type m = NStatic))"

definition inserted_child :: "'h node list \<Rightarrow> string \<Rightarrow> 'h node list \<Rightarrow> nat \<Rightarrow> node_ptr \<Rightarrow> bool" where
  "inserted_child cs tx cs' i p \<longleftrightarrow>
     static_ok cs' \<and> set (static_entries cs') = set (static_entries cs)
     \<and> head ` set cs' \<subseteq> insert (hd tx) (head ` set cs) \<and> i < length cs'
     \<and> (\<exists>m. node_at (cs' ! i) p = Some m \<and> n_type m = NStatic
          \<and> map Lit (n_prefix (cs' ! i)) @ path_tokens (cs' ! i) p = map Lit tx)"

lemma inserted_children:
  assumes "inserted_child (n_static n) tx cs' i p" "node_ok n" "tx \<noteq> []"
  shows "inserted n tx (set_static cs' n) (StaticEdge i # p)"
  using assms
  by (auto simp: inserted_def inserted_child_def node_ok_parts entries_parts [of n]
      entries_parts [of "set_static cs' n"])

lemma inserted_refl: "node_ok n \<Longrightarrow> inserted n [] n []"
  by (simp add: inserted_def)

lemma inserted_child_skip:
  assumes "inserted_child cs tx cs' i p" "static_ok (child # cs)" "head child \<noteq> hd tx"
  shows "inserted_child (child # cs) tx (child # cs') (Suc i) p"
proof -
  have "\<forall>d\<in>set cs'. head child \<noteq> head d"
    using assms by (auto simp: inserted_child_def static_ok_Cons)
  with assms show ?thesis
    by (auto simp: inserted_child_def static_ok_Cons)
qed

lemma inserted_child_new:
  "tx \<noteq> [] \<Longrightarrow> plain tx \<Longrightarrow> inserted_child [] tx [make_node NStatic tx] 0 []"
  by (simp add: inserted_child_def static_ok_def)

text \<open>The step at the child that shares the first character: a possible split, then the rest.\<close>

definition split_if_needed :: "string \<Rightarrow> 'h node \<Rightarrow> 'h node" where
  "split_if_needed tx child =
     (if common_prefix (n_prefix child) tx < length (n_prefix child)
      then split_child (common_prefix (n_prefix child) tx) child else child)"

lemma split_if_needed:
  assumes "static_ok (child # cs)"
  shows "n_type (split_if_needed tx child) = NStatic" "node_ok (split_if_needed tx child)"
    "n_prefix (split_if_needed tx child) = take (common_prefix (n_prefix child) tx) tx"
    "prepend (map Lit (n_prefix (split_if_needed tx child))) (entries (split_if_needed tx child))
       = prepend (map Lit (n_prefix child)) (entries child)"
proof -
  let ?k = "common_prefix (n_prefix child) tx"
  from assms have ok: "n_type child = NStatic" "plain (n_prefix child)" "node_ok child"
    by (simp_all add: static_ok_Cons)
  show "n_type (split_if_needed tx child) = NStatic" "node_ok (split_if_needed tx child)"
    using ok by (simp_all add: split_if_needed_def node_ok_split_child)
  have "n_prefix (split_if_needed tx child) = take ?k (n_prefix child)"
    by (simp add: split_if_needed_def)
  then show "n_prefix (split_if_needed tx child) = take ?k tx"
    using common_prefix_take(1) by simp
  show "prepend (map Lit (n_prefix (split_if_needed tx child))) (entries (split_if_needed tx child))
       = prepend (map Lit (n_prefix child)) (entries child)"
    using common_prefix_take(2) [of "n_prefix child" tx]
    by (simp add: split_if_needed_def entries_split_child)
qed

lemma inserted_child_here:
  assumes ok: "static_ok (child # cs)" and t: "tx \<noteq> []" "plain tx" "head child = hd tx"
    and ins: "inserted (split_if_needed tx child)
      (drop (common_prefix (n_prefix child) tx) tx) child2 p"
  shows "inserted_child (child # cs) tx (child2 # cs) 0 p"
proof -
  let ?k = "common_prefix (n_prefix child) tx" and ?c1 = "split_if_needed tx child"
  note c1 = split_if_needed [OF ok, of tx]
  from ok have "n_prefix child \<noteq> []" by (simp add: static_ok_Cons)
  with t have "0 < ?k" by (intro common_prefix_pos) simp_all
  then have pre: "take ?k tx \<noteq> []" "hd (take ?k tx) = hd tx" "plain (take ?k tx)"
    using t by (auto simp: plain_take_drop)
  have keep: "n_prefix child2 = take ?k tx" "n_type child2 = NStatic" "node_ok child2"
    "set (entries child2) = set (entries ?c1)"
    using ins c1 by (auto simp: inserted_def)
  have "set (static_entries (child2 # cs)) = set (static_entries (child # cs))"
    using keep(4) c1(4) by (simp add: keep(1) c1(3)) (metis list.set_map)
  moreover have "static_ok (child2 # cs)"
    using ok keep pre t(3) by (simp add: static_ok_Cons)
  moreover obtain m where "node_at child2 p = Some m" "n_type m = NStatic"
    "path_tokens child2 p = map Lit (drop ?k tx)"
    using ins keep(2) by (auto simp: inserted_def split: if_splits)
  moreover have "map Lit (take ?k tx) @ map Lit (drop ?k tx) = map Lit tx"
    by (simp flip: map_append)
  ultimately show ?thesis
    using keep pre t(3) by (auto simp: inserted_child_def)
qed

lemma insert_static_correct:
  fixes n :: "'h node" and cs :: "'h node list"
  shows "node_ok n \<Longrightarrow> plain tx \<Longrightarrow> insert_static n tx = (n', p) \<Longrightarrow> inserted n tx n' p"
    and "static_ok cs \<Longrightarrow> tx2 \<noteq> [] \<Longrightarrow> plain tx2 \<Longrightarrow> insert_children cs tx2 = (cs', i, p) \<Longrightarrow>
      inserted_child cs tx2 cs' i p"
proof (induction n tx and cs tx2 arbitrary: n' p and cs' i p rule: insert_static_insert_children.induct)
  case (1 n tx)
  show ?case
  proof (cases "tx = []")
    case True
    with 1 show ?thesis by (simp add: insert_static.simps inserted_refl)
  next
    case False
    obtain cs' i q where "insert_children (n_static n) tx = (cs', i, q)" by (metis prod_cases3)
    moreover from this False 1 have "inserted_child (n_static n) tx cs' i q"
      by (auto simp: node_ok_parts)
    ultimately show ?thesis
      using False 1 inserted_children by (auto simp: insert_static.simps)
  qed
next
  case (2 tx)
  then show ?case by (auto simp: inserted_child_new)
next
  case (3 child cs tx)
  show ?case
  proof (cases "head child = hd tx")
    case False
    obtain cs1 j q where c: "insert_children cs tx = (cs1, j, q)" by (metis prod_cases3)
    with 3 False have "inserted_child cs tx cs1 j q" by (auto simp: static_ok_Cons)
    from inserted_child_skip [OF this "3.prems"(1) False] c False "3.prems" show ?thesis
      by simp
  next
    case True
    let ?k = "common_prefix (n_prefix child) tx"
    from 3 have go: "\<not> (tx = [] \<or> n_prefix child = [] \<or> n_type child \<noteq> NStatic \<or> head child \<noteq> hd tx)"
      using True by (simp add: static_ok_Cons)
    obtain c2 q where c2: "insert_static (split_if_needed tx child) (drop ?k tx) = (c2, q)"
      by (metis surj_pair)
    have "plain (drop ?k tx)" using "3.prems"(3) plain_take_drop by blast
    with "3.IH"(2) [OF go refl refl, folded split_if_needed_def] split_if_needed(2) [OF "3.prems"(1)] c2
    have "inserted (split_if_needed tx child) (drop ?k tx) c2 q" by blast
    then have "inserted_child (child # cs) tx (c2 # cs) 0 q"
      by (rule inserted_child_here [OF "3.prems"(1-3) True])
    moreover have "insert_children (child # cs) tx = (c2 # cs, 0, q)"
      using c2 go by (simp add: split_if_needed_def Let_def)
    ultimately show ?thesis using "3.prems"(4) by simp
  qed
qed

section \<open>Replacing a node behind a pointer\<close>

text \<open>What a replacement must keep for the parent's conditions to stay true.\<close>

definition keeps :: "'h node \<Rightarrow> 'h node \<Rightarrow> bool" where
  "keeps n n' \<longleftrightarrow>
     n_type n' = n_type n \<and> n_prefix n' = n_prefix n
     \<and> (n_type n \<noteq> NStatic \<longrightarrow> n_parameter n' = n_parameter n \<and> n_catch_all n' = n_catch_all n)
     \<and> (n_type n = NCatchAll \<longrightarrow> n_static n' = n_static n)"

definition node_wf :: "'h node \<Rightarrow> bool" where
  "node_wf n \<longleftrightarrow> node_ok n
     \<and> (n_type n \<noteq> NStatic \<longrightarrow> n_parameter n = None \<and> n_catch_all n = None)
     \<and> (n_type n = NCatchAll \<longrightarrow> n_static n = [])"

lemma node_ok_leaf:
  "n_static c = [] \<Longrightarrow> n_parameter c = None \<Longrightarrow> n_catch_all c = None \<Longrightarrow> node_ok c"
  by (cases c) simp

lemma node_wf_children:
  assumes "node_ok n"
  shows "c \<in> set (n_static n) \<Longrightarrow> node_wf c"
    and "n_parameter n = Some c \<Longrightarrow> node_wf c \<and> n_type c = NParameter"
    and "n_catch_all n = Some c \<Longrightarrow> node_wf c \<and> n_type c = NCatchAll"
proof -
  show "node_wf c" if "c \<in> set (n_static n)"
    using assms that by (auto simp: node_wf_def node_ok_parts [of n] static_ok_def)
  show "node_wf c \<and> n_type c = NParameter" if "n_parameter n = Some c"
    using assms that by (auto simp: node_wf_def node_ok_parts [of n] parameter_ok_def)
  show "node_wf c \<and> n_type c = NCatchAll" if "n_catch_all n = Some c"
    using assms that
    by (auto simp: node_wf_def node_ok_parts [of n] catch_all_ok_def node_ok_leaf)
qed

lemma keeps_wf: "keeps n n' \<Longrightarrow> node_wf n \<Longrightarrow> node_ok n' \<Longrightarrow> node_wf n'"
  by (auto simp: keeps_def node_wf_def)

lemma static_ok_update:
  assumes "static_ok cs" "i < length cs" "keeps (cs ! i) c" "node_ok c"
  shows "static_ok (cs[i := c])"
proof -
  have "map head (cs[i := c]) = (map head cs)[i := head (cs ! i)]"
    using assms(3) by (simp add: map_update keeps_def)
  also have "\<dots> = map head cs"
    using assms(2) by (simp add: list_update_same_conv)
  finally have heads: "map head (cs[i := c]) = map head cs" .
  have "n_type c = NStatic" "n_prefix c \<noteq> []" "plain (n_prefix c)"
    using assms(1-3) by (simp_all add: static_ok_def keeps_def)
  with assms(1,4) heads show ?thesis
    by (auto simp: static_ok_def dest!: set_update_subset_insert [THEN subsetD])
qed

lemma static_entries_update:
  assumes "i < length cs" "n_prefix c = n_prefix (cs ! i)"
    and "set (entries c) = set (entries (cs ! i)) \<union> X"
  shows "set (static_entries (cs[i := c])) =
    set (static_entries cs) \<union> (\<lambda>(ts, r). (map Lit (n_prefix (cs ! i)) @ ts, r)) ` X"
  using assms
proof (induction cs arbitrary: i)
  case Nil
  then show ?case by simp
next
  case (Cons d cs)
  then show ?case by (cases i) (auto simp: image_Un)
qed

text \<open>Replacing one child by an updated one.\<close>

lemma replace_static:
  assumes t: "node_wf t" and i: "i < length (n_static t)" and c: "keeps (n_static t ! i) c" "node_ok c"
    "set (entries c) = set (entries (n_static t ! i)) \<union> X"
  shows "keeps t (set_static ((n_static t)[i := c]) t) \<and> node_ok (set_static ((n_static t)[i := c]) t)
    \<and> set (entries (set_static ((n_static t)[i := c]) t)) =
        set (entries t) \<union> (\<lambda>(ts, r). (map Lit (n_prefix (n_static t ! i)) @ ts, r)) ` X"
proof -
  let ?cs = "(n_static t)[i := c]"
  have "static_ok ?cs"
    using t i c by (intro static_ok_update) (auto simp: node_wf_def node_ok_parts [of t])
  then have "node_ok (set_static ?cs t)"
    using t by (simp add: node_ok_parts [of t] node_ok_parts [of "set_static _ t"] node_wf_def)
  moreover have "keeps t (set_static ?cs t)" using t i by (auto simp: keeps_def node_wf_def)
  moreover have "set (static_entries ?cs) =
      set (static_entries (n_static t)) \<union> (\<lambda>(ts, r). (map Lit (n_prefix (n_static t ! i)) @ ts, r)) ` X"
    by (rule static_entries_update [OF i _ c(3)]) (use c(1) in \<open>simp add: keeps_def\<close>)
  ultimately show ?thesis
    unfolding entries_parts [of t] entries_parts [of "set_static _ t"] setter_simps set_append by blast
qed

lemma replace_parameter:
  assumes "node_wf t" "n_parameter t = Some c" "keeps c c'" "node_ok c'"
    "set (entries c') = set (entries c) \<union> X"
  shows "keeps t (set_parameter (Some c') t) \<and> node_ok (set_parameter (Some c') t)
    \<and> set (entries (set_parameter (Some c') t)) = set (entries t) \<union> (\<lambda>(ts, r). (Param # ts, r)) ` X"
proof -
  have "parameter_ok (Some c')"
    using assms node_wf_children(2) [of t c]
    by (auto simp: node_wf_def node_ok_parts [of t] parameter_ok_def keeps_def)
  then show ?thesis
    using assms
    by (auto simp: keeps_def node_wf_def node_ok_parts [of t] node_ok_parts [of "set_parameter _ t"]
      entries_parts [of t] entries_parts [of "set_parameter _ t"] image_Un)
qed

lemma replace_catch_all:
  assumes "node_wf t" "n_catch_all t = Some c" "keeps c c'" "node_ok c'"
    "set (entries c') = set (entries c) \<union> X"
  shows "keeps t (set_catch_all (Some c') t) \<and> node_ok (set_catch_all (Some c') t)
    \<and> set (entries (set_catch_all (Some c') t)) = set (entries t) \<union> (\<lambda>(ts, r). (CatchAll # ts, r)) ` X"
proof -
  have "catch_all_ok (Some c')"
    using assms node_wf_children(3) [of t c]
    by (auto simp: node_wf_def node_ok_parts [of t] catch_all_ok_def keeps_def)
  then show ?thesis
    using assms
    by (auto simp: keeps_def node_wf_def node_ok_parts [of t] node_ok_parts [of "set_catch_all _ t"]
      entries_parts [of t] entries_parts [of "set_catch_all _ t"] image_Un)
qed

theorem put_at_correct:
  assumes "node_wf t" "node_at t p = Some n" "keeps n n'" "node_ok n'"
    and "set (entries n') = set (entries n) \<union> X"
  shows "keeps t (put_at t p n') \<and> node_ok (put_at t p n')
    \<and> set (entries (put_at t p n')) = set (entries t) \<union> (\<lambda>(ts, r). (path_tokens t p @ ts, r)) ` X
    \<and> node_at (put_at t p n') (p @ q) = node_at n' q
    \<and> path_tokens (put_at t p n') (p @ q) = path_tokens t p @ path_tokens n' q"
  using assms
proof (induction t p rule: node_at.induct)
  case (1 t)
  then show ?case by simp
next
  case (2 t i p)
  from "2.prems" have i: "i < length (n_static t)" by (simp split: if_splits)
  with "2.prems"(1) have "node_wf (n_static t ! i)"
    by (intro node_wf_children(1) [of t]) (simp_all add: node_wf_def)
  with 2 i have "keeps (n_static t ! i) (put_at (n_static t ! i) p n')" by simp
  with 2 i \<open>node_wf (n_static t ! i)\<close> replace_static [OF "2.prems"(1) i, of "put_at (n_static t ! i) p n'"]
  show ?case by (auto simp: image_image case_prod_beta keeps_def)
next
  case (3 t p)
  from "3.prems" obtain c where c: "n_parameter t = Some c" by (auto split: option.splits)
  with "3.prems" have "node_wf c" using node_wf_children(2) [of t c] by (simp add: node_wf_def)
  with 3 c replace_parameter [OF "3.prems"(1) c, of "put_at c p n'"]
  show ?case by (auto simp: image_image case_prod_beta)
next
  case (4 t p)
  from "4.prems" obtain c where c: "n_catch_all t = Some c" by (auto split: option.splits)
  with "4.prems" have "node_wf c" using node_wf_children(3) [of t c] by (simp add: node_wf_def)
  with 4 c replace_catch_all [OF "4.prems"(1) c, of "put_at c p n'"]
  show ?case by (auto simp: image_image case_prod_beta)
qed

section \<open>Paths and entries\<close>

lemma static_child_unique:
  assumes "static_ok cs" "i < length cs" "j < length cs" "head (cs ! i) = head (cs ! j)"
  shows "i = j"
proof -
  have "distinct (map head cs)" using assms(1) by (simp add: static_ok_def)
  moreover have "map head cs ! i = map head cs ! j" using assms(2-4) by simp
  ultimately show ?thesis
    using assms(2,3) by (simp only: distinct_conv_nth length_map) blast
qed

lemma path_first:
  assumes "node_ok t" "node_at t (e # p) = Some n"
  shows "(\<exists>i. e = StaticEdge i \<and> i < length (n_static t) \<and> node_ok (n_static t ! i)
           \<and> n_prefix (n_static t ! i) \<noteq> [] \<and> node_at (n_static t ! i) p = Some n)
       \<or> (e = ParameterEdge \<and> (\<exists>c. n_parameter t = Some c \<and> node_ok c \<and> node_at c p = Some n))
       \<or> (e = CatchAllEdge \<and> (\<exists>c. n_catch_all t = Some c \<and> node_ok c \<and> node_at c p = Some n))"
proof (cases e)
  case (StaticEdge i)
  with assms show ?thesis
    by (auto simp: node_ok_parts [of t] static_ok_def split: if_splits)
next
  case ParameterEdge
  with assms show ?thesis
    by (auto simp: node_ok_parts [of t] parameter_ok_def split: option.splits)
next
  case CatchAllEdge
  with assms show ?thesis
    by (auto simp: node_ok_parts [of t] catch_all_ok_def node_ok_leaf split: option.splits)
qed

lemma path_tokens_Nil:
  "node_ok t \<Longrightarrow> node_at t p = Some n \<Longrightarrow> path_tokens t p = [] \<longleftrightarrow> p = []"
  by (cases p) (auto dest: path_first)

lemma path_tokens_inj:
  "node_ok t \<Longrightarrow> node_at t p = Some m \<Longrightarrow> node_at t q = Some n \<Longrightarrow>
   path_tokens t p = path_tokens t q \<Longrightarrow> p = q"
proof (induction p arbitrary: t q)
  case Nil
  then show ?case using path_tokens_Nil [of t q n] by simp
next
  case (Cons e p)
  then have "q \<noteq> []" using path_tokens_Nil [of t "e # p" m] by auto
  then obtain f q' where q: "q = f # q'" by (cases q) auto
  note e = path_first [OF Cons.prems(1,2)] and f = path_first [OF Cons.prems(1) Cons.prems(3) [unfolded q]]
  have static: "static_ok (n_static t)" using Cons.prems(1) by (simp add: node_ok_parts [of t])
  have "e = f"
    using e f Cons.prems(4) static_child_unique [OF static] unfolding q
    by (auto simp: Cons_eq_append_conv append_eq_Cons_conv neq_Nil_conv)
  with e f Cons.prems(4) q Cons.IH show ?case by auto
qed

lemma path_entry:
  "node_at t p = Some n \<Longrightarrow> n_route n = Some r \<Longrightarrow> (path_tokens t p, r) \<in> set (entries t)"
proof (induction t p rule: node_at.induct)
  case (1 t)
  then show ?case by (cases n) simp
next
  case (2 t i p)
  then have i: "i < length (n_static t)" and "(path_tokens (n_static t ! i) p, r) \<in> set (entries (n_static t ! i))"
    by (simp_all split: if_splits)
  then have "(path_tokens t (StaticEdge i # p), r) \<in> set (static_entries (n_static t))"
    by simp (metis (mono_tags, lifting) case_prod_conv image_eqI nth_mem)
  then show ?case by (subst entries_parts) simp
next
  case (3 t p)
  then show ?case by (auto simp: entries_parts [of t] split: option.splits)
next
  case (4 t p)
  then show ?case by (auto simp: entries_parts [of t] split: option.splits)
qed

lemma entry_path:
  "(ts, r) \<in> set (entries t) \<Longrightarrow>
   \<exists>p n. node_at t p = Some n \<and> path_tokens t p = ts \<and> n_route n = Some r"
proof (induction t arbitrary: ts rule: entries.induct)
  case (1 ty pre ss pm ca rt)
  let ?t = "Node ty pre ss pm ca rt"
  from "1.prems" consider (own) "ts = []" "rt = Some r"
    | (static) i us where "i < length ss" "(us, r) \<in> set (entries (ss ! i))"
        "ts = map Lit (n_prefix (ss ! i)) @ us"
    | (param) c us where "pm = Some c" "(us, r) \<in> set (entries c)" "ts = Param # us"
    | (catch) c us where "ca = Some c" "(us, r) \<in> set (entries c)" "ts = CatchAll # us"
    by (fastforce simp: in_set_conv_nth split: option.splits)
  then show ?case
  proof cases
    case own
    then have "node_at ?t [] = Some ?t \<and> path_tokens ?t [] = ts \<and> n_route ?t = Some r" by simp
    then show ?thesis by blast
  next
    case static
    with "1.IH"(1) [of "ss ! i" us] obtain p n where
      "node_at (ss ! i) p = Some n" "path_tokens (ss ! i) p = us" "n_route n = Some r" by auto
    with static have "node_at ?t (StaticEdge i # p) = Some n \<and> path_tokens ?t (StaticEdge i # p) = ts"
      by simp
    with \<open>n_route n = Some r\<close> show ?thesis by blast
  next
    case param
    with "1.IH"(2) [of c us] obtain p n where
      "node_at c p = Some n" "path_tokens c p = us" "n_route n = Some r" by auto
    with param have "node_at ?t (ParameterEdge # p) = Some n \<and> path_tokens ?t (ParameterEdge # p) = ts"
      by simp
    with \<open>n_route n = Some r\<close> show ?thesis by blast
  next
    case catch
    with "1.IH"(3) [of c us] obtain p n where
      "node_at c p = Some n" "path_tokens c p = us" "n_route n = Some r" by auto
    with catch have "node_at ?t (CatchAllEdge # p) = Some n \<and> path_tokens ?t (CatchAllEdge # p) = ts"
      by simp
    with \<open>n_route n = Some r\<close> show ?thesis by blast
  qed
qed

text \<open>So the entries form a map from token lists to routes.\<close>

lemma entries_functional:
  assumes "node_ok t" "(ts, r) \<in> set (entries t)" "(ts, r') \<in> set (entries t)"
  shows "r = r'"
  using assms entry_path [of ts r t] entry_path [of ts r' t] path_tokens_inj [of t]
  by (metis option.inject)

section \<open>A path that exists is not changed\<close>

lemma literal_prefix:
  "map Lit pre @ vs = map Lit tx @ us \<Longrightarrow> (\<forall>c ws. us \<noteq> Lit c # ws) \<Longrightarrow>
   prefix pre tx \<and> vs = map Lit (drop (length pre) tx) @ us"
proof (induction pre arbitrary: tx)
  case Nil
  then show ?case by simp
next
  case (Cons c pre)
  then show ?case by (cases tx) auto
qed

lemma common_prefix_of_prefix: "prefix a b \<Longrightarrow> common_prefix a b = length a"
  unfolding common_prefix_lcp
  by (induction a b rule: longest_common_prefix.induct) auto

lemma insert_static_existing:
  fixes n :: "'h node" and cs :: "'h node list"
  shows "node_ok n \<Longrightarrow> node_at n q = Some m \<Longrightarrow> path_tokens n q = map Lit tx @ us \<Longrightarrow>
      (\<forall>c vs. us \<noteq> Lit c # vs) \<Longrightarrow> fst (insert_static n tx) = n"
    and "static_ok cs \<Longrightarrow> tx2 \<noteq> [] \<Longrightarrow> j < length cs \<Longrightarrow> node_at (cs ! j) q = Some m \<Longrightarrow>
      map Lit (n_prefix (cs ! j)) @ path_tokens (cs ! j) q = map Lit tx2 @ us \<Longrightarrow>
      (\<forall>c vs. us \<noteq> Lit c # vs) \<Longrightarrow> fst (insert_children cs tx2) = cs"
proof (induction n tx and cs tx2 arbitrary: q and j q rule: insert_static_insert_children.induct)
  case (1 n tx)
  show ?case
  proof (cases "tx = []")
    case True
    then show ?thesis by (simp add: insert_static.simps)
  next
    case False
    then obtain x xs where tx: "tx = x # xs" by (cases tx) auto
    with "1.prems"(3) obtain e q' where q: "q = e # q'" by (cases q) auto
    from path_first [OF "1.prems"(1) "1.prems"(2) [unfolded q]] "1.prems"(3) obtain i where
      i: "e = StaticEdge i" "i < length (n_static n)" "node_at (n_static n ! i) q' = Some m"
      by (auto simp: q tx)
    have "fst (insert_children (n_static n) tx) = n_static n"
      using "1.IH" [OF False, of i q'] "1.prems" i False q by (auto simp: node_ok_parts [of n])
    then show ?thesis using False
      by (cases n) (auto simp: insert_static.simps split: prod.splits)
  qed
next
  case (2 tx)
  then show ?case by simp
next
  case (3 child cs tx)
  from literal_prefix [OF "3.prems"(5,6)]
  have pre: "prefix (n_prefix ((child # cs) ! j)) tx"
    "path_tokens ((child # cs) ! j) q = map Lit (drop (length (n_prefix ((child # cs) ! j))) tx) @ us"
    by simp_all
  have "n_prefix ((child # cs) ! j) \<noteq> []"
    using "3.prems"(1,3) by (simp add: static_ok_def del: nth_Cons_Suc list.set)
  with pre(1) have hd: "head ((child # cs) ! j) = hd tx" by (auto simp: prefix_def)
  show ?case
  proof (cases "head child = hd tx")
    case True
    have "j = 0"
    proof (cases j)
      case (Suc i)
      with "3.prems"(3) have "cs ! i \<in> set cs" by simp
      with Suc "3.prems"(1) hd True show ?thesis by (auto simp: static_ok_Cons)
    qed simp
    with pre have p: "prefix (n_prefix child) tx"
      "path_tokens child q = map Lit (drop (length (n_prefix child)) tx) @ us" by simp_all
    from p(1) have k: "common_prefix (n_prefix child) tx = length (n_prefix child)"
      by (rule common_prefix_of_prefix)
    have go: "\<not> (tx = [] \<or> n_prefix child = [] \<or> n_type child \<noteq> NStatic \<or> head child \<noteq> hd tx)"
      using True "3.prems"(1,2) by (simp add: static_ok_Cons)
    have "fst (insert_static child (drop (length (n_prefix child)) tx)) = child"
      using "3.IH"(2) [OF go refl refl, of q] "3.prems" p k \<open>j = 0\<close> by (simp add: static_ok_Cons)
    with go k show ?thesis by (auto split: prod.splits)
  next
    case False
    with hd obtain i where j: "j = Suc i" by (cases j) auto
    have "fst (insert_children cs tx) = cs"
      using "3.IH"(1) [of i q] "3.prems" False j by (auto simp: static_ok_Cons)
    with False show ?thesis by (auto split: prod.splits)
  qed
qed

lemma node_at_wf: "node_wf t \<Longrightarrow> node_at t p = Some n \<Longrightarrow> node_wf n"
proof (induction t p rule: node_at.induct)
  case (2 t i p)
  then show ?case
    using node_wf_children(1) [of t "n_static t ! i"] by (auto simp: node_wf_def [of t] split: if_splits)
next
  case (3 t p)
  then show ?case
    using node_wf_children(2) [of t] by (auto simp: node_wf_def [of t] split: option.splits)
next
  case (4 t p)
  then show ?case
    using node_wf_children(3) [of t] by (auto simp: node_wf_def [of t] split: option.splits)
qed simp

lemma put_at_same: "node_at t p = Some n \<Longrightarrow> put_at t p n = t"
proof (induction t p rule: node_at.induct)
  case (2 t i p)
  then show ?case by (cases t) (auto split: if_splits)
next
  case (3 t p)
  then show ?case by (cases t) (auto split: option.splits)
next
  case (4 t p)
  then show ?case by (cases t) (auto split: option.splits)
qed simp

lemma node_at_Cons: "node_at t (e # p) = (case node_at t [e] of None \<Rightarrow> None | Some m \<Rightarrow> node_at m p)"
  by (cases e) (auto split: option.splits)

lemma put_at_Cons: "node_at t [e] = Some m \<Longrightarrow> put_at t (e # p) n = put_at t [e] (put_at m p n)"
  by (cases e) (auto split: option.splits if_splits)

lemma node_at_append:
  "node_at t p = Some n \<Longrightarrow> node_at t (p @ q) = node_at n q \<and> path_tokens t (p @ q) = path_tokens t p @ path_tokens n q"
  by (induction t p rule: node_at.induct) (auto split: if_splits option.splits)

lemma put_at_prefix: "node_at t p = Some n \<Longrightarrow> n_prefix n' = n_prefix n \<Longrightarrow> n_prefix (put_at t p n') = n_prefix t"
  by (induction t p rule: node_at.induct) (auto split: if_splits option.splits)

text \<open>A path whose tokens extend those of another path goes through its node.\<close>

lemma path_tokens_extend:
  "node_ok t \<Longrightarrow> node_at t p = Some n \<Longrightarrow> node_at t q = Some m \<Longrightarrow>
   path_tokens t q = path_tokens t p @ us \<Longrightarrow>
   \<exists>q'. q = p @ q' \<and> node_at n q' = Some m \<and> path_tokens n q' = us"
proof (induction p arbitrary: t q)
  case Nil
  then show ?case by simp
next
  case (Cons e p)
  then have "q \<noteq> []" using path_tokens_Nil [of t "e # p" n] by auto
  then obtain f q' where q: "q = f # q'" by (cases q) auto
  note e = path_first [OF Cons.prems(1,2)] and f = path_first [OF Cons.prems(1) Cons.prems(3) [unfolded q]]
  have static: "static_ok (n_static t)" using Cons.prems(1) by (simp add: node_ok_parts [of t])
  have "e = f"
    using e f Cons.prems(4) static_child_unique [OF static] unfolding q
    by (auto simp: Cons_eq_append_conv append_eq_Cons_conv neq_Nil_conv)
  with e f Cons.prems(4) q Cons.IH show ?case by auto
qed

definition reaches :: "'h node \<Rightarrow> tok list \<Rightarrow> bool" where
  "reaches t ts \<longleftrightarrow> (\<exists>q m. node_at t q = Some m \<and> path_tokens t q = ts)"

text \<open>
  What one step of the insertion loop does: the tree keeps its shape conditions and its
  contents, the pointer moves along the given tokens, and a path that is already there is
  left alone, for every continuation of the path that satisfies \<open>P\<close>.
\<close>

definition moved ::
  "(tok list \<Rightarrow> bool) \<Rightarrow> 'h node \<Rightarrow> node_ptr \<Rightarrow> tok list \<Rightarrow> 'h node \<Rightarrow> node_ptr \<Rightarrow> bool" where
  "moved P root current ts root' current' \<longleftrightarrow>
     node_wf root' \<and> keeps root root' \<and> set (entries root') = set (entries root)
     \<and> path_tokens root' current' = path_tokens root current @ ts
     \<and> (\<forall>us. P us \<longrightarrow> reaches root (path_tokens root current @ ts @ us) \<longrightarrow> root' = root)"

abbreviation not_literal :: "tok list \<Rightarrow> bool" where
  "not_literal us \<equiv> \<forall>c vs. us \<noteq> Lit c # vs"

lemma static_at_moved:
  assumes wf: "node_wf root" and cur: "node_at root current = Some n" "n_type n \<noteq> NCatchAll"
    and tx: "plain tx" and eq: "static_at root current tx = (root', current')"
  shows "moved not_literal root current (map Lit tx) root' current'
    \<and> (\<exists>m. node_at root' current' = Some m \<and> (if tx = [] then n_type m = n_type n else n_type m = NStatic))"
proof -
  obtain n' p where ins: "insert_static n tx = (n', p)" by fastforce
  with eq cur have r': "root' = put_at root current n'" "current' = current @ p"
    by (simp_all add: static_at_def)
  have n: "node_ok n" using node_at_wf [OF wf cur(1)] by (simp add: node_wf_def)
  from insert_static_correct(1) [OF n tx ins] have i: "inserted n tx n' p" .
  then have "keeps n n'" "node_ok n'" "set (entries n') = set (entries n) \<union> {}"
    using cur(2) by (auto simp: inserted_def keeps_def)
  note put = put_at_correct [OF wf cur(1) this, of p]
  have "root' = root" if "reaches root (path_tokens root current @ map Lit tx @ us)"
    "\<forall>c vs. us \<noteq> Lit c # vs" for us
  proof -
    from that(1) obtain q m where "node_at root q = Some m"
      "path_tokens root q = path_tokens root current @ map Lit tx @ us" by (auto simp: reaches_def)
    moreover have "node_ok root" using wf by (simp add: node_wf_def)
    ultimately obtain q' where "node_at n q' = Some m" "path_tokens n q' = map Lit tx @ us"
      using path_tokens_extend cur(1) by blast
    with insert_static_existing(1) [OF n _ _ that(2)] ins have "n' = n" by (metis fst_conv)
    with r' cur(1) show ?thesis by (simp add: put_at_same)
  qed
  with put i r' keeps_wf [OF _ wf] show ?thesis
    by (auto simp: moved_def inserted_def)
qed

lemma special_at_moved:
  assumes wf: "node_wf root" and cur: "node_at root current = Some n" "n_type n = NStatic"
    and ty: "ty \<noteq> NStatic" and eq: "special_at root current ty = (root', res)"
  shows "\<exists>current'. res = Inr current'
    \<and> moved (\<lambda>_. True) root current [if ty = NParameter then Param else CatchAll] root' current'
    \<and> (\<exists>m. node_at root' current' = Some m \<and> n_type m = ty)"
proof -
  let ?e = "if ty = NParameter then ParameterEdge else CatchAllEdge"
  let ?t = "if ty = NParameter then Param else CatchAll"
  define n' where "n' = fst (insert_special n ty)"
  have ins: "insert_special n ty = (n', Inr [?e])"
    using cur(2) ty by (cases ty) (auto simp: insert_special_def n'_def split: option.splits)
  with eq cur have r': "root' = put_at root current n'" "res = Inr (current @ [?e])"
    by (auto simp: special_at_def)
  have n: "node_ok n" using node_at_wf [OF wf cur(1)] by (simp add: node_wf_def)
  from ins cur(2) ty have n': "keeps n n'" "n_static n' = n_static n" "n_route n' = n_route n"
    "if ty = NParameter then n_catch_all n' = n_catch_all n
        \<and> n_parameter n' = Some (case n_parameter n of None \<Rightarrow> make_node NParameter [] | Some c \<Rightarrow> c)
     else n_parameter n' = n_parameter n
        \<and> n_catch_all n' = Some (case n_catch_all n of None \<Rightarrow> make_node NCatchAll [] | Some c \<Rightarrow> c)"
    by (auto simp: insert_special_def keeps_def split: option.splits if_splits)
  from n' n have ok: "node_ok n'"
    by (auto simp: node_ok_parts [of n] node_ok_parts [of n'] parameter_ok_def catch_all_ok_def
        split: if_splits option.splits)
  have same: "set (entries n') = set (entries n) \<union> {}"
    using n' by (auto simp: entries_parts [of n] entries_parts [of n'] split: if_splits option.splits)
  have at: "\<exists>m. node_at n' [?e] = Some m \<and> n_type m = ty" "path_tokens n' [?e] = [?t]"
    using n' n ty by (cases ty; auto simp: node_ok_parts [of n] parameter_ok_def catch_all_ok_def
        split: option.splits)+
  note put = put_at_correct [OF wf cur(1) n'(1) ok same, of "[?e]"]
  have "root' = root" if reach: "reaches root (path_tokens root current @ [?t] @ us)" for us
  proof -
    from reach obtain q m where "node_at root q = Some m"
      "path_tokens root q = path_tokens root current @ [?t] @ us" by (auto simp: reaches_def)
    moreover have "node_ok root" using wf by (simp add: node_wf_def)
    ultimately obtain q' where q': "node_at n q' = Some m" "path_tokens n q' = [?t] @ us"
      using path_tokens_extend cur(1) by blast
    then obtain e q'' where "q' = e # q''" by (cases q') auto
    with path_first [OF n, of e q'' m] q' have "n_parameter n \<noteq> None \<or> ty \<noteq> NParameter"
      "n_catch_all n \<noteq> None \<or> ty = NParameter"
      by (auto simp: neq_Nil_conv split: if_splits)
    with ins cur(2) ty have "n' = n"
      by (auto simp: insert_special_def split: option.splits if_splits)
    with r' cur(1) show ?thesis by (simp add: put_at_same)
  qed
  with put at r' keeps_wf [OF _ wf] show ?thesis
    by (auto simp: moved_def)
qed

lemma keeps_trans: "keeps a b \<Longrightarrow> keeps b c \<Longrightarrow> keeps a c"
  by (auto simp: keeps_def)

lemma moved_trans:
  assumes "moved P r0 c0 ts r1 c1" "moved Q r1 c1 ts' r2 c2" "\<And>us. Q us \<Longrightarrow> P (ts' @ us)"
  shows "moved Q r0 c0 (ts @ ts') r2 c2"
proof -
  have "r2 = r0" if "Q us" "reaches r0 (path_tokens r0 c0 @ (ts @ ts') @ us)" for us
  proof -
    from assms(1) have "\<And>us. P us \<Longrightarrow> reaches r0 (path_tokens r0 c0 @ ts @ us) \<Longrightarrow> r1 = r0"
      by (simp add: moved_def)
    from this [of "ts' @ us"] assms(3) that have "r1 = r0" by simp
    with assms(1,2) that show ?thesis by (simp add: moved_def)
  qed
  with assms(1,2) keeps_trans show ?thesis by (auto simp: moved_def)
qed

section \<open>The loop over the pattern\<close>

lemma plain_conv: "plain s \<longleftrightarrow> (\<forall>c\<in>set s. c \<notin> set '':*'')"
  by (auto simp: plain_def)

lemma tokens_plain_append:
  "plain s \<Longrightarrow> tokens (s @ t) = map Lit s @ tokens t \<and> token_names (s @ t) = token_names t"
  by (induction s) (auto simp: plain_def)

lemma first_special:
  "sv_find_first_of '':*'' rest 0 = None \<Longrightarrow> plain rest"
  "sv_find_first_of '':*'' rest 0 = Some k \<Longrightarrow> plain (take k rest)"
  using find_index_SomeD(3) [of "\<lambda>x. x \<in> set '':*''" rest k]
  by (auto simp: sv_find_first_of_def sv_simps plain_def dest: set_takeWhileD)

lemma special_front:
  assumes "s \<noteq> []" "hd s \<in> set '':*''"
  shows "tokens s = (if hd s = CHR ''*'' then CatchAll else Param) # tokens (drop (token_end s) s)"
    and "token_names s = sv_substr s 1 (token_end s - 1) # token_names (drop (token_end s) s)"
    and "drop (token_end s) s = [] \<or> hd (drop (token_end s) s) = CHR ''/'' \<and> hd s \<noteq> CHR ''*''"
proof -
  from assms obtain c xs where s: "s = c # xs" "c \<in> set '':*''" by (cases s) auto
  have "tokens s = (if hd s = CHR ''*'' then CatchAll else Param) # tokens (drop (token_end s) s)
    \<and> token_names s = sv_substr s 1 (token_end s - 1) # token_names (drop (token_end s) s)
    \<and> (drop (token_end s) s = [] \<or> hd (drop (token_end s) s) = CHR ''/'' \<and> hd s \<noteq> CHR ''*'')"
  proof (cases "c = CHR ''*''")
    case True
    then show ?thesis by (simp add: s token_end_def sv_substr_def)
  next
    case False
    with s have c: "c = CHR '':''" by simp
    then have te: "token_end s = segment_end s 0"
      by (simp add: s token_end_def segment_end_def split: option.splits)
    have d: "drop (token_end s) s = from_slash xs"
      unfolding te using segment_end_drop(1) [of 0 s] c by (simp add: s)
    have "sv_substr s 0 (token_end s) = c # upto_slash xs"
      unfolding te using segment_end_drop(2) [of 0 s] c by (simp add: s)
    moreover have "0 < token_end s" using assms by (rule token_end_pos)
    ultimately have n: "sv_substr s 1 (token_end s - 1) = upto_slash xs"
      by (simp add: s sv_substr_def take_Cons split: nat.splits)
    have "from_slash xs = [] \<or> hd (from_slash xs) = CHR ''/''"
      using hd_dropWhile [of "\<lambda>c. c \<noteq> CHR ''/''" xs] by blast
    then show ?thesis unfolding d n using c by (simp add: s)
  qed
  then show "tokens s = (if hd s = CHR ''*'' then CatchAll else Param) # tokens (drop (token_end s) s)"
    and "token_names s = sv_substr s 1 (token_end s - 1) # token_names (drop (token_end s) s)"
    and "drop (token_end s) s = [] \<or> hd (drop (token_end s) s) = CHR ''/'' \<and> hd s \<noteq> CHR ''*''"
    by blast+
qed

text \<open>Where the loop may stand: a special token never follows a special node directly.\<close>

definition ready :: "'h node \<Rightarrow> string \<Rightarrow> bool" where
  "ready n rest \<longleftrightarrow>
     rest = [] \<or> n_type n \<noteq> NCatchAll \<and> (n_type n = NStatic \<or> hd rest \<notin> set '':*'')"

lemma insert_literal_moved:
  assumes wf: "node_wf root" and cur: "node_at root current = Some n" and rd: "ready n rest"
    and first: "sv_find_first_of '':*'' rest 0 = Some k"
    and eq: "insert_literal root current rest k = (root1, current1, rest1)"
  shows "rest1 = drop k rest \<and> moved not_literal root current (map Lit (take k rest)) root1 current1
    \<and> (\<exists>m. node_at root1 current1 = Some m \<and> n_type m = NStatic)"
proof (cases "k = 0")
  case True
  then have "hd rest \<in> set '':*''" "rest \<noteq> []" using first_of_drop [OF first] by auto
  with rd have "n_type n = NStatic" by (auto simp: ready_def)
  with True eq cur wf show ?thesis by (simp add: insert_literal_def moved_def keeps_def)
next
  case False
  then obtain st: "static_at root current (take k rest) = (root1, current1)" and "rest1 = drop k rest"
    using eq by (auto simp: insert_literal_def sv_substr_def split: prod.splits)
  have "rest \<noteq> []" using first_of_drop [OF first] by auto
  with rd False have "n_type n \<noteq> NCatchAll" "take k rest \<noteq> []" by (auto simp: ready_def)
  with static_at_moved [OF wf cur _ first_special(2) [OF first] st] \<open>rest1 = _\<close> show ?thesis
    by auto
qed

lemma insert_token_moved:
  assumes wf: "node_wf root" and cur: "node_at root current = Some n" and rd: "ready n rest"
    and first: "sv_find_first_of '':*'' rest 0 = Some k"
    and eq: "insert_token root current names rest k = (root2, res)"
  shows "\<exists>current2 ts us rest2. res = Inr (current2, names @ us, rest2)
    \<and> tokens rest = ts @ tokens rest2 \<and> token_names rest = us @ token_names rest2
    \<and> moved (\<lambda>_. True) root current ts root2 current2
    \<and> (\<exists>m. node_at root2 current2 = Some m \<and> ready m rest2)"
proof -
  obtain root1 current1 rest1 where lit: "insert_literal root current rest k = (root1, current1, rest1)"
    by (metis prod_cases3)
  from insert_literal_moved [OF wf cur rd first lit] obtain m1 where
    r1: "rest1 = drop k rest" and mv1: "moved not_literal root current (map Lit (take k rest)) root1 current1"
    and m1: "node_at root1 current1 = Some m1" "n_type m1 = NStatic" by blast
  have wf1: "node_wf root1" using mv1 by (simp add: moved_def)
  have front: "rest1 \<noteq> []" "hd rest1 \<in> set '':*''"
    using first_of_drop [OF first] r1 by auto
  let ?ty = "if hd rest1 = CHR ''*'' then NCatchAll else NParameter"
  let ?tok = "if hd rest1 = CHR ''*'' then CatchAll else Param"
  let ?rest2 = "drop (token_end rest1) rest1" and ?us = "[sv_substr rest1 1 (token_end rest1 - 1)]"
  obtain r2 res2 where sp: "special_at root1 current1 ?ty = (r2, res2)" by fastforce
  have ty: "?ty \<noteq> NStatic" by simp
  from special_at_moved [OF wf1 m1 ty sp] obtain current2 m2 where
    res2: "res2 = Inr current2" and mv2: "moved (\<lambda>_. True) root1 current1 [?tok] r2 current2"
    and m2: "node_at r2 current2 = Some m2" "n_type m2 = ?ty"
    by (auto split: if_splits)
  have res: "root2 = r2" "res = Inr (current2, names @ ?us, ?rest2)"
    using eq lit sp res2 by (auto simp: insert_token_def Let_def split: if_splits)
  have "moved (\<lambda>_. True) root current (map Lit (take k rest) @ [?tok]) r2 current2"
    by (rule moved_trans [OF mv1 mv2]) simp
  moreover have "tokens rest = (map Lit (take k rest) @ [?tok]) @ tokens ?rest2
      \<and> token_names rest = ?us @ token_names ?rest2"
    using tokens_plain_append [OF first_special(2) [OF first], of rest1] special_front(1,2) [OF front] r1
    by simp
  moreover have "ready m2 ?rest2"
    using special_front(3) [OF front] m2(2) by (auto simp: ready_def)
  ultimately show ?thesis using res m2(1) by blast
qed

theorem insert_loop_correct:
  "node_wf root \<Longrightarrow> node_at root current = Some n \<Longrightarrow> ready n rest \<Longrightarrow>
   insert_loop root current names rest = (root', res) \<Longrightarrow>
   \<exists>current'. res = Inr (current', names @ token_names rest)
     \<and> moved (\<lambda>us. us = []) root current (tokens rest) root' current'
     \<and> (\<exists>m. node_at root' current' = Some m)"
proof (induction root current names rest arbitrary: n rule: insert_loop.induct)
  case (1 root current names rest)
  show ?case
  proof (cases "rest = []")
    case True
    with "1.prems" show ?thesis by (auto simp: insert_loop.simps moved_def keeps_def)
  next
    case False
    show ?thesis
    proof (cases "sv_find_first_of '':*'' rest 0")
      case None
      then have "plain rest" by (rule first_special(1))
      moreover have "n_type n \<noteq> NCatchAll" using False "1.prems"(3) by (simp add: ready_def)
      moreover obtain r c where st: "static_at root current rest = (r, c)" by fastforce
      ultimately have "moved not_literal root current (map Lit rest) r c"
        "\<exists>m. node_at r c = Some m"
        using static_at_moved [OF "1.prems"(1,2)] by blast+
      with tokens_plain_append [OF \<open>plain rest\<close>, of "[]"] st "1.prems"(4) False None show ?thesis
        by (auto simp: insert_loop.simps [of root] moved_def)
    next
      case (Some k)
      obtain root2 res2 where tk: "insert_token root current names rest k = (root2, res2)" by fastforce
      from insert_token_moved [OF "1.prems"(1-3) Some tk] obtain current2 ts us rest2 m where
        r2: "res2 = Inr (current2, names @ us, rest2)" "tokens rest = ts @ tokens rest2"
        "token_names rest = us @ token_names rest2"
        and mv: "moved (\<lambda>_. True) root current ts root2 current2"
        and m: "node_at root2 current2 = Some m" "ready m rest2" by blast
      have "insert_loop root2 current2 (names @ us) rest2 = (root', res)"
        using "1.prems"(4) False Some tk r2(1) by (simp add: insert_loop.simps [of root])
      then obtain current' where "res = Inr (current', (names @ us) @ token_names rest2)"
        "moved (\<lambda>us. us = []) root2 current2 (tokens rest2) root' current'"
        "\<exists>m. node_at root' current' = Some m"
        using "1.IH" [OF False Some tk [symmetric] r2(1) refl refl _ m] mv by (auto simp: moved_def)
      with moved_trans [OF mv] r2 show ?thesis by auto
    qed
  qed
qed

end
