(* ===== verification/Router_Validation.thy ===== *)
theory Router_Validation
  imports Router_Spec
begin

text \<open>
  What \<^verbatim>\<open>validate_pattern\<close> accepts: the patterns that start with a slash and whose
  segments are literal text, or a marker with a non-empty name, a catch-all only at the end.
\<close>

function split_slash :: "string \<Rightarrow> string list" where
  "split_slash s = (if from_slash s = [] then [s] else upto_slash s # split_slash (tl (from_slash s)))"
  by pat_completeness auto
termination
proof (relation "measure length", goal_cases)
  case 1
  show ?case by simp
next
  case (2 s)
  then have "length (tl (from_slash s)) < length (from_slash s)" by simp
  also have "\<dots> \<le> length s" by (rule length_dropWhile_le)
  finally show ?case by simp
qed

declare split_slash.simps [simp del]

lemma split_slash_last: "from_slash s = [] \<Longrightarrow> split_slash s = [s]"
  by (subst split_slash.simps) (simp only: if_True simp_thms)

lemma split_slash_more:
  "from_slash s \<noteq> [] \<Longrightarrow> split_slash s = upto_slash s # split_slash (tl (from_slash s))"
  by (subst split_slash.simps) (simp only: if_False)

definition segment_ok :: "bool \<Rightarrow> string \<Rightarrow> bool" where
  "segment_ok final seg \<longleftrightarrow>
     plain seg \<or> seg \<noteq> [] \<and> hd seg \<in> set '':*'' \<and> tl seg \<noteq> [] \<and> plain (tl seg)
       \<and> (hd seg = CHR ''*'' \<longrightarrow> final)"

fun segments_ok :: "string list \<Rightarrow> bool" where
  "segments_ok [] = True"
| "segments_ok (seg # segs) = (segment_ok (segs = []) seg \<and> segments_ok segs)"

definition well_formed :: "string \<Rightarrow> bool" where
  "well_formed pattern \<longleftrightarrow>
     pattern \<noteq> [] \<and> hd pattern = CHR ''/'' \<and> segments_ok (split_slash (tl pattern))"

section \<open>Splitting at slashes\<close>

lemma split_slash_nonempty [simp]: "split_slash s \<noteq> []"
  by (simp add: split_slash.simps)

lemma split_slash_Cons:
  "split_slash (c # s) =
     (if c = CHR ''/'' then [] # split_slash s else (c # hd (split_slash s)) # tl (split_slash s))"
  by (subst (1) split_slash.simps) (auto simp: split_slash.simps [of s])

lemma split_slash_append:
  "split_slash (u @ CHR ''/'' # v) = split_slash u @ split_slash v"
  by (induction u) (auto simp: split_slash_Cons split_slash.simps [of "[]"])

lemma split_slash_plain: "plain s \<Longrightarrow> seg \<in> set (split_slash s) \<Longrightarrow> plain seg"
proof (induction s arbitrary: seg)
  case Nil
  then show ?case by (simp add: split_slash.simps)
next
  case (Cons c s)
  from Cons.prems(1) have "plain s" "c \<notin> set '':*''" by (auto simp: plain_def)
  obtain y ys where sp: "split_slash s = y # ys" by (cases "split_slash s") auto
  with Cons.IH [OF \<open>plain s\<close>] have "plain y" "\<forall>x\<in>set ys. plain x" by auto
  with Cons.prems(2) sp \<open>c \<notin> set '':*''\<close> show ?case
    by (auto simp: split_slash_Cons plain_def split: if_splits)
qed

lemma segments_ok_plain: "(\<And>seg. seg \<in> set segs \<Longrightarrow> plain seg) \<Longrightarrow> segments_ok segs"
  by (induction segs) (auto simp: segment_ok_def)

lemma segments_ok_append:
  "(\<And>seg. seg \<in> set us \<Longrightarrow> plain seg) \<Longrightarrow> segments_ok (us @ vs) = segments_ok vs"
  by (induction us) (auto simp: segment_ok_def)

lemma split_slash_marker:
  assumes "plain u" "u = [] \<or> last u = CHR ''/''"
  shows "segments_ok (split_slash (u @ v)) = segments_ok (split_slash v)"
proof (cases u rule: rev_cases)
  case (snoc w c)
  with assms have "c = CHR ''/''" "plain w" by (auto simp: plain_def)
  with snoc show ?thesis
    by (simp add: split_slash_append segments_ok_append split_slash_plain)
qed simp

text \<open>A marker inside a segment spoils it.\<close>

lemma split_slash_bad_marker:
  assumes "plain u" "u \<noteq> []" "last u \<noteq> CHR ''/''" "v \<noteq> []" "hd v \<in> set '':*''"
  shows "\<not> segments_ok (split_slash (u @ v))"
  using assms
proof (induction u)
  case Nil
  then show ?case by simp
next
  case (Cons c u)
  obtain m w where v: "v = m # w" "m \<in> set '':*''" using Cons.prems by (cases v) auto
  then have m: "m \<noteq> CHR ''/''" by auto
  have c: "c \<notin> set '':*''" "plain u" using Cons.prems(1) by (auto simp: plain_def)
  show ?case
  proof (cases "u = []")
    case True
    with Cons.prems have "c \<noteq> CHR ''/''" by simp
    then have "split_slash ((c # u) @ v) = (c # m # hd (split_slash w)) # tl (split_slash w)"
      using True v m by (simp add: split_slash_Cons)
    then show ?thesis using v c by (auto simp: segment_ok_def plain_def)
  next
    case False
    with Cons c have IH: "\<not> segments_ok (split_slash (u @ v))" by simp
    show ?thesis
    proof (cases "c = CHR ''/''")
      case True
      with IH show ?thesis by (simp add: split_slash_Cons)
    next
      case nc: False
      obtain s ss where sp: "split_slash (u @ v) = s # ss" by (cases "split_slash (u @ v)") auto
      have "segment_ok f (c # s) \<Longrightarrow> segment_ok f s" for f
        using c(1) by (auto simp: segment_ok_def plain_def)
      then show ?thesis
        using nc sp IH by (auto simp: split_slash_Cons)
    qed
  qed
qed

section \<open>The validator accepts exactly the well-formed patterns\<close>

lemma first_special_cases:
  "sv_find_first_of '':*'' s pos = None \<Longrightarrow> plain (drop pos s)"
  "sv_find_first_of '':*'' s pos = Some k \<Longrightarrow>
     \<exists>j. k = pos + j \<and> plain (take j (drop pos s)) \<and> drop k s \<noteq> [] \<and> hd (drop k s) \<in> set '':*''"
proof -
  show "plain (drop pos s)" if "sv_find_first_of '':*'' s pos = None"
    using that by (auto simp: sv_find_first_of_def sv_simps plain_def)
  show "\<exists>j. k = pos + j \<and> plain (take j (drop pos s)) \<and> drop k s \<noteq> [] \<and> hd (drop k s) \<in> set '':*''"
    if first: "sv_find_first_of '':*'' s pos = Some k"
  proof -
    from first obtain j where "k = pos + j" "find_index (\<lambda>x. x \<in> set '':*'') (drop pos s) = Some j"
      by (auto simp: sv_find_first_of_def)
    with find_index_SomeD(3) [OF this(2)] sv_find_first_of_SomeD [OF first] show ?thesis
      by (auto simp: plain_def hd_drop_conv_nth dest: set_takeWhileD)
  qed
qed

lemma split_slash_marker_segment:
  assumes "v \<noteq> []" "hd v \<in> set '':*''"
  shows "segments_ok (split_slash v) \<longleftrightarrow>
    upto_slash (tl v) \<noteq> [] \<and> plain (upto_slash (tl v))
    \<and> (hd v = CHR ''*'' \<longrightarrow> from_slash (tl v) = [])
    \<and> (from_slash (tl v) = [] \<or> segments_ok (split_slash (tl (from_slash (tl v)))))"
proof -
  obtain m w where v: "v = m # w" "m \<in> set '':*''" using assms by (cases v) auto
  then have m: "m \<noteq> CHR ''/''" by auto
  have sok: "segment_ok f (m # x) \<longleftrightarrow> x \<noteq> [] \<and> plain x \<and> (m = CHR ''*'' \<longrightarrow> f)" for f x
    using v(2) by (auto simp: segment_ok_def plain_def)
  have vw: "from_slash v = from_slash w" "upto_slash v = m # upto_slash w"
    unfolding v(1) using m by simp_all
  show ?thesis
  proof (cases "from_slash w = []")
    case True
    then have all: "upto_slash w = w" by simp
    have sp: "split_slash v = [m # w]" using split_slash_last [of v] True vw(1) v(1) by simp
    show ?thesis
      unfolding sp segments_ok.simps sok unfolding v list.sel True all by simp
  next
    case False
    have sp: "split_slash v = (m # upto_slash w) # split_slash (tl (from_slash w))"
      using split_slash_more [of v] False unfolding vw by blast
    have ne: "split_slash (tl (from_slash w)) \<noteq> []" by simp
    show ?thesis
      unfolding sp segments_ok.simps sok unfolding v list.sel using False ne by blast
  qed
qed

text \<open>What the loop sees at its next marker: plain text up to it, and the name behind it.\<close>

lemma next_marker:
  assumes found: "sv_find_first_of '':*'' pattern pos = Some k"
    and slash: "drop pos pattern = [] \<or> hd (drop pos pattern) = CHR ''/''"
  obtains u m w where "drop pos pattern = CHR ''/'' # u @ m # w" "plain u" "m \<in> set '':*''"
    "drop k pattern = m # w" "k \<noteq> 0" "pattern ! (k - 1) = last (CHR ''/'' # u)"
proof -
  from first_special_cases(2) [OF found] obtain j where
    j: "k = pos + j" "plain (take j (drop pos pattern))"
    and v: "drop k pattern \<noteq> []" "hd (drop k pattern) \<in> set '':*''" by blast
  let ?s = "drop pos pattern"
  have s: "?s \<noteq> []" "hd ?s = CHR ''/''" using v(1) j(1) slash by auto
  have "j \<noteq> 0" using v(2) s(2) j(1) by (intro notI) simp
  then obtain u where u: "take j ?s = CHR ''/'' # u" using s by (cases ?s; cases j) auto
  obtain m w where vm: "drop k pattern = m # w" using v(1) by (cases "drop k pattern") auto
  have "last (take j ?s) = ?s ! (j - 1)"
    using \<open>j \<noteq> 0\<close> v(1) j(1) by (subst last_conv_nth) (auto simp: u [symmetric] min_def)
  with \<open>j \<noteq> 0\<close> v(1) j(1) u have "pattern ! (k - 1) = last (CHR ''/'' # u)" by simp
  moreover have "?s = CHR ''/'' # u @ m # w"
    using u vm j(1) by (metis append_Cons append_take_drop_id drop_drop add.commute)
  ultimately show ?thesis
    using that [of u m w] u j vm v(2) \<open>j \<noteq> 0\<close> by (auto simp: plain_def)
qed

lemma marker_segment:
  assumes "drop k pattern = m # w" "m \<in> set '':*''"
  shows "pattern ! k = m" "drop (segment_end pattern k) pattern = from_slash w"
    "sv_substr pattern (k + 1) (segment_end pattern k - k - 1) = upto_slash w"
    "segment_end pattern k = length pattern \<longleftrightarrow> from_slash w = []"
proof -
  let ?e = "segment_end pattern k"
  have k: "k < length pattern" using assms(1) by (cases "k < length pattern") auto
  show vk: "pattern ! k = m" using k assms(1) by (metis hd_drop_conv_nth list.sel(1))
  have "k < ?e" using segment_end_gt [OF k] assms(2) vk by auto
  moreover have "sv_substr pattern k (?e - k) = m # upto_slash w"
    using segment_end_drop [of k pattern] k assms by auto
  ultimately show "sv_substr pattern (k + 1) (?e - k - 1) = upto_slash w"
    using assms(1) by (cases "?e - k") (auto simp: sv_substr_def drop_Suc simp flip: tl_drop)
  show drop_e: "drop ?e pattern = from_slash w"
    using segment_end_drop [of k pattern] k assms by auto
  show "?e = length pattern \<longleftrightarrow> from_slash w = []"
    unfolding drop_e [symmetric] using segment_end_le [of pattern k] by auto
qed

lemma plain_name: "sv_find_first_of '':*'' x 0 = None \<longleftrightarrow> plain x"
  by (auto simp: sv_find_first_of_def sv_simps plain_def)

text \<open>One round of the loop, with its four refusals.\<close>

lemma validate_round:
  assumes "sv_find_first_of '':*'' pattern pos = Some k" "drop k pattern = m # w" "m \<in> set '':*''"
  shows "validate_loop pattern pos = Inr () \<longleftrightarrow> k \<noteq> 0 \<and> pattern ! (k - 1) = CHR ''/'' \<and> upto_slash w \<noteq> []
    \<and> plain (upto_slash w) \<and> (m = CHR ''*'' \<longrightarrow> from_slash w = [])
    \<and> validate_loop pattern (segment_end pattern k) = Inr ()"
proof -
  have "validate_loop pattern pos =
     (if k = 0 \<or> pattern ! (k - 1) \<noteq> CHR ''/''
      then Inl (InvalidArgument ''Parameter marker must start a path segment'')
      else if upto_slash w = [] then Inl (InvalidArgument ''Parameter name must not be empty'')
      else if \<not> plain (upto_slash w)
      then Inl (InvalidArgument ''Parameter must occupy an entire path segment'')
      else if m = CHR ''*'' \<and> from_slash w \<noteq> []
      then Inl (InvalidArgument ''Catch-all must be the final path segment'')
      else validate_loop pattern (segment_end pattern k))"
    by (subst validate_loop.simps)
      (simp only: assms(1) option.case Let_def marker_segment [OF assms(2,3)] plain_name)
  then show ?thesis by (simp del: dropWhile_eq_Nil_conv)
qed

lemma validate_loop_ok:
  assumes "pos \<le> length pattern" "drop pos pattern = [] \<or> hd (drop pos pattern) = CHR ''/''"
  shows "validate_loop pattern pos = Inr () \<longleftrightarrow>
    drop pos pattern = [] \<or> segments_ok (split_slash (tl (drop pos pattern)))"
  using assms
proof (induction pattern pos rule: validate_loop.induct)
  case (1 pattern pos)
  show ?case
  proof (cases "sv_find_first_of '':*'' pattern pos")
    case None
    then have "plain (drop pos pattern)" by (rule first_special_cases(1))
    then have "plain (tl (drop pos pattern))" by (cases "drop pos pattern") (auto simp: plain_def)
    with None show ?thesis
      by (auto simp: validate_loop.simps [of pattern pos] intro: segments_ok_plain split_slash_plain)
  next
    case (Some k)
    obtain u m w where s: "drop pos pattern = CHR ''/'' # u @ m # w" and u: "plain u" and m: "m \<in> set '':*''"
      and v: "drop k pattern = m # w" and k: "k \<noteq> 0" "pattern ! (k - 1) = last (CHR ''/'' # u)"
      by (rule next_marker [OF Some "1.prems"(2)])
    note round = validate_round [OF Some v m]
    show ?thesis
    proof (cases "u = [] \<or> last u = CHR ''/''")
      case False
      then have "\<not> segments_ok (split_slash (u @ m # w))"
        using m by (intro split_slash_bad_marker [OF u]) auto
      with False k(2) round s show ?thesis by simp
    next
      case True
      with k(2) have slash: "pattern ! (k - 1) = CHR ''/''" by auto
      from True have "segments_ok (split_slash (u @ m # w)) = segments_ok (split_slash (m # w))"
        using m by (intro split_slash_marker [OF u]) auto
      moreover have "segments_ok (split_slash (m # w)) \<longleftrightarrow> upto_slash w \<noteq> [] \<and> plain (upto_slash w)
          \<and> (m = CHR ''*'' \<longrightarrow> from_slash w = [])
          \<and> (from_slash w = [] \<or> segments_ok (split_slash (tl (from_slash w))))"
        using split_slash_marker_segment [of "m # w"] m by simp
      moreover have "from_slash w = [] \<or> hd (from_slash w) = CHR ''/''"
        using hd_dropWhile [of "\<lambda>c. c \<noteq> CHR ''/''" w] by blast
      then have "upto_slash w \<noteq> [] \<Longrightarrow> plain (upto_slash w) \<Longrightarrow> (m = CHR ''*'' \<longrightarrow> from_slash w = []) \<Longrightarrow>
          validate_loop pattern (segment_end pattern k) = Inr () \<longleftrightarrow>
            from_slash w = [] \<or> segments_ok (split_slash (tl (from_slash w)))"
        using "1.IH" [OF Some _ refl refl] k(1) slash segment_end_le
        unfolding marker_segment [OF v m] plain_name by blast
      ultimately show ?thesis unfolding round s list.sel using k(1) slash by blast
    qed
  qed
qed

theorem validate_pattern_ok: "validate_pattern pattern = Inr () \<longleftrightarrow> well_formed pattern"
  using validate_loop_ok [of 0 pattern] by (auto simp: validate_pattern_def well_formed_def)

end
