(* ===== verification/Router_Store.thy ===== *)
theory Router_Store
  imports Router_Insert Router_Validation
begin

text \<open>
  The router as an abstract data type.  The locale \<open>pattern_store\<close> states what its
  clients rely on: what a registration stores or refuses, and what a lookup returns.  The
  consequences for whole sequences of registrations are proved once from these laws; the
  interpretation at the end proves the laws for the model of \<^verbatim>\<open>src/Router.cpp\<close>.
\<close>

section \<open>The contract\<close>

definition route_of :: "string \<Rightarrow> 'h \<Rightarrow> 'h route" where
  "route_of pattern h = \<lparr>r_handler = h, r_parameter_names = token_names pattern\<rparr>"

abbreviation match_pair :: "'h match_result \<Rightarrow> 'h route \<times> string list" where
  "match_pair mr \<equiv> (mr_route mr, mr_parameter_values mr)"

text \<open>The registrations that a sequence leaves in force: of each shape, the first valid one.\<close>

fun accept :: "'v \<Rightarrow> (tok list \<rightharpoonup> 'h route) \<Rightarrow> 'v \<times> string \<times> 'h \<Rightarrow> (tok list \<rightharpoonup> 'h route)" where
  "accept v m (w, p, h) =
     (if w = v \<and> well_formed p \<and> m (tokens p) = None then m(tokens p \<mapsto> route_of p h) else m)"

definition accepted :: "('v \<times> string \<times> 'h) list \<Rightarrow> 'v \<Rightarrow> (tok list \<rightharpoonup> 'h route)" where
  "accepted regs v = foldl (accept v) Map.empty regs"

locale pattern_store =
  fixes empty :: "'r"
    and add :: "'r \<Rightarrow> 'v \<Rightarrow> string \<Rightarrow> 'h \<Rightarrow> 'r \<times> (exn + unit)"
    and find :: "'r \<Rightarrow> 'v \<Rightarrow> string \<Rightarrow> exn + 'h match_result option"
    and contents :: "'r \<Rightarrow> 'v \<Rightarrow> (tok list \<times> 'h route) set"
    and invar :: "'r \<Rightarrow> bool"
  assumes invar_empty: "invar empty"
    and contents_empty: "contents empty v = {}"
    and invar_add: "invar r \<Longrightarrow> invar (fst (add r v p h))"
    and functional: "invar r \<Longrightarrow> (ts, x) \<in> contents r v \<Longrightarrow> (ts, y) \<in> contents r v \<Longrightarrow> x = y"
    and add_accepts: "invar r \<Longrightarrow> snd (add r v p h) = Inr () \<longleftrightarrow>
      well_formed p \<and> (\<forall>x. (tokens p, x) \<notin> contents r v)"
    and add_contents: "invar r \<Longrightarrow> snd (add r v p h) = Inr () \<Longrightarrow>
      contents (fst (add r v p h)) w =
        (if w = v then insert (tokens p, route_of p h) (contents r v) else contents r w)"
    and add_error: "invar r \<Longrightarrow> snd (add r v p h) = Inl e \<Longrightarrow> fst (add r v p h) = r"
    and find_optimal: "invar r \<Longrightarrow>
      \<exists>x. find r v t = Inr x \<and> optimal (contents r v) (strip_query t) (map_option match_pair x)"
begin

abbreviation add_all :: "'r \<Rightarrow> ('v \<times> string \<times> 'h) list \<Rightarrow> 'r" where
  "add_all r regs \<equiv> foldl (\<lambda>s (v, p, h). fst (add s v p h)) r regs"

lemma invar_add_all: "invar r \<Longrightarrow> invar (add_all r regs)"
  by (induction regs arbitrary: r) (auto intro: invar_add)

lemma add_accept:
  assumes "invar r" "\<And>v ts x. (ts, x) \<in> contents r v \<longleftrightarrow> m v ts = Some x"
  shows "(ts, x) \<in> contents (fst (add r w p h)) v \<longleftrightarrow> accept v (m v) (w, p, h) ts = Some x"
proof (cases "snd (add r w p h)")
  case (Inl e)
  with assms(1) have "fst (add r w p h) = r" by (rule add_error)
  moreover from Inl add_accepts [OF assms(1), of w p h] have "\<not> well_formed p \<or> m w (tokens p) \<noteq> None"
    using assms(2) by auto
  ultimately show ?thesis using assms(2) by auto
next
  case (Inr u)
  then have ok: "snd (add r w p h) = Inr ()" by simp
  with add_accepts [OF assms(1), of w p h] have "well_formed p" "m w (tokens p) = None"
    using assms(2) by (auto simp: option.expand)
  with add_contents [OF assms(1) ok] assms(2) show ?thesis by auto
qed

lemma add_all_accept:
  assumes "invar r" "\<And>v ts x. (ts, x) \<in> contents r v \<longleftrightarrow> m v ts = Some x"
  shows "(ts, x) \<in> contents (add_all r regs) v \<longleftrightarrow> foldl (accept v) (m v) regs ts = Some x"
  using assms
proof (induction regs arbitrary: r m)
  case Nil
  then show ?case by simp
next
  case (Cons a regs)
  obtain w p h where a: "a = (w, p, h)" by (cases a)
  show ?case
    using Cons.IH [of "fst (add r w p h)" "\<lambda>v. accept v (m v) (w, p, h)"] invar_add Cons.prems
      add_accept [OF Cons.prems] by (simp add: a del: accept.simps)
qed

lemma contents_accepted:
  "(ts, x) \<in> contents (add_all empty regs) v \<longleftrightarrow> accepted regs v ts = Some x"
  unfolding accepted_def
  by (rule add_all_accept [OF invar_empty, of "\<lambda>_. Map.empty"]) (simp add: contents_empty)

lemma find_after_add_all:
  "\<exists>x. find (add_all empty regs) v t = Inr x
     \<and> optimal {(ts, r). accepted regs v ts = Some r} (strip_query t) (map_option match_pair x)"
proof -
  have "contents (add_all empty regs) v = {(ts, r). accepted regs v ts = Some r}"
    by (auto simp: contents_accepted)
  note eq = this
  from find_optimal [OF invar_add_all [OF invar_empty, of regs], of v t] show ?thesis
    unfolding eq .
qed

end

text \<open>Two optimal results for the same patterns are the same.\<close>

lemma preferred_asym: "preferred a b \<Longrightarrow> \<not> preferred b a"
  by (induction a b rule: preferred.induct) (auto split: if_splits)

lemma optimal_unique:
  assumes "\<And>ts x y. (ts, x) \<in> E \<Longrightarrow> (ts, y) \<in> E \<Longrightarrow> x = y"
    and a: "optimal E s a" and b: "optimal E s b"
  shows "a = b"
proof (cases a)
  case None
  show ?thesis
  proof (cases b)
    case (Some z)
    obtain r vs where "z = (r, vs)" by (cases z)
    with b Some obtain ts where "(ts, r) \<in> E" "pattern_match ts s = Some vs"
      using optimal_SomeE by metis
    with a None show ?thesis by (auto dest: optimal_NoneD)
  qed (simp add: None)
next
  case (Some z)
  obtain r vs where z: "z = (r, vs)" by (cases z)
  with a Some have "optimal E s (Some (r, vs))" by simp
  then obtain ts where ts: "(ts, r) \<in> E" "pattern_match ts s = Some vs"
    "\<forall>ts' r'. (ts', r') \<in> E \<longrightarrow> pattern_match ts' s \<noteq> None \<longrightarrow> ts' = ts \<or> preferred ts ts'"
    by (rule optimal_SomeE)
  show ?thesis
  proof (cases b)
    case None
    with b ts show ?thesis by (auto dest: optimal_NoneD)
  next
    case b': (Some y)
    obtain r' vs' where y: "y = (r', vs')" by (cases y)
    with b b' have "optimal E s (Some (r', vs'))" by simp
    then obtain us where us: "(us, r') \<in> E" "pattern_match us s = Some vs'"
      "\<forall>ts' r''. (ts', r'') \<in> E \<longrightarrow> pattern_match ts' s \<noteq> None \<longrightarrow> ts' = us \<or> preferred us ts'"
      by (rule optimal_SomeE)
    from ts us have "us = ts \<or> preferred ts us" "ts = us \<or> preferred us ts" by auto
    then have "us = ts" using preferred_asym by blast
    with ts(1,2) us(1,2) assms(1) Some b' z y show ?thesis by auto
  qed
qed

section \<open>The router satisfies the contract\<close>

definition router_ok :: "('v, 'h) router \<Rightarrow> bool" where
  "router_ok r \<longleftrightarrow> (\<forall>v n. roots r v = Some (Some n) \<longrightarrow> node_wf n \<and> n_type n = NStatic)"

definition registered :: "('v, 'h) router \<Rightarrow> 'v \<Rightarrow> (tok list \<times> 'h route) set" where
  "registered r v = (case roots r v of Some (Some n) \<Rightarrow> set (entries n) | _ \<Rightarrow> {})"

lemma node_wf_make_node [simp]: "node_wf (make_node NStatic pre)"
  by (simp add: node_wf_def)

lemma root_for_ok:
  assumes "router_ok r"
  shows "node_wf (root_for r v)" "n_type (root_for r v) = NStatic"
    "set (entries (root_for r v)) = registered r v"
  using assms
  by (auto simp: router_ok_def root_for_def registered_def split: option.splits)

lemma store_root_ok:
  assumes "router_ok r" "node_wf n" "n_type n = NStatic"
  shows "router_ok (store_root r v n)"
    and "registered (store_root r v n) w = (if w = v then set (entries n) else registered r w)"
  using assms by (auto simp: router_ok_def store_root_def registered_def)

lemma store_root_same:
  "roots r v = Some (Some n) \<Longrightarrow> store_root r v n = r"
  by (simp add: store_root_def fun_upd_idem)

text \<open>The end of the walk: a node that has no route yet, and one that has.\<close>

lemma insert_route_fresh:
  assumes ok: "router_ok r" and root: "node_wf root" "n_type root = NStatic" "set (entries root) = registered r v"
    and n: "node_at root current = Some n" "n_route n = None"
  shows "(path_tokens root current, x) \<notin> registered r v"
    and "router_ok (store_root r v (put_at root current (set_route (Some y) n)))"
    and "registered (store_root r v (put_at root current (set_route (Some y) n))) w =
      (if w = v then insert (path_tokens root current, y) (registered r v) else registered r w)"
proof -
  show "(path_tokens root current, x) \<notin> registered r v"
  proof
    assume "(path_tokens root current, x) \<in> registered r v"
    then obtain p m where "node_at root p = Some m" "path_tokens root p = path_tokens root current" "n_route m = Some x"
      using entry_path [of _ x root] root(3) by metis
    with path_tokens_inj [OF _ _ n(1), of p m] root(1) n show False by (auto simp: node_wf_def)
  qed
  let ?n' = "set_route (Some y) n" and ?final = "put_at root current (set_route (Some y) n)"
  have n': "keeps n ?n'" "node_ok ?n'" "set (entries ?n') = set (entries n) \<union> {([], y)}"
    using node_at_wf [OF root(1) n(1)] n(2)
    by (auto simp: keeps_def node_wf_def node_ok_parts [of n] node_ok_parts [of "set_route _ n"]
        entries_parts [of n] entries_parts [of "set_route _ n"])
  note put = put_at_correct [OF root(1) n(1) n', of "[]"]
  have final: "node_wf ?final" "n_type ?final = NStatic"
    "set (entries ?final) = insert (path_tokens root current, y) (registered r v)"
    using put keeps_wf [OF _ root(1)] root by (auto simp: keeps_def)
  show "router_ok (store_root r v ?final)"
    by (rule store_root_ok(1) [OF ok final(1,2)])
  show "registered (store_root r v ?final) w =
      (if w = v then insert (path_tokens root current, y) (registered r v) else registered r w)"
    using store_root_ok(2) [OF ok final(1,2)] final(3) by simp
qed

lemma insert_route_taken:
  assumes mv: "moved (\<lambda>us. us = []) (root_for r v) [] (path_tokens root current) root current"
    and root: "set (entries root) = registered r v" and n: "node_at root current = Some n" "n_route n = Some x"
  shows "(path_tokens root current, x) \<in> registered r v" and "store_root r v root = r"
proof -
  show mem: "(path_tokens root current, x) \<in> registered r v"
    using path_entry [OF n] root by simp
  then obtain root0 where store: "roots r v = Some (Some root0)" "root_for r v = root0"
    "(path_tokens root current, x) \<in> set (entries root0)"
    by (auto simp: registered_def root_for_def split: option.splits)
  from entry_path [OF store(3)] have "reaches root0 (path_tokens root0 [] @ path_tokens root current @ [])"
    by (auto simp: reaches_def)
  with store(2) have "root = root0" using mv by (auto simp: moved_def)
  with store(1) show "store_root r v root = r" by (simp add: store_root_same)
qed

text \<open>The whole of \<open>insert_route\<close> for a pattern that starts with literal text.\<close>

lemma insert_route_correct:
  assumes ok: "router_ok r" and pat: "pattern \<noteq> []" "hd pattern \<notin> set '':*''"
  shows "if (\<exists>x. (tokens pattern, x) \<in> registered r v)
    then insert_route r v pattern h = (r, Inl (InvalidArgument ''Duplicate route''))
    else \<exists>r'. insert_route r v pattern h = (r', Inr ()) \<and> router_ok r'
      \<and> (\<forall>w. registered r' w = (if w = v then insert (tokens pattern, route_of pattern h) (registered r v)
            else registered r w))"
proof -
  let ?root = "root_for r v" and ?ts = "tokens pattern"
  note root = root_for_ok [OF ok, of v]
  obtain root' res where loop: "insert_loop ?root [] [] pattern = (root', res)" by fastforce
  have "ready ?root pattern" using root(2) pat by (simp add: ready_def)
  from insert_loop_correct [OF root(1) _ this loop] obtain current n where
    res: "res = Inr (current, token_names pattern)"
    and mv: "moved (\<lambda>us. us = []) ?root [] ?ts root' current"
    and n: "node_at root' current = Some n" by auto
  have root': "node_wf root'" "n_type root' = NStatic" "set (entries root') = registered r v"
    and path: "path_tokens root' current = ?ts"
    using mv root by (auto simp: moved_def keeps_def)
  show ?thesis
  proof (cases "n_route n")
    case None
    with loop res n have
      "insert_route r v pattern h = (store_root r v (put_at root' current (set_route (Some (route_of pattern h)) n)), Inr ())"
      by (simp add: insert_route_def route_of_def)
    with insert_route_fresh [OF ok root' n None] path show ?thesis by auto
  next
    case (Some x)
    with insert_route_taken [OF _ root'(3) n Some] mv loop res n path show ?thesis
      by (auto simp: insert_route_def)
  qed
qed

lemma well_formed_start: "well_formed p \<Longrightarrow> p \<noteq> [] \<and> hd p \<notin> set '':*''"
  by (auto simp: well_formed_def)

lemma add_route_cases:
  assumes "router_ok r"
  shows "\<not> well_formed p \<and> (\<exists>e. add_route r v p h = (r, Inl e))
    \<or> well_formed p \<and> (\<exists>x. (tokens p, x) \<in> registered r v)
        \<and> add_route r v p h = (r, Inl (InvalidArgument ''Duplicate route''))
    \<or> well_formed p \<and> (\<forall>x. (tokens p, x) \<notin> registered r v)
        \<and> (\<exists>r'. add_route r v p h = (r', Inr ()) \<and> router_ok r'
             \<and> (\<forall>w. registered r' w = (if w = v then insert (tokens p, route_of p h) (registered r v)
                   else registered r w)))"
proof (cases "validate_pattern p")
  case (Inl e)
  then have "\<not> well_formed p" using validate_pattern_ok [of p] by auto
  with Inl show ?thesis by (simp add: add_route_def)
next
  case (Inr u)
  then have "well_formed p" using validate_pattern_ok [of p] by auto
  with insert_route_correct [OF assms, of p v h] well_formed_start [of p] Inr show ?thesis
    by (auto simp: add_route_def split: if_splits)
qed

lemma match_route_optimal:
  assumes "router_ok r"
  shows "\<exists>x. match_route r v t = Inr x \<and> optimal (registered r v) (strip_query t) (map_option match_pair x)"
proof (cases "roots r v")
  case None
  then show ?thesis by (simp add: match_route_def registered_def optimal_def)
next
  case (Some root)
  show ?thesis
  proof (cases root)
    case None
    with Some show ?thesis by (simp add: match_route_def registered_def optimal_def)
  next
    case r: (Some n)
    with Some assms have "node_ok n" by (auto simp: router_ok_def node_wf_def)
    then have opt: "optimal (registered r v) (strip_query t) (route_result (best n (strip_query t)))"
      using best_optimal(1) Some r by (simp add: registered_def)
    show ?thesis
      using opt Some r best_has_route(1) [of n "strip_query t"]
      by (cases "best n (strip_query t)")
        (auto simp: match_route_def search_best(1) with_vals_def)
  qed
qed

interpretation router_store: pattern_store new_router add_route match_route registered router_ok
proof (unfold_locales, goal_cases)
  case 1
  show ?case by (simp add: router_ok_def new_router_def)
next
  case (2 v)
  show ?case by (simp add: registered_def new_router_def)
next
  case (3 r v p h)
  with add_route_cases [OF 3, of p v h] show ?case by auto
next
  case (4 r ts x v y)
  then show ?case
    by (auto simp: registered_def router_ok_def node_wf_def split: option.splits dest: entries_functional)
next
  case (5 r v p h)
  from add_route_cases [OF 5, of p v h] show ?case by auto
next
  case (6 r v p h w)
  from add_route_cases [OF 6(1), of p v h] 6(2) show ?case by auto
next
  case (7 r v p h e)
  from add_route_cases [OF 7(1), of p v h] 7(2) show ?case by auto
next
  case (8 r v t)
  then show ?case by (rule match_route_optimal)
qed

end
