(* ===== verification/Router_Props.thy ===== *)
theory Router_Props
  imports Router_Store "HOL-Library.Multiset"
begin

text \<open>
  The properties of the router, for the routers that clients build: any sequence of
  \<^verbatim>\<open>Router::add_route\<close> calls on a new router, failed calls included.
\<close>

definition register_all :: "('v \<times> string \<times> 'h) list \<Rightarrow> ('v, 'h) router" where
  "register_all regs = foldl (\<lambda>s (v, p, h). fst (add_route s v p h)) new_router regs"

section \<open>Consequences of the contract\<close>

lemma register_all_ok: "router_ok (register_all regs)"
  unfolding register_all_def
  by (rule router_store.invar_add_all [OF router_store.invar_empty])

lemma registered_all:
  "(ts, x) \<in> registered (register_all regs) v \<longleftrightarrow> accepted regs v ts = Some x"
  unfolding register_all_def by (rule router_store.contents_accepted)

lemma match_all_optimal:
  "\<exists>x. match_route (register_all regs) v t = Inr x
     \<and> optimal {(ts, r). accepted regs v ts = Some r} (strip_query t) (map_option match_pair x)"
  unfolding register_all_def by (rule router_store.find_after_add_all)

lemma match_result_eq: "match_pair a = match_pair b \<Longrightarrow> a = (b :: 'h match_result)"
  by (cases a; cases b) simp

text \<open>What a lookup returns, from what an optimal result is.\<close>

lemma match_all_eq:
  assumes "optimal {(ts, r). accepted regs v ts = Some r} (strip_query t) (map_option match_pair x)"
  shows "match_route (register_all regs) v t = Inr x"
proof -
  obtain y where y: "match_route (register_all regs) v t = Inr y"
    "optimal {(ts, r). accepted regs v ts = Some r} (strip_query t) (map_option match_pair y)"
    using match_all_optimal [of regs v t] by (elim exE conjE)
  from optimal_unique [OF _ y(2) assms] have "map_option match_pair y = map_option match_pair x"
    by simp
  then have "y = x"
    by (cases x; cases y) (auto intro: match_result_eq)
  with y(1) show ?thesis by simp
qed

text \<open>Every accepted route comes from a registration of the sequence.\<close>

lemma accepted_from:
  assumes "accepted regs v ts = Some rt"
  obtains p h where "(v, p, h) \<in> set regs" "well_formed p" "ts = tokens p" "rt = route_of p h"
proof -
  have "\<exists>p h. (v, p, h) \<in> set regs \<and> well_formed p \<and> ts = tokens p \<and> rt = route_of p h"
    using assms
  proof (induction regs rule: rev_induct)
    case Nil
    then show ?case by (simp add: accepted_def)
  next
    case (snoc a regs)
    obtain w p h where a: "a = (w, p, h)" by (cases a)
    show ?case
    proof (cases "accepted regs v ts = Some rt")
      case True
      with snoc.IH show ?thesis by auto
    next
      case False
      with snoc.prems a have "w = v \<and> well_formed p \<and> ts = tokens p \<and> rt = route_of p h"
        by (auto simp: accepted_def split: if_splits)
      with a show ?thesis by auto
    qed
  qed
  with that show ?thesis by blast
qed

fun arity :: "tok list \<Rightarrow> nat" where
  "arity [] = 0"
| "arity (Lit c # ts) = arity ts"
| "arity (_ # ts) = Suc (arity ts)"

lemma arity_names: "length (token_names p) = arity (tokens p)"
  by (induction p rule: tokens.induct) auto

lemma arity_match: "pattern_match ts s = Some vs \<Longrightarrow> length vs = arity ts"
  by (induction ts s arbitrary: vs rule: pattern_match.induct) (auto split: if_splits list.splits)

text \<open>Filling parameters in: names with their markers, or values.\<close>

fun render :: "tok list \<Rightarrow> string list \<Rightarrow> string" where
  "render (Lit c # ts) xs = c # render ts xs"
| "render (Param # ts) (x # xs) = CHR '':'' # x @ render ts xs"
| "render (CatchAll # ts) (x # xs) = CHR ''*'' # x @ render ts xs"
| "render _ _ = []"

fun fill :: "tok list \<Rightarrow> string list \<Rightarrow> string" where
  "fill (Lit c # ts) xs = c # fill ts xs"
| "fill (_ # ts) (x # xs) = x @ fill ts xs"
| "fill _ _ = []"

lemma render_tokens: "render (tokens p) (token_names p) = p"
  by (induction p rule: tokens.induct) auto

lemma fill_match: "pattern_match ts s = Some vs \<Longrightarrow> fill ts vs = s"
  by (induction ts s arbitrary: vs rule: pattern_match.induct) (auto split: if_splits list.splits)

text \<open>The values that parameters may take.\<close>

fun values_ok :: "tok list \<Rightarrow> string list \<Rightarrow> bool" where
  "values_ok [] xs = (xs = [])"
| "values_ok (Lit c # ts) xs = values_ok ts xs"
| "values_ok (Param # ts) (x # xs) = (x \<noteq> [] \<and> CHR ''/'' \<notin> set x \<and> values_ok ts xs)"
| "values_ok (CatchAll # ts) (x # xs) = (ts = [] \<and> xs = [] \<and> x \<noteq> [] \<and> x \<noteq> ''/'')"
| "values_ok _ _ = False"

lemma match_values_ok: "pattern_match ts s = Some vs \<Longrightarrow> values_ok ts vs"
proof (induction ts s arbitrary: vs rule: pattern_match.induct)
  case (3 ts s)
  then have "s \<noteq> []" "hd s \<noteq> CHR ''/''" by (auto split: if_splits)
  then have "upto_slash s \<noteq> []" "CHR ''/'' \<notin> set (upto_slash s)"
    by (cases s) (auto dest: set_takeWhileD)
  with 3 show ?case by (auto split: if_splits)
qed (auto split: if_splits list.splits)

text \<open>Literal text is preferred to every other pattern that matches it.\<close>

lemma literal_preferred:
  "pattern_match ts s = Some vs \<Longrightarrow> ts = map Lit s \<or> preferred (map Lit s) ts"
  by (induction ts s arbitrary: vs rule: pattern_match.induct)
    (auto split: if_splits list.splits simp: neq_Nil_conv)

lemma literal_self: "pattern_match (map Lit s) s = Some []"
  by (induction s) auto

lemma strip_query_ignores: "strip_query (t @ CHR ''?'' # q) = strip_query t"
proof -
  have "find_index (\<lambda>x. x = CHR ''?'') (t @ CHR ''?'' # q) =
      Some (case find_index (\<lambda>x. x = CHR ''?'') t of None \<Rightarrow> length t | Some i \<Rightarrow> i)"
    by (induction t) (auto split: option.splits)
  then show ?thesis
    using find_index_nth [of "\<lambda>x. x = CHR ''?''" t]
    by (auto simp: strip_query_def sv_find_def sv_substr_def split: option.splits)
qed

lemma map_eqI: "(\<And>y. f x = Some y \<longleftrightarrow> g x = Some y) \<Longrightarrow> f x = g x"
  by (metis not_None_eq)

text \<open>The patterns of a sequence with distinct shapes, as a set.\<close>

lemma accepted_distinct:
  assumes "distinct (map (\<lambda>(v, p, h). (v, tokens p)) regs)"
  shows "accepted regs v ts = Some rt \<longleftrightarrow>
    (\<exists>p h. (v, p, h) \<in> set regs \<and> well_formed p \<and> ts = tokens p \<and> rt = route_of p h)"
  using assms
proof (induction regs rule: rev_induct)
  case Nil
  then show ?case by (simp add: accepted_def)
next
  case (snoc a regs)
  obtain w p h where a: "a = (w, p, h)" by (cases a)
  have new: "(w, q, k) \<in> set regs \<Longrightarrow> tokens q \<noteq> tokens p" for q k
    using snoc.prems a by force
  have none: "accepted regs w (tokens p) = None"
  proof (rule ccontr)
    assume "accepted regs w (tokens p) \<noteq> None"
    then obtain x where "accepted regs w (tokens p) = Some x" by blast
    then obtain q k where "(w, q, k) \<in> set regs" "tokens p = tokens q" by (rule accepted_from) blast
    with new show False by metis
  qed
  have "accepted (regs @ [a]) v =
      (if w = v \<and> well_formed p then (accepted regs v)(tokens p \<mapsto> route_of p h) else accepted regs v)"
    using none by (auto simp: accepted_def a)
  with snoc none a show ?case by auto
qed

lemma add_route_other_verb:
  "v \<noteq> w \<Longrightarrow> roots (fst (add_route r v p h)) w = roots r w"
  by (auto simp: add_route_def insert_route_def store_root_def split: sum.splits prod.splits option.splits)

lemma validate_loop_error: "validate_loop pattern i = Inl e \<Longrightarrow> \<exists>m. e = InvalidArgument m \<and> m \<noteq> ''Duplicate route''"
proof (induction pattern i rule: validate_loop.induct)
  case (1 pattern position)
  from "1.prems" show ?case
    by (subst (asm) validate_loop.simps)
      (auto simp: Let_def split: option.splits if_splits dest: "1.IH")
qed

text \<open>A registered literal path always wins: when the path of the target is, character by
  character, a literal pattern in force for the verb, that route is returned with no values.\<close>

lemma match_literal_wins:
  assumes "accepted regs v (map Lit (strip_query t)) = Some rt"
  shows "match_route (register_all regs) v t = Inr (Some \<lparr>mr_route = rt, mr_parameter_values = []\<rparr>)"
proof (rule match_all_eq)
  show "optimal {(ts, r). accepted regs v ts = Some r} (strip_query t)
      (map_option match_pair (Some \<lparr>mr_route = rt, mr_parameter_values = []\<rparr>))"
    using assms literal_self literal_preferred
    by (auto intro!: optimal_SomeI [of "map Lit (strip_query t)"])
qed

section \<open>Properties\<close>

text \<open>A sequence of registrations with static, parameter, catch-all, duplicate and invalid patterns.\<close>

definition sample :: "(string \<times> string \<times> nat) list" where
  "sample =
     [(''GET'', ''/users/:id'', 0), (''GET'', ''/users/me'', 1), (''GET'', ''/files/*path'', 2),
      (''POST'', ''/users/:id/posts/:post'', 3), (''GET'', ''/users/:name'', 4),
      (''GET'', ''/bad:marker'', 5), (''GET'', ''/users/:id/edit'', 6)]"

text \<open>C1. A lookup returns a route and values exactly when they belong to a pattern in force for
  the verb that matches the path of the target and is preferred to every other one that does:
  literal text over a parameter over a catch-all at the first difference.\<close>

theorem match_returns_preferred:
  "match_route (register_all regs) v t = Inr (Some \<lparr>mr_route = rt, mr_parameter_values = vals\<rparr>) \<longleftrightarrow>
   (\<exists>ts. accepted regs v ts = Some rt \<and> pattern_match ts (strip_query t) = Some vals
      \<and> (\<forall>ts' rt'. accepted regs v ts' = Some rt' \<longrightarrow> pattern_match ts' (strip_query t) \<noteq> None \<longrightarrow>
           ts' = ts \<or> preferred ts ts'))" (is "?L \<longleftrightarrow> ?R")
proof
  assume ?L
  then have "optimal {(ts, r). accepted regs v ts = Some r} (strip_query t) (Some (rt, vals))"
    using match_all_optimal [of regs v t] by (elim exE conjE) auto
  then show ?R by (rule optimal_SomeE) auto
next
  assume ?R
  then have "optimal {(ts, r). accepted regs v ts = Some r} (strip_query t) (Some (rt, vals))"
    by (elim exE conjE) (rule optimal_SomeI; auto)
  then show ?L by (intro match_all_eq) simp
qed

theorem match_returns_preferred_witness:
  "\<exists>ts. accepted sample ''GET'' ts = Some (route_of ''/users/:id'' 0)
     \<and> pattern_match ts ''/users/42'' = Some [''42'']"
proof -
  have "match_route (register_all sample) ''GET'' ''/users/42?x=1'' =
      Inr (Some \<lparr>mr_route = route_of ''/users/:id'' 0, mr_parameter_values = [''42'']\<rparr>)"
    by code_simp
  moreover have "strip_query ''/users/42?x=1'' = ''/users/42''" by code_simp
  ultimately show ?thesis
    using match_returns_preferred [of sample "''GET''" "''/users/42?x=1''"] by metis
qed

text \<open>The path of a target has no question mark, so literal text with one never matches.\<close>

lemma strip_query_none: "CHR ''?'' \<notin> set (strip_query t)"
proof (cases "CHR ''?'' \<in> set t")
  case True
  from split_list_first [OF this] obtain u q where t: "t = u @ CHR ''?'' # q" "CHR ''?'' \<notin> set u" by blast
  then have "strip_query t = strip_query u" by (simp add: strip_query_ignores)
  moreover have "sv_find (CHR ''?'') u 0 = None"
    using sv_find_SomeD [of "CHR ''?''" u 0] t(2) by (metis nth_mem not_None_eq)
  ultimately show ?thesis using t(2) by (simp add: strip_query_def)
next
  case False
  then show ?thesis
    by (auto simp: strip_query_def sv_substr_def split: option.split dest: in_set_takeD)
qed

lemma match_literals: "pattern_match ts s = Some vs \<Longrightarrow> Lit c \<in> set ts \<Longrightarrow> c \<in> set s"
proof (induction ts s arbitrary: vs rule: pattern_match.induct)
  case (3 ts s)
  then have "c \<in> set (from_slash s)" by (auto split: if_splits)
  then show ?case by (auto dest: set_dropWhileD)
qed (auto split: if_splits list.splits)

lemma question_mark_unmatched: "Lit (CHR ''?'') \<in> set ts \<Longrightarrow> pattern_match ts (strip_query t) = None"
  using match_literals strip_query_none by fastforce

text \<open>C15. A lookup never throws, and it finds nothing exactly when no pattern in force for the
  verb matches the path of the target.  No pattern with a question mark in its literal text
  ever does, although validation accepts such patterns.\<close>

theorem match_finds_nothing_iff:
  "match_route (register_all regs) v t \<noteq> Inl e
   \<and> (match_route (register_all regs) v t = Inr None \<longleftrightarrow>
      (\<forall>ts\<in>dom (accepted regs v). pattern_match ts (strip_query t) = None))
   \<and> (Lit (CHR ''?'') \<in> set ts \<longrightarrow> pattern_match ts (strip_query t) = None)
   \<and> validate_pattern ''/search?q'' = Inr ()"
proof -
  have q: "validate_pattern ''/search?q'' = Inr ()" by code_simp
  obtain x where x: "match_route (register_all regs) v t = Inr x"
    "optimal {(ts, r). accepted regs v ts = Some r} (strip_query t) (map_option match_pair x)"
    using match_all_optimal [of regs v t] by (elim exE conjE)
  show ?thesis
  proof (cases x)
    case None
    with x q question_mark_unmatched [of ts t] show ?thesis by (auto dest: optimal_NoneD)
  next
    case (Some mr)
    with x(2) have "optimal {(ts, r). accepted regs v ts = Some r} (strip_query t)
        (Some (mr_route mr, mr_parameter_values mr))" by simp
    then obtain ts' where "accepted regs v ts' = Some (mr_route mr)"
      "pattern_match ts' (strip_query t) = Some (mr_parameter_values mr)"
      by (rule optimal_SomeE) auto
    with Some x(1) q question_mark_unmatched [of ts t] show ?thesis by (auto simp: dom_def)
  qed
qed

theorem match_finds_nothing_iff_witness:
  "match_route (register_all sample) ''GET'' ''/files/'' = Inr None
   \<and> pattern_match (tokens ''/files/*rest'') (strip_query ''/files/'') = None"
proof -
  have "match_route (register_all sample) ''GET'' ''/files/'' = Inr None" by code_simp
  moreover have "accepted sample ''GET'' (tokens ''/files/*rest'') = Some (route_of ''/files/*path'' 2)"
    by code_simp
  ultimately show ?thesis using match_finds_nothing_iff [of sample "''GET''" "''/files/''"] by blast
qed

text \<open>C2. Registering a pattern succeeds exactly when it is well formed and no pattern of the same
  shape (the same up to parameter names) is in force for the verb; it then stores the handler
  and the parameter names under that shape, for that verb only.\<close>

theorem add_route_registers:
  "(snd (add_route (register_all regs) v p h) = Inr () \<longleftrightarrow>
      well_formed p \<and> accepted regs v (tokens p) = None)
   \<and> (snd (add_route (register_all regs) v p h) = Inr () \<longrightarrow>
      registered (fst (add_route (register_all regs) v p h)) w =
        (if w = v then insert (tokens p, route_of p h) (registered (register_all regs) v)
         else registered (register_all regs) w))"
  using router_store.add_accepts [OF register_all_ok, of regs v p h]
    router_store.add_contents [OF register_all_ok, of regs v p h w]
  by (simp add: registered_all option.expand)

theorem add_route_registers_witness:
  "(tokens ''/users/:id/posts'', route_of ''/users/:id/posts'' 9) \<in>
     registered (fst (add_route (register_all sample) ''GET'' ''/users/:id/posts'' 9)) ''GET''"
proof -
  have "snd (add_route (register_all sample) ''GET'' ''/users/:id/posts'' 9) = Inr ()" by code_simp
  with add_route_registers [of sample "''GET''" "''/users/:id/posts''" 9 "''GET''"] show ?thesis
    by simp
qed

text \<open>C10. A registration that throws leaves the router as it was, although insertion splits nodes
  before it tests for a duplicate; the exception is always \<^verbatim>\<open>std::invalid_argument\<close>, with the
  duplicate message exactly for well-formed patterns.\<close>

theorem add_route_strong_guarantee:
  assumes "add_route (register_all regs) v p h = (r', Inl e)"
  shows "r' = register_all regs \<and> (\<exists>m. e = InvalidArgument m)
    \<and> (e = InvalidArgument ''Duplicate route'' \<longleftrightarrow> well_formed p)"
proof (cases "validate_pattern p")
  case (Inl x)
  have "\<exists>m. x = InvalidArgument m \<and> m \<noteq> ''Duplicate route''"
    using Inl validate_loop_error by (auto simp: validate_pattern_def split: if_splits)
  moreover have "\<not> well_formed p" using Inl validate_pattern_ok [of p] by auto
  ultimately show ?thesis using Inl assms by (auto simp: add_route_def)
next
  case (Inr u)
  then have "well_formed p" using validate_pattern_ok [of p] by auto
  with add_route_cases [OF register_all_ok, of p regs v h] assms show ?thesis by auto
qed

theorem add_route_strong_guarantee_witness:
  "fst (add_route (register_all sample) ''GET'' ''/users/:who'' 9) = register_all sample"
proof -
  have "snd (add_route (register_all sample) ''GET'' ''/users/:who'' 9)
      = Inl (InvalidArgument ''Duplicate route'')" by code_simp
  then have "add_route (register_all sample) ''GET'' ''/users/:who'' 9 =
      (fst (add_route (register_all sample) ''GET'' ''/users/:who'' 9), Inl (InvalidArgument ''Duplicate route''))"
    by (metis prod.collapse)
  from add_route_strong_guarantee [OF this] show ?thesis by simp
qed

text \<open>C22. \<open>validate_pattern\<close> accepts exactly the patterns that start with a slash and whose
  segments are literal text or a marker with a non-empty, marker-free name, a catch-all only as
  the last segment.\<close>

theorem validate_pattern_exact:
  "validate_pattern pattern = Inr () \<longleftrightarrow>
     pattern \<noteq> [] \<and> hd pattern = CHR ''/'' \<and> segments_ok (split_slash (tl pattern))"
  using validate_pattern_ok [of pattern] by (simp add: well_formed_def)

text \<open>C32. Every tree the router builds is a radix tree: the static children of a node carry
  non-empty literal text and start with distinct characters, a parameter node has only static
  children, a catch-all node has none.\<close>

theorem register_all_radix:
  assumes "roots (register_all regs) v = Some (Some n)"
  shows "node_ok n \<and> n_type n = NStatic"
  using assms register_all_ok [of regs] by (simp add: router_ok_def node_wf_def)

theorem register_all_radix_witness:
  "node_ok (the (the (roots (register_all sample) ''GET'')))"
proof -
  have "roots (register_all sample) ''GET'' = Some (Some (the (the (roots (register_all sample) ''GET''))))"
    by code_simp
  from register_all_radix [OF this] show ?thesis by simp
qed

text \<open>The verbs do not interfere: a registration for one verb, successful or not, changes no
  lookup for another.\<close>

lemma add_route_verbs_independent:
  "v \<noteq> w \<Longrightarrow> match_route (fst (add_route r v p h)) w t = match_route r w t"
  by (simp add: match_route_def add_route_other_verb)

text \<open>The names of the route and the values of the lookup correspond one to one, and a
  handler that indexes both vectors stays in range; the route is one that was registered for
  the verb, with the parameter names of its own pattern.\<close>

lemma match_names_values:
  assumes "match_route (register_all regs) v t = Inr (Some mr)"
  shows "length (mr_parameter_values mr) = length (r_parameter_names (mr_route mr))
    \<and> (\<exists>p. (v, p, r_handler (mr_route mr)) \<in> set regs
         \<and> r_parameter_names (mr_route mr) = token_names p)"
proof -
  from assms have "optimal {(ts, r). accepted regs v ts = Some r} (strip_query t)
      (Some (mr_route mr, mr_parameter_values mr))"
    using match_all_optimal [of regs v t] by (elim exE conjE) auto
  then obtain ts where ts: "accepted regs v ts = Some (mr_route mr)"
    "pattern_match ts (strip_query t) = Some (mr_parameter_values mr)"
    by (rule optimal_SomeE) auto
  from ts(1) obtain p h where "(v, p, h) \<in> set regs" "ts = tokens p" "mr_route mr = route_of p h"
    by (rule accepted_from)
  with ts(2) show ?thesis by (auto simp: route_of_def arity_names dest: arity_match)
qed

text \<open>C28. The values captured, put back into the pattern, give the path of the target; the value
  of a parameter is a non-empty segment without a slash, the value of a catch-all is neither
  empty nor a lone slash.\<close>

theorem match_values_fill:
  assumes "match_route (register_all regs) v t = Inr (Some mr)"
  shows "\<exists>p. (v, p, r_handler (mr_route mr)) \<in> set regs
    \<and> fill (tokens p) (mr_parameter_values mr) = strip_query t
    \<and> values_ok (tokens p) (mr_parameter_values mr)"
proof -
  from assms have "optimal {(ts, r). accepted regs v ts = Some r} (strip_query t)
      (Some (mr_route mr, mr_parameter_values mr))"
    using match_all_optimal [of regs v t] by (elim exE conjE) auto
  then obtain ts where ts: "accepted regs v ts = Some (mr_route mr)"
    "pattern_match ts (strip_query t) = Some (mr_parameter_values mr)"
    by (rule optimal_SomeE) auto
  from ts(1) obtain p h where "(v, p, h) \<in> set regs" "ts = tokens p" "mr_route mr = route_of p h"
    by (rule accepted_from)
  with ts(2) fill_match match_values_ok show ?thesis by (fastforce simp: route_of_def)
qed

theorem match_values_fill_witness:
  "\<exists>p. (''GET'', p, 2) \<in> set sample \<and> fill (tokens p) [''a/b.txt''] = ''/files/a/b.txt''"
proof -
  have run: "match_route (register_all sample) ''GET'' ''/files/a/b.txt?v=1'' =
      Inr (Some \<lparr>mr_route = \<lparr>r_handler = 2, r_parameter_names = [''path'']\<rparr>,
        mr_parameter_values = [''a/b.txt'']\<rparr>)" by code_simp
  have "strip_query ''/files/a/b.txt?v=1'' = ''/files/a/b.txt''" by code_simp
  with match_values_fill [OF run] show ?thesis by auto
qed

text \<open>What the tree stores under a shape gives the registered pattern back: the shape with
  the stored parameter names is the text of a registration of the sequence, handler included.\<close>

lemma registered_render:
  assumes "(ts, rt) \<in> registered (register_all regs) v"
  shows "(v, render ts (r_parameter_names rt), r_handler rt) \<in> set regs"
proof -
  from assms have "accepted regs v ts = Some rt" by (simp add: registered_all)
  then obtain p h where "(v, p, h) \<in> set regs" "ts = tokens p" "rt = route_of p h"
    by (rule accepted_from)
  then show ?thesis by (simp add: route_of_def render_tokens)
qed

text \<open>Routing ignores the query string: everything from the first question mark on.\<close>

lemma match_ignores_query:
  "match_route r v (t @ CHR ''?'' # q) = match_route r v t"
  unfolding match_route_def strip_query_ignores ..

text \<open>C29. The order of registrations with distinct shapes does not matter to any lookup, although
  it decides how the tree is split.\<close>

theorem match_order_independent:
  assumes "mset regs = mset regs'" "distinct (map (\<lambda>(v, p, h). (v, tokens p)) regs)"
  shows "match_route (register_all regs) v t = match_route (register_all regs') v t"
proof -
  have "mset (map (\<lambda>(v, p, h). (v, tokens p)) regs) = mset (map (\<lambda>(v, p, h). (v, tokens p)) regs')"
    using assms(1) by (simp only: mset_map)
  with assms(2) have "distinct (map (\<lambda>(v, p, h). (v, tokens p)) regs')"
    by (metis mset_eq_imp_distinct_iff)
  moreover have "set regs = set regs'" using assms(1) by (rule mset_eq_setD)
  ultimately have "accepted regs v = accepted regs' v"
    using assms(2) by (intro ext map_eqI) (simp add: accepted_distinct)
  then show ?thesis
    using match_all_optimal [of regs v t] match_all_eq [of regs' v t] by (elim exE conjE) simp
qed

theorem match_order_independent_witness:
  "match_route (register_all (rev (take 4 sample))) ''GET'' ''/users/me''
     = match_route (register_all (take 4 sample)) ''GET'' ''/users/me''"
proof -
  have "distinct (map (\<lambda>(v, p, h). (v, tokens p)) (rev (take 4 sample)))" by code_simp
  then show ?thesis by (intro match_order_independent) simp
qed


end
