(* ===== verification/Refinement.thy ===== *)
theory Refinement
  imports Main
begin

text \<open>
  Labelled transition systems and their refinement.  A component is given by its steps and
  its initial state; \<open>refinement\<close> is the contract of a forward simulation by an
  abstraction function under an invariant, \<open>exact_refinement\<close> adds that the component
  can do whatever its specification can, and \<open>bisimulation\<close> has a relation in place of the
  function.  The router and the connections are exact refinements (\<open>Router_Machine\<close>,
  \<open>Session_Machine\<close>); the router in memory and the router are bisimilar
  (\<open>Router_Heap_Machine\<close>).
\<close>

section \<open>Traces\<close>

inductive trace :: "('s \<Rightarrow> 'e \<Rightarrow> 's \<Rightarrow> bool) \<Rightarrow> 's \<Rightarrow> 'e list \<Rightarrow> 's \<Rightarrow> bool"
  for step :: "'s \<Rightarrow> 'e \<Rightarrow> 's \<Rightarrow> bool" and init :: 's where
  trace_init: "trace step init [] init"
| trace_step: "trace step init es s \<Longrightarrow> step s e s' \<Longrightarrow> trace step init (es @ [e]) s'"

inductive_simps trace_nil [simp]: "trace step init [] s"
inductive_simps trace_snoc: "trace step init (es @ [e]) s"

text \<open>The observable behaviours: the sequences of labels of all runs.\<close>

definition behaviours :: "('s \<Rightarrow> 'e \<Rightarrow> 's \<Rightarrow> bool) \<Rightarrow> 's \<Rightarrow> 'e list set" where
  "behaviours step init = {es. \<exists>s. trace step init es s}"

lemma behaviours_prefix: "es @ [e] \<in> behaviours step init \<Longrightarrow> es \<in> behaviours step init"
  by (auto simp: behaviours_def trace_snoc)

section \<open>The contracts\<close>

locale refinement =
  fixes cstep :: "'c \<Rightarrow> 'e \<Rightarrow> 'c \<Rightarrow> bool" and cinit :: 'c
    and astep :: "'a \<Rightarrow> 'e \<Rightarrow> 'a \<Rightarrow> bool" and ainit :: 'a
    and good :: "'c \<Rightarrow> bool" and abs :: "'c \<Rightarrow> 'a"
  assumes good_init: "good cinit"
    and abs_init: "abs cinit = ainit"
    and good_step: "good c \<Longrightarrow> cstep c e c' \<Longrightarrow> good c'"
    and simulates: "good c \<Longrightarrow> cstep c e c' \<Longrightarrow> astep (abs c) e (abs c')"
begin

lemma trace_good: "trace cstep cinit es c \<Longrightarrow> good c"
  by (induction rule: trace.induct) (auto intro: good_init good_step)

lemma trace_simulated: "trace cstep cinit es c \<Longrightarrow> trace astep ainit es (abs c)"
proof (induction rule: trace.induct)
  case trace_init
  show ?case unfolding abs_init by (rule trace.trace_init)
next
  case (trace_step es c e c')
  then show ?case by (blast intro: trace.trace_step simulates trace_good)
qed

lemma behaviours_included: "behaviours cstep cinit \<subseteq> behaviours astep ainit"
  by (auto simp: behaviours_def dest: trace_simulated)

end

text \<open>Two systems that can answer each other's steps, for a relation between their states.\<close>

locale bisimulation =
  fixes cstep :: "'c \<Rightarrow> 'e \<Rightarrow> 'c \<Rightarrow> bool" and cinit :: 'c
    and astep :: "'a \<Rightarrow> 'e \<Rightarrow> 'a \<Rightarrow> bool" and ainit :: 'a
    and rel :: "'c \<Rightarrow> 'a \<Rightarrow> bool"
  assumes rel_init: "rel cinit ainit"
    and answers_forth: "rel c a \<Longrightarrow> cstep c e c' \<Longrightarrow> \<exists>a'. astep a e a' \<and> rel c' a'"
    and answers_back: "rel c a \<Longrightarrow> astep a e a' \<Longrightarrow> \<exists>c'. cstep c e c' \<and> rel c' a'"
begin

lemma trace_forth: "trace cstep cinit es c \<Longrightarrow> \<exists>a. trace astep ainit es a \<and> rel c a"
proof (induction rule: trace.induct)
  case trace_init
  show ?case using rel_init by (auto intro: trace.trace_init)
next
  case (trace_step es c e c')
  then obtain a where "trace astep ainit es a" "rel c a" by blast
  with answers_forth [OF this(2) trace_step.hyps(2)] show ?case by (blast intro: trace.trace_step)
qed

lemma trace_back: "trace astep ainit es a \<Longrightarrow> \<exists>c. trace cstep cinit es c \<and> rel c a"
proof (induction rule: trace.induct)
  case trace_init
  show ?case using rel_init by (auto intro: trace.trace_init)
next
  case (trace_step es a e a')
  then obtain c where "trace cstep cinit es c" "rel c a" by blast
  with answers_back [OF this(2) trace_step.hyps(2)] show ?case by (blast intro: trace.trace_step)
qed

lemma same_behaviours: "behaviours cstep cinit = behaviours astep ainit"
  unfolding behaviours_def using trace_forth trace_back by blast

end

locale exact_refinement = refinement +
  assumes answers: "good c \<Longrightarrow> astep (abs c) e a \<Longrightarrow> \<exists>c'. cstep c e c' \<and> abs c' = a"

sublocale exact_refinement \<subseteq> graph: bisimulation cstep cinit astep ainit "\<lambda>c a. good c \<and> abs c = a"
  by unfold_locales (use good_init abs_init good_step simulates answers in blast)+

context exact_refinement
begin

lemma trace_exact: "trace astep ainit es a \<longleftrightarrow> (\<exists>c. trace cstep cinit es c \<and> abs c = a)"
  using graph.trace_back trace_simulated by blast

lemma behaviours_equal: "behaviours cstep cinit = behaviours astep ainit"
  by (rule graph.same_behaviours)

end

end
