(* ===== verification/Router_Machine.thy ===== *)
theory Router_Machine
  imports Router_Props Refinement
begin

text \<open>
  The router as an abstract machine.  Its state is a finite table of routes for each verb,
  keyed by the shape of a pattern; nothing is left of the radix tree.  The steps of both
  machines are calls of \<^verbatim>\<open>Router::add_route\<close> and \<^verbatim>\<open>Router::match\<close> of
  \<^verbatim>\<open>src/Router.cpp\<close>, labelled with their arguments and what the caller sees of them.
\<close>

section \<open>Calls\<close>

datatype add_outcome = Added | Malformed | Duplicate

datatype ('v, 'h) router_call =
    CallAdd 'v string 'h add_outcome
  | CallMatch 'v string "('h route \<times> string list) option"

text \<open>What a client of the code sees of the outcome of \<open>add_route\<close>.\<close>

fun outcome_of :: "exn + unit \<Rightarrow> add_outcome option" where
  "outcome_of (Inr ()) = Some Added"
| "outcome_of (Inl (InvalidArgument m)) = Some (if m = ''Duplicate route'' then Duplicate else Malformed)"
| "outcome_of (Inl _) = None"

section \<open>The specification\<close>

type_synonym ('v, 'h) route_store = "'v \<Rightarrow> tok list \<rightharpoonup> 'h route"

definition store_outcome :: "('v, 'h) route_store \<Rightarrow> 'v \<Rightarrow> string \<Rightarrow> add_outcome" where
  "store_outcome m v p =
     (if \<not> well_formed p then Malformed else if m v (tokens p) = None then Added else Duplicate)"

definition store_add :: "('v, 'h) route_store \<Rightarrow> 'v \<Rightarrow> string \<Rightarrow> 'h \<Rightarrow> ('v, 'h) route_store" where
  "store_add m v p h =
     (if store_outcome m v p = Added then m(v := (m v)(tokens p \<mapsto> route_of p h)) else m)"

inductive store_step :: "('v, 'h) route_store \<Rightarrow> ('v, 'h) router_call \<Rightarrow> ('v, 'h) route_store \<Rightarrow> bool" where
  store_adds: "store_step m (CallAdd v p h (store_outcome m v p)) (store_add m v p h)"
| store_finds: "optimal {(ts, r). m v ts = Some r} (strip_query t) x \<Longrightarrow> store_step m (CallMatch v t x) m"

inductive_simps store_step_simps:
  "store_step m (CallAdd v p h x) m'" "store_step m (CallMatch v t y) m'"

section \<open>The implementation\<close>

inductive router_step :: "('v, 'h) router \<Rightarrow> ('v, 'h) router_call \<Rightarrow> ('v, 'h) router \<Rightarrow> bool" where
  router_adds: "add_route r v p h = (r', res) \<Longrightarrow> outcome_of res = Some x \<Longrightarrow>
    router_step r (CallAdd v p h x) r'"
| router_finds: "match_route r v t = Inr x \<Longrightarrow> router_step r (CallMatch v t (map_option match_pair x)) r"

inductive_simps router_step_simps:
  "router_step r (CallAdd v p h x) r'" "router_step r (CallMatch v t y) r'"

text \<open>The table that a router stands for.\<close>

definition routes_in :: "('v, 'h) router \<Rightarrow> ('v, 'h) route_store" where
  "routes_in r v = (case roots r v of Some (Some n) \<Rightarrow> map_of (entries n) | _ \<Rightarrow> Map.empty)"

lemma routes_in_iff:
  assumes "router_ok r"
  shows "routes_in r v ts = Some x \<longleftrightarrow> (ts, x) \<in> registered r v"
proof (cases "\<exists>n. roots r v = Some (Some n)")
  case True
  then obtain n where n: "roots r v = Some (Some n)" by blast
  then have "node_ok n" using assms by (simp add: router_ok_def node_wf_def)
  then have "map_of (entries n) ts = Some y" if "(ts, y) \<in> set (entries n)" for y
    using that entries_functional [of n ts y] by (metis map_of_SomeD weak_map_of_SomeI)
  with n show ?thesis by (auto simp: routes_in_def registered_def dest: map_of_SomeD)
next
  case False
  then show ?thesis by (auto simp: routes_in_def registered_def split: option.splits)
qed

lemma registered_routes_in: "router_ok r \<Longrightarrow> registered r v = {(ts, x). routes_in r v ts = Some x}"
  by (auto simp: routes_in_iff)

lemma validate_message:
  "validate_pattern p = Inl e \<Longrightarrow> \<exists>m. e = InvalidArgument m \<and> m \<noteq> ''Duplicate route''"
  using validate_loop_error by (auto simp: validate_pattern_def split: if_splits)

text \<open>One call of \<open>add_route\<close>, against the table.\<close>

lemma add_route_machine:
  assumes ok: "router_ok r" and add: "add_route r v p h = (r', res)"
  shows "outcome_of res = Some (store_outcome (routes_in r) v p)"
    and "router_ok r'" and "routes_in r' = store_add (routes_in r) v p h"
proof -
  have iff: "routes_in r v (tokens p) = None \<longleftrightarrow> (\<forall>x. (tokens p, x) \<notin> registered r v)"
    using routes_in_iff [OF ok] by (metis not_None_eq)
  have "outcome_of res = Some (store_outcome (routes_in r) v p) \<and> router_ok r'
    \<and> routes_in r' = store_add (routes_in r) v p h"
    using add_route_cases [OF ok, of p v h]
  proof (elim disjE conjE exE)
    fix e assume bad: "\<not> well_formed p" "add_route r v p h = (r, Inl e)"
    then have "validate_pattern p \<noteq> Inr ()" using validate_pattern_ok [of p] by auto
    then obtain e' where "validate_pattern p = Inl e'" by (cases "validate_pattern p") auto
    then obtain m where m: "validate_pattern p = Inl (InvalidArgument m)" "m \<noteq> ''Duplicate route''"
      using validate_message by blast
    with add have "r' = r" "res = Inl (InvalidArgument m)" by (simp_all add: add_route_def)
    with bad(1) m(2) ok show ?thesis by (simp add: store_outcome_def store_add_def)
  next
    fix x assume dup: "well_formed p" "(tokens p, x) \<in> registered r v"
      "add_route r v p h = (r, Inl (InvalidArgument ''Duplicate route''))"
    then have "routes_in r v (tokens p) \<noteq> None" using iff by blast
    with dup add ok show ?thesis by (auto simp: store_outcome_def store_add_def)
  next
    fix r1 assume new: "well_formed p" "\<forall>x. (tokens p, x) \<notin> registered r v"
      "add_route r v p h = (r1, Inr ())" "router_ok r1"
      "\<forall>w. registered r1 w = (if w = v then insert (tokens p, route_of p h) (registered r v)
                   else registered r w)"
    then have free: "routes_in r v (tokens p) = None" using iff by blast
    have "routes_in r1 w ts = Some x \<longleftrightarrow> store_add (routes_in r) v p h w ts = Some x" for w ts x
      using new(1,5) free
      by (auto simp: routes_in_iff [OF new(4)] routes_in_iff [OF ok, symmetric] store_add_def store_outcome_def)
    then have "routes_in r1 = store_add (routes_in r) v p h"
      by (intro ext) (metis option.exhaust)
    with new add free show ?thesis by (auto simp: store_outcome_def)
  qed
  then show "outcome_of res = Some (store_outcome (routes_in r) v p)"
    "router_ok r'" "routes_in r' = store_add (routes_in r) v p h" by simp_all
qed

lemma match_route_machine:
  assumes ok: "router_ok r"
  shows "(\<exists>x. match_route r v t = Inr x \<and> y = map_option match_pair x)
    \<longleftrightarrow> optimal {(ts, x). routes_in r v ts = Some x} (strip_query t) y"
proof -
  from match_route_optimal [OF ok, of v t] obtain x where
    x: "match_route r v t = Inr x" "optimal {(ts, x). routes_in r v ts = Some x} (strip_query t) (map_option match_pair x)"
    unfolding registered_routes_in [OF ok] by blast
  with optimal_unique [OF _ x(2), of y] show ?thesis by auto
qed

interpretation router_machine:
  exact_refinement router_step new_router store_step "\<lambda>_. Map.empty" router_ok routes_in
proof (unfold_locales, goal_cases)
  case 1
  show ?case by (simp add: router_ok_def new_router_def)
next
  case 2
  show ?case by (rule ext) (simp add: routes_in_def new_router_def)
next
  case (3 r call r')
  then show ?case by (cases call) (auto simp: router_step_simps dest: add_route_machine(2))
next
  case (4 r call r')
  show ?case
  proof (cases call)
    case (CallAdd v p h x)
    with 4(2) obtain res where "add_route r v p h = (r', res)" "outcome_of res = Some x"
      by (auto simp: router_step_simps)
    with add_route_machine [OF 4(1) this(1)] CallAdd show ?thesis
      by (auto simp: store_step_simps)
  next
    case (CallMatch v t x)
    with 4 match_route_machine [OF 4(1), of v t x] show ?thesis
      by (auto simp: router_step_simps store_step_simps)
  qed
next
  case (5 r call m)
  show ?case
  proof (cases call)
    case (CallAdd v p h x)
    obtain r' res where add: "add_route r v p h = (r', res)" by fastforce
    from add_route_machine [OF 5(1) add] 5(2) add CallAdd show ?thesis
      by (auto simp: router_step_simps store_step_simps)
  next
    case (CallMatch v t x)
    with 5 match_route_machine [OF 5(1), of v t x] show ?thesis
      by (auto simp: router_step_simps store_step_simps)
  qed
qed

end
