(* ===== verification/Router_Heap.thy ===== *)
theory Router_Heap
  imports Router_Machine
begin

text \<open>
  The router of \<^verbatim>\<open>src/Router.cpp\<close> a second time, with its nodes as objects in memory.
  \<open>Router_Model\<close> has the tree as a value; here a \<^verbatim>\<open>Node*\<close> and a
  \<^verbatim>\<open>std::unique_ptr<Node>\<close> are addresses, assignments change one cell, and a
  \<^verbatim>\<open>std::string_view\<close> of the target is an offset and a length.  So what the value model
  takes for granted becomes something to prove: that every pointer that the code follows
  leads to a node, that no two pointers own the same node, and that the search ends.

  Memory is the list of the nodes allocated so far and an address is an index into it.
  \<^verbatim>\<open>std::make_unique<Node>()\<close> appends a cell; the router frees no node before it is itself
  destroyed, so no address is used twice.  An operation is \<open>None\<close> when it does what C++
  leaves undefined (it follows a pointer that leads nowhere or takes the first character of
  an empty string), and for the search also when it recurses deeper than its fuel.
\<close>

section \<open>Memory\<close>

type_synonym addr = nat

record 'h cell =
  c_type :: node_type
  c_prefix :: string
  c_static :: "addr list"
  c_parameter :: "addr option"
  c_catch_all :: "addr option"
  c_route :: "'h route option"

type_synonym 'h memory = "'h cell list"

definition new_cell :: "node_type \<Rightarrow> string \<Rightarrow> 'h cell" where
  "new_cell ty pre = \<lparr>c_type = ty, c_prefix = pre, c_static = [], c_parameter = None,
     c_catch_all = None, c_route = None\<rparr>"

text \<open>Following a pointer, and assigning to the object behind it.\<close>

definition cell_at :: "'h memory \<Rightarrow> addr \<Rightarrow> 'h cell option" where
  "cell_at mem a = (if a < length mem then Some (mem ! a) else None)"

definition put_cell :: "'h memory \<Rightarrow> addr \<Rightarrow> 'h cell \<Rightarrow> 'h memory" where
  "put_cell mem a c = mem[a := c]"

section \<open>Insertion\<close>

text \<open>
  The split of the node at \<open>a\<close>: a new node takes the end of the prefix, and the children and
  the route are moved to it.  A moved-from \<^verbatim>\<open>unique_ptr\<close> is null; the moved-from vector and
  route are cleared and reset by the code.
\<close>

definition split_cell :: "nat \<Rightarrow> addr \<Rightarrow> 'h cell \<Rightarrow> 'h memory \<Rightarrow> 'h memory" where
  "split_cell n a child mem =
     (let suffix = child\<lparr>c_type := NStatic, c_prefix := drop n (c_prefix child)\<rparr>;
          child' = child\<lparr>c_prefix := take n (c_prefix child), c_static := [length mem],
            c_parameter := None, c_catch_all := None, c_route := None\<rparr>
      in put_cell (mem @ [suffix]) a child')"

text \<open>
  \<open>heap_insert_static\<close> and its loop over the static children of the parent, of which
  the third argument is what is left to visit.
\<close>

function heap_insert_static :: "'h memory \<Rightarrow> addr \<Rightarrow> string \<Rightarrow> ('h memory \<times> addr) option"
  and heap_insert_children :: "'h memory \<Rightarrow> addr \<Rightarrow> addr list \<Rightarrow> string \<Rightarrow> ('h memory \<times> addr) option" where
  "heap_insert_static mem parent text =
     (if text = [] then Some (mem, parent)
      else case cell_at mem parent of
        None \<Rightarrow> None
      | Some n \<Rightarrow> heap_insert_children mem parent (c_static n) text)"
| "heap_insert_children mem parent [] text =
     (case cell_at mem parent of
        None \<Rightarrow> None
      | Some n \<Rightarrow> Some (put_cell (mem @ [new_cell NStatic text]) parent
                     (n\<lparr>c_static := c_static n @ [length mem]\<rparr>), length mem))"
| "heap_insert_children mem parent (c # cs) text =
     (case cell_at mem c of
        None \<Rightarrow> None
      | Some child \<Rightarrow>
          if c_type child \<noteq> NStatic then heap_insert_children mem parent cs text
          else if text = [] \<or> c_prefix child = [] then None
          else if hd (c_prefix child) \<noteq> hd text then heap_insert_children mem parent cs text
          else
            (let n = common_prefix (c_prefix child) text;
                 mem1 = (if n < length (c_prefix child) then split_cell n c child mem else mem)
             in heap_insert_static mem1 c (drop n text)))"
  by pat_completeness auto

termination
proof (relation "measures [\<lambda>x. case x of Inl (m, p, t) \<Rightarrow> length t | Inr (m, p, cs, t) \<Rightarrow> length t,
      \<lambda>x. case x of Inl _ \<Rightarrow> 1 | Inr _ \<Rightarrow> 0,
      \<lambda>x. case x of Inl _ \<Rightarrow> 0 | Inr (m, p, cs, t) \<Rightarrow> length cs]", goal_cases)
  case (5 mem parent c cs tx child n mem1)
  then have ne: "tx \<noteq> []" "c_prefix child \<noteq> []" "hd (c_prefix child) = hd tx" by simp_all
  then have "0 < n" unfolding 5(5) by (intro common_prefix_pos)
  with ne(1) have "length (drop n tx) < length tx" by simp
  then show ?case by simp
qed simp_all

declare heap_insert_static.simps [simp del]

definition heap_insert_special :: "'h memory \<Rightarrow> addr \<Rightarrow> node_type \<Rightarrow> ('h memory \<times> (exn + addr)) option" where
  "heap_insert_special mem parent ty =
     (if ty = NStatic
      then Some (mem, Inl (InvalidArgument ''insert_special called with Static type''))
      else case cell_at mem parent of
        None \<Rightarrow> None
      | Some n \<Rightarrow>
          if c_type n = NParameter \<or> c_type n = NCatchAll
          then Some (mem, Inl (InvalidArgument ''Cannot insert a special node under another special node''))
          else if ty = NParameter
          then (case c_parameter n of
                  None \<Rightarrow> Some (put_cell (mem @ [new_cell NParameter []]) parent
                            (n\<lparr>c_parameter := Some (length mem)\<rparr>), Inr (length mem))
                | Some a \<Rightarrow> Some (mem, Inr a))
          else (case c_catch_all n of
                  None \<Rightarrow> Some (put_cell (mem @ [new_cell NCatchAll []]) parent
                            (n\<lparr>c_catch_all := Some (length mem)\<rparr>), Inr (length mem))
                | Some a \<Rightarrow> Some (mem, Inr a)))"

text \<open>One round of the loop of \<open>insert_route\<close>, and the loop.\<close>

definition heap_insert_token ::
  "'h memory \<Rightarrow> addr \<Rightarrow> string list \<Rightarrow> string \<Rightarrow> nat \<Rightarrow>
   ('h memory \<times> (exn + addr \<times> string list \<times> string)) option" where
  "heap_insert_token mem current names rest marker =
     (case (if marker \<noteq> 0 then heap_insert_static mem current (sv_substr rest 0 marker)
            else Some (mem, current)) of
        None \<Rightarrow> None
      | Some (mem1, current1) \<Rightarrow>
          (let rest1 = drop marker rest;
               catch_all = (hd rest1 = CHR ''*'');
               endp = token_end rest1;
               names1 = names @ [sv_substr rest1 1 (endp - 1)]
           in case heap_insert_special mem1 current1 (if catch_all then NCatchAll else NParameter) of
                None \<Rightarrow> None
              | Some (mem2, Inl e) \<Rightarrow> Some (mem2, Inl e)
              | Some (mem2, Inr current2) \<Rightarrow> Some (mem2, Inr (current2, names1, drop endp rest1))))"

lemma heap_insert_token_shorter:
  assumes "sv_find_first_of '':*'' rest 0 = Some marker"
    and "heap_insert_token mem current names rest marker = Some (mem2, Inr (current2, names1, rest2))"
  shows "length rest2 < length rest"
proof -
  from assms(2) have "rest2 = drop (token_end (drop marker rest)) (drop marker rest)"
    by (auto simp: heap_insert_token_def Let_def split: option.splits prod.splits sum.splits if_splits)
  moreover from first_of_drop [OF assms(1)] have "0 < token_end (drop marker rest)" "marker < length rest"
    by (auto intro: token_end_pos)
  ultimately show ?thesis by simp
qed

function heap_insert_loop ::
  "'h memory \<Rightarrow> addr \<Rightarrow> string list \<Rightarrow> string \<Rightarrow> ('h memory \<times> (exn + addr \<times> string list)) option" where
  "heap_insert_loop mem current names rest =
     (if rest = [] then Some (mem, Inr (current, names))
      else case sv_find_first_of '':*'' rest 0 of
        None \<Rightarrow> (case heap_insert_static mem current rest of
                  None \<Rightarrow> None
                | Some (mem1, current1) \<Rightarrow> Some (mem1, Inr (current1, names)))
      | Some marker \<Rightarrow>
          (case heap_insert_token mem current names rest marker of
             None \<Rightarrow> None
           | Some (mem2, Inl e) \<Rightarrow> Some (mem2, Inl e)
           | Some (mem2, Inr (current2, names1, rest2)) \<Rightarrow> heap_insert_loop mem2 current2 names1 rest2))"
  by pat_completeness auto

termination
  by (relation "measure (\<lambda>(mem, current, names, rest). length rest)")
    (auto intro: heap_insert_token_shorter)

declare heap_insert_loop.simps [simp del]

section \<open>The router object\<close>

record ('v, 'h) heap_router =
  hr_memory :: "'h memory"
  hr_roots :: "'v \<Rightarrow> addr option option"

definition new_heap_router :: "('v, 'h) heap_router" where
  "new_heap_router = \<lparr>hr_memory = [], hr_roots = (\<lambda>_. None)\<rparr>"

text \<open>\<^verbatim>\<open>roots_[method]\<close>, with a new node when there is none.\<close>

definition heap_root :: "('v, 'h) heap_router \<Rightarrow> 'v \<Rightarrow> ('v, 'h) heap_router \<times> addr" where
  "heap_root r method =
     (case hr_roots r method of
        Some (Some a) \<Rightarrow> (r, a)
      | _ \<Rightarrow> (\<lparr>hr_memory = hr_memory r @ [new_cell NStatic []],
              hr_roots = (hr_roots r)(method \<mapsto> Some (length (hr_memory r)))\<rparr>, length (hr_memory r)))"

definition heap_insert_route ::
  "('v, 'h) heap_router \<Rightarrow> 'v \<Rightarrow> string \<Rightarrow> 'h \<Rightarrow> (('v, 'h) heap_router \<times> (exn + unit)) option" where
  "heap_insert_route r0 method pattern handler =
     (case heap_root r0 method of
        (r, root) \<Rightarrow>
          (case heap_insert_loop (hr_memory r) root [] pattern of
             None \<Rightarrow> None
           | Some (mem, Inl e) \<Rightarrow> Some (r\<lparr>hr_memory := mem\<rparr>, Inl e)
           | Some (mem, Inr (current, names)) \<Rightarrow>
               (case cell_at mem current of
                  None \<Rightarrow> None
                | Some n \<Rightarrow>
                    if c_route n \<noteq> None
                    then Some (r\<lparr>hr_memory := mem\<rparr>, Inl (InvalidArgument ''Duplicate route''))
                    else Some (r\<lparr>hr_memory := put_cell mem current
                           (n\<lparr>c_route := Some \<lparr>r_handler = handler, r_parameter_names = names\<rparr>\<rparr>)\<rparr>,
                         Inr ()))))"

definition heap_add_route ::
  "('v, 'h) heap_router \<Rightarrow> 'v \<Rightarrow> string \<Rightarrow> 'h \<Rightarrow> (('v, 'h) heap_router \<times> (exn + unit)) option" where
  "heap_add_route r method pattern handler =
     (case validate_pattern pattern of
        Inl e \<Rightarrow> Some (r, Inl e)
      | Inr _ \<Rightarrow> heap_insert_route r method pattern handler)"

section \<open>Matching\<close>

text \<open>
  A parameter value is a view of the target: where it starts and how long it is.  The fuel
  bounds the depth of the recursion of the lambda \<open>search\<close>.
\<close>

type_synonym view = "nat \<times> nat"

definition view_text :: "string \<Rightarrow> view \<Rightarrow> string" where
  "view_text target v = sv_substr target (fst v) (snd v)"

function heap_search :: "nat \<Rightarrow> 'h memory \<Rightarrow> string \<Rightarrow> addr \<Rightarrow> nat \<Rightarrow> view list \<Rightarrow> (addr option \<times> view list) option"
  and heap_search_static ::
    "nat \<Rightarrow> 'h memory \<Rightarrow> string \<Rightarrow> addr list \<Rightarrow> nat \<Rightarrow> view list \<Rightarrow> (addr option \<times> view list) option"
  and heap_search_parameter ::
    "nat \<Rightarrow> 'h memory \<Rightarrow> string \<Rightarrow> addr option \<Rightarrow> nat \<Rightarrow> view list \<Rightarrow> (addr option \<times> view list) option" where
  "heap_search 0 mem target a position vals = None"
| "heap_search (Suc fuel) mem target a position vals =
     (case cell_at mem a of
        None \<Rightarrow> None
      | Some node \<Rightarrow>
          if position = length target \<and> c_route node \<noteq> None then Some (Some a, vals)
          else
            (case heap_search_static fuel mem target (c_static node) position vals of
               None \<Rightarrow> None
             | Some (Some m, vals1) \<Rightarrow> Some (Some m, vals1)
             | Some (None, vals1) \<Rightarrow>
                 (case heap_search_parameter fuel mem target (c_parameter node) position vals1 of
                    None \<Rightarrow> None
                  | Some (Some m, vals2) \<Rightarrow> Some (Some m, vals2)
                  | Some (None, vals2) \<Rightarrow>
                      (case c_catch_all node of
                         None \<Rightarrow> Some (None, vals2)
                       | Some b \<Rightarrow>
                           (case cell_at mem b of
                              None \<Rightarrow> None
                            | Some c \<Rightarrow>
                                if c_route c \<noteq> None \<and> drop position target \<noteq> []
                                   \<and> drop position target \<noteq> ''/''
                                then Some (Some b, vals2 @ [(position, length target - position)])
                                else Some (None, vals2))))))"
| "heap_search_static fuel mem target [] position vals = Some (None, vals)"
| "heap_search_static fuel mem target (a # as) position vals =
     (case cell_at mem a of
        None \<Rightarrow> None
      | Some child \<Rightarrow>
          if sv_substr (drop position target) 0 (length (c_prefix child)) \<noteq> c_prefix child
          then heap_search_static fuel mem target as position vals
          else
            (let saved = length vals
             in case heap_search fuel mem target a (position + length (c_prefix child)) vals of
                  None \<Rightarrow> None
                | Some (Some m, vals1) \<Rightarrow> Some (Some m, vals1)
                | Some (None, vals1) \<Rightarrow> heap_search_static fuel mem target as position (take saved vals1)))"
| "heap_search_parameter fuel mem target None position vals = Some (None, vals)"
| "heap_search_parameter fuel mem target (Some a) position vals =
     (if position < length target \<and> target ! position \<noteq> CHR ''/''
      then
        (let endp = segment_end target position;
             saved = length vals
         in case heap_search fuel mem target a endp (vals @ [(position, endp - position)]) of
              None \<Rightarrow> None
            | Some (Some m, vals1) \<Rightarrow> Some (Some m, vals1)
            | Some (None, vals1) \<Rightarrow> Some (None, take saved vals1))
      else Some (None, vals))"
  by pat_completeness auto

termination
  by (relation "measures [\<lambda>x. case x of Inl (f, m, t, a, p, v) \<Rightarrow> f
        | Inr (Inl (f, m, t, as, p, v)) \<Rightarrow> f | Inr (Inr (f, m, t, a, p, v)) \<Rightarrow> f,
      \<lambda>x. case x of Inl _ \<Rightarrow> 0 | Inr (Inl (f, m, t, as, p, v)) \<Rightarrow> Suc (length as) | Inr (Inr _) \<Rightarrow> 1]")
    auto

text \<open>
  \<^verbatim>\<open>MatchResult\<close> holds a reference to the route inside a node, here the node's address.
  No recursion is deeper than the target is long, and one.
\<close>

record heap_match =
  hm_node :: addr
  hm_values :: "view list"

definition heap_match_route ::
  "('v, 'h) heap_router \<Rightarrow> 'v \<Rightarrow> string \<Rightarrow> (exn + heap_match option) option" where
  "heap_match_route r method target =
     (case hr_roots r method of
        None \<Rightarrow> Some (Inr None)
      | Some None \<Rightarrow> Some (Inr None)
      | Some (Some root) \<Rightarrow>
          (let text = strip_query target
           in case heap_search (Suc (length text)) (hr_memory r) text root 0 [] of
                None \<Rightarrow> None
              | Some (None, vals) \<Rightarrow> Some (Inr None)
              | Some (Some a, vals) \<Rightarrow>
                  (case cell_at (hr_memory r) a of
                     None \<Rightarrow> None
                   | Some n \<Rightarrow>
                       (case c_route n of
                          None \<Rightarrow> Some (Inl BadOptionalAccess)
                        | Some _ \<Rightarrow> Some (Inr (Some \<lparr>hm_node = a, hm_values = vals\<rparr>))))))"

text \<open>Reading the route that a match result refers to; \<open>None\<close> is a dangling reference.\<close>

definition route_behind :: "('v, 'h) heap_router \<Rightarrow> heap_match \<Rightarrow> 'h route option" where
  "route_behind r m = (case cell_at (hr_memory r) (hm_node m) of None \<Rightarrow> None | Some n \<Rightarrow> c_route n)"

text \<open>What a caller reads from a match result while the target is alive.\<close>

definition read_match :: "('v, 'h) heap_router \<Rightarrow> string \<Rightarrow> heap_match \<Rightarrow> ('h route \<times> string list) option" where
  "read_match r target m =
     map_option (\<lambda>x. (x, map (view_text target) (hm_values m))) (route_behind r m)"

end
