(* ===== verification/Router_Ownership.thy ===== *)
theory Router_Ownership
  imports Router_Heap
begin

text \<open>
  When memory holds a tree.  \<open>stored mem a n S\<close> says that the node at address \<open>a\<close> and what
  hangs below it is the tree \<open>n\<close>, kept in the cells \<open>S\<close>, none of which is reached twice: the
  ownership that \<^verbatim>\<open>std::unique_ptr\<close> is meant to give.  The lemmas frame it (cells outside
  \<open>S\<close> do not matter), follow pointers through it, and replace a subtree in place.
\<close>

section \<open>Trees in memory\<close>

inductive stored :: "'h memory \<Rightarrow> addr \<Rightarrow> 'h node \<Rightarrow> addr set \<Rightarrow> bool"
  and stored_all :: "'h memory \<Rightarrow> addr list \<Rightarrow> 'h node list \<Rightarrow> addr set \<Rightarrow> bool"
  and stored_opt :: "'h memory \<Rightarrow> addr option \<Rightarrow> 'h node option \<Rightarrow> addr set \<Rightarrow> bool"
  for mem :: "'h memory" where
  stored_node: "cell_at mem a = Some c \<Longrightarrow> stored_all mem (c_static c) ss A \<Longrightarrow>
    stored_opt mem (c_parameter c) pm B \<Longrightarrow> stored_opt mem (c_catch_all c) ca C \<Longrightarrow>
    A \<inter> B = {} \<Longrightarrow> A \<inter> C = {} \<Longrightarrow> B \<inter> C = {} \<Longrightarrow> a \<notin> A \<union> B \<union> C \<Longrightarrow>
    stored mem a (Node (c_type c) (c_prefix c) ss pm ca (c_route c)) (insert a (A \<union> B \<union> C))"
| stored_Nil: "stored_all mem [] [] {}"
| stored_Cons: "stored mem a n A \<Longrightarrow> stored_all mem as ns B \<Longrightarrow> A \<inter> B = {} \<Longrightarrow>
    stored_all mem (a # as) (n # ns) (A \<union> B)"
| stored_None: "stored_opt mem None None {}"
| stored_Some: "stored mem a n A \<Longrightarrow> stored_opt mem (Some a) (Some n) A"

inductive_simps stored_all_simps [simp]:
  "stored_all mem [] ns S" "stored_all mem as [] S"
inductive_simps stored_all_Cons: "stored_all mem (a # as) ns S" "stored_all mem as (n # ns) S"
inductive_simps stored_opt_simps [simp]:
  "stored_opt mem None pm S" "stored_opt mem pa None S" "stored_opt mem (Some a) pm S"
inductive_simps stored_opt_Some: "stored_opt mem pa (Some n) S"
inductive_cases stored_elim: "stored mem a n S"

text \<open>The part of a tree below its own cell.\<close>

definition below :: "'h memory \<Rightarrow> 'h cell \<Rightarrow> 'h node \<Rightarrow> addr set \<Rightarrow> bool" where
  "below mem c n T \<longleftrightarrow> (\<exists>A B C. stored_all mem (c_static c) (n_static n) A
     \<and> stored_opt mem (c_parameter c) (n_parameter n) B \<and> stored_opt mem (c_catch_all c) (n_catch_all n) C
     \<and> A \<inter> B = {} \<and> A \<inter> C = {} \<and> B \<inter> C = {} \<and> T = A \<union> B \<union> C)"

definition labels :: "'h cell \<Rightarrow> 'h node \<Rightarrow> bool" where
  "labels c n \<longleftrightarrow> n_type n = c_type c \<and> n_prefix n = c_prefix c \<and> n_route n = c_route c"

lemma stored_iff:
  "stored mem a n S \<longleftrightarrow> (\<exists>c T. cell_at mem a = Some c \<and> labels c n \<and> below mem c n T \<and> a \<notin> T \<and> S = insert a T)"
proof
  assume "stored mem a n S"
  then show "\<exists>c T. cell_at mem a = Some c \<and> labels c n \<and> below mem c n T \<and> a \<notin> T \<and> S = insert a T"
    by (elim stored_elim) (auto simp: labels_def below_def)
next
  assume "\<exists>c T. cell_at mem a = Some c \<and> labels c n \<and> below mem c n T \<and> a \<notin> T \<and> S = insert a T"
  then show "stored mem a n S"
    by (cases n) (auto simp: labels_def below_def intro!: stored_node)
qed

lemma storedI: "cell_at mem a = Some c \<Longrightarrow> labels c n \<Longrightarrow> below mem c n T \<Longrightarrow> a \<notin> T \<Longrightarrow> stored mem a n (insert a T)"
  by (auto simp: stored_iff)

section \<open>Cells\<close>

lemma cell_at_Some: "cell_at mem a = Some c \<longleftrightarrow> a < length mem \<and> mem ! a = c"
  by (auto simp: cell_at_def)

lemma cell_at_put [simp]: "cell_at (put_cell mem a c) x = (if x = a \<and> a < length mem then Some c else cell_at mem x)"
  by (simp add: cell_at_def put_cell_def)

lemma length_put_cell [simp]: "length (put_cell mem a c) = length mem"
  by (simp add: put_cell_def)

lemma cell_at_append [simp]: "cell_at (mem @ [c]) x = (if x = length mem then Some c else cell_at mem x)"
  by (simp add: cell_at_def nth_append)

lemma new_cell_simps [simp]:
  "c_type (new_cell ty pre) = ty" "c_prefix (new_cell ty pre) = pre" "c_static (new_cell ty pre) = []"
  "c_parameter (new_cell ty pre) = None" "c_catch_all (new_cell ty pre) = None" "c_route (new_cell ty pre) = None"
  by (simp_all add: new_cell_def)

lemma stored_cells:
  "stored mem a n S \<Longrightarrow> a \<in> S \<and> S \<subseteq> {..<length mem}"
  "stored_all mem as ns S \<Longrightarrow> S \<subseteq> {..<length mem}"
  "stored_opt mem pa pm S \<Longrightarrow> S \<subseteq> {..<length mem}"
  by (induction rule: stored_stored_all_stored_opt.inducts) (auto simp: cell_at_Some)

section \<open>Framing\<close>

definition agrees :: "'h memory \<Rightarrow> 'h memory \<Rightarrow> addr set \<Rightarrow> bool" where
  "agrees mem mem' S \<longleftrightarrow> (\<forall>x\<in>S. cell_at mem' x = cell_at mem x)"

lemma agrees_simps [simp]:
  "agrees mem mem' (insert a S) \<longleftrightarrow> cell_at mem' a = cell_at mem a \<and> agrees mem mem' S"
  "agrees mem mem' (S \<union> T) \<longleftrightarrow> agrees mem mem' S \<and> agrees mem mem' T"
  by (auto simp: agrees_def)

lemma stored_frame:
  "stored mem a n S \<Longrightarrow> agrees mem mem' S \<Longrightarrow> stored mem' a n S"
  "stored_all mem as ns S \<Longrightarrow> agrees mem mem' S \<Longrightarrow> stored_all mem' as ns S"
  "stored_opt mem pa pm S \<Longrightarrow> agrees mem mem' S \<Longrightarrow> stored_opt mem' pa pm S"
  by (induction rule: stored_stored_all_stored_opt.inducts)
    (auto intro: stored_stored_all_stored_opt.intros)

lemma below_frame:
  assumes "below mem c n T" "agrees mem mem' T"
  shows "below mem' c n T"
  using assms stored_frame(2,3) [of mem _ _ _ mem'] unfolding below_def by (metis agrees_simps(2))

text \<open>What an operation on the cells \<open>S\<close> does to memory: it may allocate, it changes no other
  cell, and the cells \<open>S'\<close> that it leaves are those and new ones.\<close>

definition grows :: "addr set \<Rightarrow> 'h memory \<Rightarrow> addr set \<Rightarrow> 'h memory \<Rightarrow> bool" where
  "grows S mem S' mem' \<longleftrightarrow> length mem \<le> length mem' \<and> agrees mem mem' ({..<length mem} - S)
     \<and> S \<subseteq> S' \<and> S' \<subseteq> S \<union> {length mem..<length mem'}"

lemma grows_refl [simp]: "grows S mem S mem"
  by (auto simp: grows_def agrees_def)

lemma grows_trans:
  assumes "grows S mem S1 mem1" "grows S1 mem1 S2 mem2"
  shows "grows S mem S2 mem2"
proof -
  have "agrees mem mem2 ({..<length mem} - S)"
    unfolding agrees_def
  proof
    fix x assume x: "x \<in> {..<length mem} - S"
    then have "cell_at mem1 x = cell_at mem x" using assms(1) by (auto simp: grows_def agrees_def)
    moreover have "x \<in> {..<length mem1} - S1" using x assms(1) by (auto simp: grows_def)
    then have "cell_at mem2 x = cell_at mem1 x" using assms(2) by (auto simp: grows_def agrees_def)
    ultimately show "cell_at mem2 x = cell_at mem x" by simp
  qed
  moreover have "S2 \<subseteq> S \<union> {length mem..<length mem2}" using assms by (fastforce simp: grows_def)
  ultimately show ?thesis using assms by (auto simp: grows_def)
qed

lemma grows_frame:
  assumes "grows S mem S' mem'" "T \<subseteq> {..<length mem}" "T \<inter> S = {}"
  shows "agrees mem mem' T" "T \<inter> S' = {}"
  using assms by (fastforce simp: grows_def agrees_def)+

lemma grows_add: "grows S mem S' mem' \<Longrightarrow> grows (S \<union> T) mem (S' \<union> T) mem'"
  by (auto simp: grows_def agrees_def)

lemma grows_insert: "grows S mem S' mem' \<Longrightarrow> grows (insert a S) mem (insert a S') mem'"
  using grows_add [of S mem S' mem' "{a}"] by simp

section \<open>Following pointers\<close>

fun follow :: "'h memory \<Rightarrow> addr \<Rightarrow> node_ptr \<Rightarrow> addr option" where
  "follow mem a [] = Some a"
| "follow mem a (StaticEdge i # p) =
     (case cell_at mem a of
        None \<Rightarrow> None
      | Some c \<Rightarrow> if i < length (c_static c) then follow mem (c_static c ! i) p else None)"
| "follow mem a (ParameterEdge # p) =
     (case cell_at mem a of
        None \<Rightarrow> None
      | Some c \<Rightarrow> (case c_parameter c of None \<Rightarrow> None | Some b \<Rightarrow> follow mem b p))"
| "follow mem a (CatchAllEdge # p) =
     (case cell_at mem a of
        None \<Rightarrow> None
      | Some c \<Rightarrow> (case c_catch_all c of None \<Rightarrow> None | Some b \<Rightarrow> follow mem b p))"

lemma stored_all_length: "stored_all mem as ns S \<Longrightarrow> length as = length ns"
  by (induction ns arbitrary: as S) (auto simp: stored_all_Cons)

text \<open>A child can be exchanged for another tree at the same address.\<close>

lemma stored_all_update:
  assumes "stored_all mem as ns S" "i < length ns"
  shows "\<exists>A R. stored mem (as ! i) (ns ! i) A \<and> A \<inter> R = {} \<and> S = A \<union> R \<and>
    (\<forall>mem' n' A'. stored mem' (as ! i) n' A' \<longrightarrow> agrees mem mem' R \<longrightarrow> A' \<inter> R = {} \<longrightarrow>
       stored_all mem' as (ns[i := n']) (A' \<union> R))"
  using assms
proof (induction ns arbitrary: as S i)
  case (Cons n ns)
  from Cons.prems(1) obtain a as' A B where as: "as = a # as'" "stored mem a n A" "stored_all mem as' ns B"
    "A \<inter> B = {}" "S = A \<union> B" by (auto simp: stored_all_Cons)
  show ?case
  proof (cases i)
    case 0
    have "stored_all mem' as (n' # ns) (A' \<union> B)"
      if "stored mem' a n' A'" "agrees mem mem' B" "A' \<inter> B = {}" for mem' n' A'
      unfolding as(1) by (rule stored_Cons [OF that(1) stored_frame(2) [OF as(3) that(2)] that(3)])
    moreover have "stored mem (as ! i) ((n # ns) ! i) A" "as ! i = a" "(n # ns)[i := n'] = n' # ns" for n'
      using as(1,2) 0 by simp_all
    ultimately show ?thesis using as(4,5) by metis
  next
    case (Suc j)
    from Cons.IH [OF as(3), of j] Suc Cons.prems(2) obtain A1 R where
      r: "stored mem (as' ! j) (ns ! j) A1" "A1 \<inter> R = {}" "B = A1 \<union> R"
      "\<And>mem' n' A'. stored mem' (as' ! j) n' A' \<Longrightarrow> agrees mem mem' R \<Longrightarrow> A' \<inter> R = {} \<Longrightarrow>
         stored_all mem' as' (ns[j := n']) (A' \<union> R)" by auto
    have "stored_all mem' as (n # ns[j := n']) (A' \<union> (A \<union> R))"
      if "stored mem' (as' ! j) n' A'" "agrees mem mem' (A \<union> R)" "A' \<inter> (A \<union> R) = {}" for mem' n' A'
    proof -
      have "stored_all mem' as' (ns[j := n']) (A' \<union> R)" using that by (intro r(4)) auto
      moreover have "stored mem' a n A" using as(2) that(2) by (auto intro: stored_frame)
      moreover have "A \<inter> (A' \<union> R) = {}" using that(3) as(4) r(3) by auto
      ultimately have "stored_all mem' (a # as') (n # ns[j := n']) (A \<union> (A' \<union> R))"
        by (intro stored_Cons)
      then show ?thesis unfolding as(1) by (simp add: Un_left_commute)
    qed
    moreover have "A1 \<inter> (A \<union> R) = {}" "S = A1 \<union> (A \<union> R)" using r(2,3) as(4,5) by auto
    moreover have "as ! i = as' ! j" "(n # ns) ! i = ns ! j" "(n # ns)[i := n'] = n # ns[j := n']" for n'
      using as(1) Suc by simp_all
    ultimately show ?thesis using r(1) by metis
  qed
qed simp

text \<open>The same for any node that a pointer of the value model leads to.\<close>

definition focus :: "'h memory \<Rightarrow> addr \<Rightarrow> 'h node \<Rightarrow> addr set \<Rightarrow> node_ptr \<Rightarrow> addr \<Rightarrow> addr set \<Rightarrow> addr set \<Rightarrow> bool" where
  "focus mem r t S p a A R \<longleftrightarrow> follow mem r p = Some a \<and> A \<inter> R = {} \<and> S = A \<union> R \<and>
    (\<forall>mem' n' A' q. stored mem' a n' A' \<longrightarrow> agrees mem mem' R \<longrightarrow> A' \<inter> R = {} \<longrightarrow>
       stored mem' r (put_at t p n') (A' \<union> R) \<and> follow mem' r (p @ q) = follow mem' a q)"

lemma focusI:
  assumes "follow mem r p = Some a" "A \<inter> R = {}" "S = A \<union> R"
    and "\<And>mem' n' A' q. stored mem' a n' A' \<Longrightarrow> agrees mem mem' R \<Longrightarrow> A' \<inter> R = {} \<Longrightarrow>
       stored mem' r (put_at t p n') (A' \<union> R) \<and> follow mem' r (p @ q) = follow mem' a q"
  shows "focus mem r t S p a A R"
  using assms by (simp add: focus_def)

lemma focusD:
  assumes "focus mem r t S p a A R"
  shows "follow mem r p = Some a" "A \<inter> R = {}" "S = A \<union> R"
    and "stored mem' a n' A' \<Longrightarrow> agrees mem mem' R \<Longrightarrow> A' \<inter> R = {} \<Longrightarrow>
       stored mem' r (put_at t p n') (A' \<union> R) \<and> follow mem' r (p @ q) = follow mem' a q"
  using assms unfolding focus_def by blast+

text \<open>A tree and its parts.\<close>

lemma stored_parts:
  assumes "stored mem r t S"
  obtains c A B C where "cell_at mem r = Some c" "labels c t" "S = insert r (A \<union> B \<union> C)" "r \<notin> A" "r \<notin> B" "r \<notin> C"
    "A \<inter> B = {}" "A \<inter> C = {}" "B \<inter> C = {}" "stored_all mem (c_static c) (n_static t) A"
    "stored_opt mem (c_parameter c) (n_parameter t) B" "stored_opt mem (c_catch_all c) (n_catch_all t) C"
  using assms by (auto simp: stored_iff below_def)

lemma stored_partsI:
  assumes "cell_at mem r = Some c" "labels c t" "r \<notin> A" "r \<notin> B" "r \<notin> C"
    "A \<inter> B = {}" "A \<inter> C = {}" "B \<inter> C = {}" "stored_all mem (c_static c) (n_static t) A"
    "stored_opt mem (c_parameter c) (n_parameter t) B" "stored_opt mem (c_catch_all c) (n_catch_all t) C"
  shows "stored mem r t (insert r (A \<union> B \<union> C))"
  using assms by (intro storedI [of _ _ c]) (auto simp: below_def)

lemma setter_labels [simp]:
  "labels c (set_static cs t) = labels c t" "labels c (set_parameter pm t) = labels c t"
  "labels c (set_catch_all ca t) = labels c t"
  by (simp_all add: labels_def)

lemma focus_static:
  assumes r: "stored mem r t S" and i: "i < length (n_static t)"
  shows "\<exists>b B R. stored mem b (n_static t ! i) B \<and> focus mem r t S [StaticEdge i] b B R"
  using r
proof (rule stored_parts)
  fix c A B C
  assume c: "cell_at mem r = Some c" "labels c t" "S = insert r (A \<union> B \<union> C)" "r \<notin> A" "r \<notin> B" "r \<notin> C"
    "A \<inter> B = {}" "A \<inter> C = {}" "B \<inter> C = {}" "stored_all mem (c_static c) (n_static t) A"
    "stored_opt mem (c_parameter c) (n_parameter t) B" "stored_opt mem (c_catch_all c) (n_catch_all t) C"
  have len: "i < length (c_static c)" using stored_all_length [OF c(10)] i by simp
  from stored_all_update [OF c(10) i] obtain A1 R1 where
    u: "stored mem (c_static c ! i) (n_static t ! i) A1" "A1 \<inter> R1 = {}" "A = A1 \<union> R1"
    "\<And>mem' n' A'. stored mem' (c_static c ! i) n' A' \<Longrightarrow> agrees mem mem' R1 \<Longrightarrow> A' \<inter> R1 = {} \<Longrightarrow>
       stored_all mem' (c_static c) ((n_static t)[i := n']) (A' \<union> R1)" by blast
  let ?R = "insert r (R1 \<union> B \<union> C)"
  have "focus mem r t S [StaticEdge i] (c_static c ! i) A1 ?R"
  proof (rule focusI)
    show "follow mem r [StaticEdge i] = Some (c_static c ! i)" using c(1) len by simp
    show "A1 \<inter> ?R = {}" "S = A1 \<union> ?R" using c(3-9) u(2,3) by blast+
    fix mem' n' A' q
    assume n': "stored mem' (c_static c ! i) n' A'" "agrees mem mem' ?R" "A' \<inter> ?R = {}"
    have cell: "cell_at mem' r = Some c" using c(1) n'(2) by simp
    have "stored mem' r (set_static ((n_static t)[i := n']) t) (insert r ((A' \<union> R1) \<union> B \<union> C))"
      using c u(3) n' cell by (intro stored_partsI [of _ _ c]) (auto intro: u(4) stored_frame)
    then show "stored mem' r (put_at t [StaticEdge i] n') (A' \<union> ?R) \<and>
        follow mem' r ([StaticEdge i] @ q) = follow mem' (c_static c ! i) q"
      using i len cell by (simp add: Un_ac)
  qed
  with u(1) show ?thesis by blast
qed

lemma focus_parameter:
  assumes r: "stored mem r t S" and p: "n_parameter t = Some m"
  shows "\<exists>b B R. stored mem b m B \<and> focus mem r t S [ParameterEdge] b B R"
  using r
proof (rule stored_parts)
  fix c A B C
  assume c: "cell_at mem r = Some c" "labels c t" "S = insert r (A \<union> B \<union> C)" "r \<notin> A" "r \<notin> B" "r \<notin> C"
    "A \<inter> B = {}" "A \<inter> C = {}" "B \<inter> C = {}" "stored_all mem (c_static c) (n_static t) A"
    "stored_opt mem (c_parameter c) (n_parameter t) B" "stored_opt mem (c_catch_all c) (n_catch_all t) C"
  from c(11) p obtain b where b: "c_parameter c = Some b" "stored mem b m B" by (auto simp: stored_opt_Some)
  let ?R = "insert r (A \<union> C)"
  have "focus mem r t S [ParameterEdge] b B ?R"
  proof (rule focusI)
    show "follow mem r [ParameterEdge] = Some b" using c(1) b(1) by simp
    show "B \<inter> ?R = {}" "S = B \<union> ?R" using c(3-9) by blast+
    fix mem' n' B' q
    assume n': "stored mem' b n' B'" "agrees mem mem' ?R" "B' \<inter> ?R = {}"
    have cell: "cell_at mem' r = Some c" using c(1) n'(2) by simp
    have "stored mem' r (set_parameter (Some n') t) (insert r (A \<union> B' \<union> C))"
      using c n' cell b(1) by (intro stored_partsI [of _ _ c]) (auto intro: stored_frame)
    then show "stored mem' r (put_at t [ParameterEdge] n') (B' \<union> ?R) \<and>
        follow mem' r ([ParameterEdge] @ q) = follow mem' b q"
      using p cell b(1) by (simp add: Un_ac)
  qed
  with b(2) show ?thesis by blast
qed

lemma focus_catch_all:
  assumes r: "stored mem r t S" and p: "n_catch_all t = Some m"
  shows "\<exists>b B R. stored mem b m B \<and> focus mem r t S [CatchAllEdge] b B R"
  using r
proof (rule stored_parts)
  fix c A B C
  assume c: "cell_at mem r = Some c" "labels c t" "S = insert r (A \<union> B \<union> C)" "r \<notin> A" "r \<notin> B" "r \<notin> C"
    "A \<inter> B = {}" "A \<inter> C = {}" "B \<inter> C = {}" "stored_all mem (c_static c) (n_static t) A"
    "stored_opt mem (c_parameter c) (n_parameter t) B" "stored_opt mem (c_catch_all c) (n_catch_all t) C"
  from c(12) p obtain b where b: "c_catch_all c = Some b" "stored mem b m C" by (auto simp: stored_opt_Some)
  let ?R = "insert r (A \<union> B)"
  have "focus mem r t S [CatchAllEdge] b C ?R"
  proof (rule focusI)
    show "follow mem r [CatchAllEdge] = Some b" using c(1) b(1) by simp
    show "C \<inter> ?R = {}" "S = C \<union> ?R" using c(3-9) by blast+
    fix mem' n' C' q
    assume n': "stored mem' b n' C'" "agrees mem mem' ?R" "C' \<inter> ?R = {}"
    have cell: "cell_at mem' r = Some c" using c(1) n'(2) by simp
    have "stored mem' r (set_catch_all (Some n') t) (insert r (A \<union> B \<union> C'))"
      using c n' cell b(1) by (intro stored_partsI [of _ _ c]) (auto intro: stored_frame)
    then show "stored mem' r (put_at t [CatchAllEdge] n') (C' \<union> ?R) \<and>
        follow mem' r ([CatchAllEdge] @ q) = follow mem' b q"
      using p cell b(1) by (simp add: Un_ac)
  qed
  with b(2) show ?thesis by blast
qed

lemma focus_edge:
  assumes "stored mem r t S" "node_at t [e] = Some m"
  shows "\<exists>b B R. stored mem b m B \<and> focus mem r t S [e] b B R"
  using assms focus_static focus_parameter focus_catch_all
  by (cases e) (fastforce split: if_splits option.splits)+

text \<open>Every pointer of the value model leads to an address that owns that subtree, and whatever
  tree is put there is put into the whole tree.\<close>

lemma stored_focus:
  assumes "stored mem r t S" "node_at t p = Some n"
  shows "\<exists>a A R. stored mem a n A \<and> focus mem r t S p a A R"
  using assms
proof (induction p arbitrary: r t S)
  case Nil
  then have "focus mem r t S [] r S {}" by (intro focusI) auto
  with Nil show ?case by auto
next
  case (Cons e p)
  then obtain m where m: "node_at t [e] = Some m" "node_at m p = Some n"
    by (auto simp: node_at_Cons [of t e p] split: option.splits)
  obtain b B R where b: "stored mem b m B" "focus mem r t S [e] b B R"
    using focus_edge [OF Cons.prems(1) m(1)] by blast
  obtain a A Q where a: "stored mem a n A" "focus mem b m B p a A Q"
    using Cons.IH [OF b(1) m(2)] by blast
  have "focus mem r t S (e # p) a A (Q \<union> R)"
  proof (rule focusI)
    have "follow mem r ([e] @ p) = follow mem b p"
      using focusD(4) [OF b(2), of mem m B p] b(1) focusD(2) [OF b(2)] by (simp add: agrees_def)
    then show "follow mem r (e # p) = Some a" using focusD(1) [OF a(2)] by simp
    show "A \<inter> (Q \<union> R) = {}" "S = A \<union> (Q \<union> R)" using focusD(2,3) [OF a(2)] focusD(2,3) [OF b(2)] by auto
    fix mem' n' A' q
    assume n': "stored mem' a n' A'" "agrees mem mem' (Q \<union> R)" "A' \<inter> (Q \<union> R) = {}"
    then have s: "stored mem' b (put_at m p n') (A' \<union> Q)" "follow mem' b (p @ q) = follow mem' a q"
      using focusD(4) [OF a(2), of mem' n' A' q] by auto
    have "(A' \<union> Q) \<inter> R = {}" using n'(3) focusD(2,3) [OF a(2)] focusD(2) [OF b(2)] by auto
    then have "stored mem' r (put_at t [e] (put_at m p n')) ((A' \<union> Q) \<union> R)"
      "follow mem' r ([e] @ (p @ q)) = follow mem' b (p @ q)"
      using focusD(4) [OF b(2) s(1), of "p @ q"] n'(2) by auto
    then show "stored mem' r (put_at t (e # p) n') (A' \<union> (Q \<union> R)) \<and>
        follow mem' r ((e # p) @ q) = follow mem' a q"
      using s(2) put_at_Cons [OF m(1)] by (simp add: Un_assoc)
  qed
  with a(1) show ?case by blast
qed

text \<open>An operation on the subtree at a pointer is one on the tree.\<close>

lemma stored_replace:
  assumes r: "stored mem r t S" and f: "focus mem r t S p a A R" and a: "stored mem a n A"
    and n': "stored mem' a n' A'" and g: "grows A mem A' mem'"
  shows "\<exists>S'. stored mem' r (put_at t p n') S' \<and> grows S mem S' mem' \<and> follow mem' r (p @ q) = follow mem' a q"
proof -
  have "R \<subseteq> {..<length mem}" using stored_cells(1) [OF r] focusD(3) [OF f] by auto
  with grows_frame [OF g] focusD(2) [OF f] have "agrees mem mem' R" "R \<inter> A' = {}" by auto
  with focusD(4) [OF f n', of q] grows_add [OF g, of R] focusD(3) [OF f] show ?thesis
    by (metis Int_commute)
qed

end
