(* ===== verification/Router_Heap_Insert.thy ===== *)
theory Router_Heap_Insert
  imports Router_Ownership
begin

text \<open>
  Insertion in memory is insertion into the tree: where memory holds a tree, every operation
  of \<open>Router_Heap\<close> that inserts is defined, leaves memory holding the tree that the operation
  of \<open>Router_Model\<close> returns, and returns the address to which that one's pointer leads.
\<close>

section \<open>Splitting and appending\<close>

lemma split_cell_stored:
  assumes a: "stored mem a n S" "cell_at mem a = Some c" and ty: "n_type n = NStatic"
  shows "stored (split_cell k a c mem) a (split_child k n) (insert (length mem) S)"
    and "grows S mem (insert (length mem) S) (split_cell k a c mem)"
proof -
  obtain pre ss pm ca rt where n: "n = Node NStatic pre ss pm ca rt" using ty by (cases n) auto
  from a obtain T where l: "labels c n" "below mem c n T" "a \<notin> T" "S = insert a T" by (auto simp: stored_iff)
  let ?s = "c\<lparr>c_type := NStatic, c_prefix := drop k (c_prefix c)\<rparr>"
  let ?c = "c\<lparr>c_prefix := take k (c_prefix c), c_static := [length mem], c_parameter := None,
    c_catch_all := None, c_route := None\<rparr>"
  define mem' where "mem' = split_cell k a c mem"
  have len: "a < length mem" "T \<subseteq> {..<length mem}" using stored_cells(1) [OF a(1)] l(4) by auto
  then have cells: "cell_at mem' a = Some ?c" "cell_at mem' (length mem) = Some ?s"
    "x \<noteq> a \<Longrightarrow> x \<noteq> length mem \<Longrightarrow> cell_at mem' x = cell_at mem x" "length mem' = Suc (length mem)" for x
    by (auto simp: mem'_def split_cell_def Let_def)
  have frame: "agrees mem mem' T" unfolding agrees_def
  proof
    fix x assume "x \<in> T"
    with l(3) len(2) have "x \<noteq> a" "x \<noteq> length mem" by auto
    then show "cell_at mem' x = cell_at mem x" by (rule cells(3))
  qed
  have fresh: "length mem \<notin> T" "length mem \<noteq> a" using len by auto
  have "below mem' ?s (Node NStatic (drop k pre) ss pm ca rt) T"
    using below_frame [OF l(2) frame] by (simp add: below_def n)
  then have "stored mem' (length mem) (Node NStatic (drop k pre) ss pm ca rt) (insert (length mem) T)"
    using l(1) n cells(2) fresh by (intro storedI [of _ _ ?s]) (auto simp: labels_def)
  then have "stored_all mem' [length mem] [Node NStatic (drop k pre) ss pm ca rt] (insert (length mem) T \<union> {})"
    by (intro stored_Cons stored_Nil) simp_all
  then have "stored mem' a (split_child k n) (insert a (insert (length mem) T \<union> {} \<union> {}))"
    using l(1,3) fresh cells(1)
    by (intro stored_partsI [of _ _ ?c]) (auto simp: labels_def n)
  then show "stored (split_cell k a c mem) a (split_child k n) (insert (length mem) S)"
    using l(4) by (simp add: mem'_def insert_commute)
  show "grows S mem (insert (length mem) S) (split_cell k a c mem)"
    using cells(3,4) l(4) by (auto simp: grows_def agrees_def simp flip: mem'_def)
qed

lemma make_node_stored:
  assumes "cell_at mem a = Some (new_cell ty pre)"
  shows "stored mem a (make_node ty pre) {a}"
  using stored_partsI [of mem a "new_cell ty pre" "make_node ty pre" "{}" "{}" "{}"] assms
  by (simp add: labels_def make_node_def)

text \<open>A new node, and a pointer to it stored in its parent.\<close>

lemma append_cell:
  assumes "cell_at mem a = Some c"
  shows "cell_at (put_cell (mem @ [d]) a c') a = Some c'"
    and "cell_at (put_cell (mem @ [d]) a c') (length mem) = Some d"
    and "T \<subseteq> {..<length mem} \<Longrightarrow> a \<notin> T \<Longrightarrow> agrees mem (put_cell (mem @ [d]) a c') T"
    and "a \<in> S \<Longrightarrow> grows S mem (insert (length mem) S) (put_cell (mem @ [d]) a c')"
proof -
  have a: "a < length mem" using assms by (simp add: cell_at_Some)
  then show "cell_at (put_cell (mem @ [d]) a c') a = Some c'"
    "cell_at (put_cell (mem @ [d]) a c') (length mem) = Some d" by simp_all
  show "agrees mem (put_cell (mem @ [d]) a c') T" if "T \<subseteq> {..<length mem}" "a \<notin> T"
    using that by (auto simp: agrees_def)
  show "grows S mem (insert (length mem) S) (put_cell (mem @ [d]) a c')" if "a \<in> S"
    using that by (auto simp: grows_def agrees_def)
qed

lemma stored_all_append:
  "stored_all mem as ns A \<Longrightarrow> stored mem b n B \<Longrightarrow> A \<inter> B = {} \<Longrightarrow> stored_all mem (as @ [b]) (ns @ [n]) (A \<union> B)"
proof (induction ns arbitrary: as A)
  case Nil
  then show ?case using stored_Cons [OF _ stored_Nil, of mem b n B] by simp
next
  case (Cons m ns)
  then obtain a as' C D where as: "as = a # as'" "stored mem a m C" "stored_all mem as' ns D" "C \<inter> D = {}" "A = C \<union> D"
    by (auto simp: stored_all_Cons)
  with Cons.IH [OF as(3) Cons.prems(2)] Cons.prems(3) have "stored_all mem (as' @ [b]) (ns @ [n]) (D \<union> B)" by auto
  then have "stored_all mem (a # as' @ [b]) (m # ns @ [n]) (C \<union> (D \<union> B))"
    using as Cons.prems(3) by (intro stored_Cons) auto
  with as(1,5) show ?case by (simp add: Un_assoc)
qed

section \<open>Literal text\<close>

text \<open>What an insertion below the node at \<open>a\<close>, and one below its static children from the address
  list \<open>as\<close> on, has to do for a result of the value model.\<close>

definition inserted_at :: "'h memory \<Rightarrow> addr \<Rightarrow> addr set \<Rightarrow> 'h node \<Rightarrow> node_ptr \<Rightarrow> ('h memory \<times> addr) option \<Rightarrow> bool" where
  "inserted_at mem a S n' p res \<longleftrightarrow> (\<exists>mem' S' b. res = Some (mem', b) \<and> stored mem' a n' S' \<and> grows S mem S' mem'
     \<and> follow mem' a p = Some b)"

definition inserted_below ::
  "'h memory \<Rightarrow> addr \<Rightarrow> 'h cell \<Rightarrow> addr list \<Rightarrow> addr set \<Rightarrow> 'h node list \<Rightarrow> node_ptr \<Rightarrow> ('h memory \<times> addr) option \<Rightarrow> bool" where
  "inserted_below mem r c ds A cs' p res \<longleftrightarrow> (\<exists>mem' as' A' b. res = Some (mem', b) \<and> stored_all mem' as' cs' A'
     \<and> cell_at mem' r = Some (c\<lparr>c_static := ds @ as'\<rparr>) \<and> r \<notin> A' \<and> grows (insert r A) mem (insert r A') mem'
     \<and> follow mem' r p = Some b)"

text \<open>The node above the children.\<close>

lemma inserted_above:
  assumes c: "cell_at mem a = Some c" "labels c n" "S = insert a (A \<union> B \<union> C)" "a \<notin> A" "a \<notin> B" "a \<notin> C"
    "A \<inter> B = {}" "A \<inter> C = {}" "B \<inter> C = {}" "stored_all mem (c_static c) (n_static n) A"
    "stored_opt mem (c_parameter c) (n_parameter n) B" "stored_opt mem (c_catch_all c) (n_catch_all n) C"
    and children: "inserted_below mem a c [] A cs' p res"
  shows "inserted_at mem a S (set_static cs' n) p res"
proof -
  from children obtain mem' as' A' b where
    h: "res = Some (mem', b)" "stored_all mem' as' cs' A'" "cell_at mem' a = Some (c\<lparr>c_static := as'\<rparr>)" "a \<notin> A'"
      "grows (insert a A) mem (insert a A') mem'" "follow mem' a p = Some b" by (auto simp: inserted_below_def)
  have sub: "B \<subseteq> {..<length mem}" "C \<subseteq> {..<length mem}" using stored_cells(3) c(11,12) by blast+
  have B: "agrees mem mem' B" "B \<inter> insert a A' = {}" by (rule grows_frame [OF h(5) sub(1)], use c in blast)+
  have C: "agrees mem mem' C" "C \<inter> insert a A' = {}" by (rule grows_frame [OF h(5) sub(2)], use c in blast)+
  have "stored mem' a (set_static cs' n) (insert a (A' \<union> B \<union> C))"
  proof (rule stored_partsI [OF h(3)])
    show "labels (c\<lparr>c_static := as'\<rparr>) (set_static cs' n)" using c(2) by (simp add: labels_def)
    show "stored_opt mem' (c_parameter (c\<lparr>c_static := as'\<rparr>)) (n_parameter (set_static cs' n)) B"
      "stored_opt mem' (c_catch_all (c\<lparr>c_static := as'\<rparr>)) (n_catch_all (set_static cs' n)) C"
      using c(11,12) B(1) C(1) by (auto intro: stored_frame)
  qed (use h c B(2) C(2) in auto)
  moreover have "grows S mem (insert a (A' \<union> B \<union> C)) mem'"
    using grows_add [OF h(5), of "B \<union> C"] c(3) by (simp add: Un_assoc)
  ultimately show ?thesis using h(1,6) by (auto simp: inserted_at_def)
qed

text \<open>A new child, a child that is passed, and a child that takes the text.\<close>

lemma inserted_below_new:
  assumes "cell_at mem r = Some c"
  shows "inserted_below mem r c (c_static c) {} [make_node NStatic tx] [StaticEdge (length (c_static c))]
    (heap_insert_children mem r [] tx)"
proof -
  let ?mem = "put_cell (mem @ [new_cell NStatic tx]) r (c\<lparr>c_static := c_static c @ [length mem]\<rparr>)"
  note new = append_cell [OF assms, where d = "new_cell NStatic tx" and c' = "c\<lparr>c_static := c_static c @ [length mem]\<rparr>"]
  have "stored_all ?mem [length mem] [make_node NStatic tx] {length mem}"
    using stored_Cons [OF make_node_stored [OF new(2)] stored_Nil] by simp
  moreover have "r \<noteq> length mem" using assms by (simp add: cell_at_Some)
  moreover have "grows (insert r {}) mem (insert r {length mem}) ?mem"
    using new(4) [of "insert r {}"] by (simp add: insert_commute)
  ultimately show ?thesis
    using assms new(1) unfolding inserted_below_def
    by (intro exI [of _ ?mem] exI [of _ "[length mem]"] exI [of _ "{length mem}"] exI [of _ "length mem"]) simp
qed

lemma inserted_below_skip:
  assumes n: "stored mem a n B" and apart: "B \<inter> D = {}" "r \<notin> B \<union> D"
    and rest: "inserted_below mem r c (ds @ [a]) D cs' p res"
  shows "inserted_below mem r c ds (B \<union> D) (n # cs') p res"
proof -
  from rest obtain mem' as' D' b where
    h: "res = Some (mem', b)" "stored_all mem' as' cs' D'" "cell_at mem' r = Some (c\<lparr>c_static := ds @ a # as'\<rparr>)"
      "r \<notin> D'" "grows (insert r D) mem (insert r D') mem'" "follow mem' r p = Some b"
    by (auto simp: inserted_below_def)
  have "B \<inter> insert r D = {}" "B \<subseteq> {..<length mem}" using apart stored_cells(1) [OF n] by auto
  with grows_frame [OF h(5), of B] have B: "agrees mem mem' B" "B \<inter> insert r D' = {}" by auto
  have "stored_all mem' (a # as') (n # cs') (B \<union> D')"
    using stored_frame(1) [OF n B(1)] h(2) B(2) by (intro stored_Cons) auto
  moreover have "grows (insert r (B \<union> D)) mem (insert r (B \<union> D')) mem'"
    using grows_add [OF h(5), of B] by (simp add: Un_commute)
  ultimately show ?thesis using h(1,3,4,6) B(2) unfolding inserted_below_def by blast
qed

lemma inserted_below_here:
  assumes r: "cell_at mem r = Some c" "c_static c = ds @ a # as" "r \<notin> B \<union> D"
    and rest: "stored_all mem as cs D" "B \<inter> D = {}"
    and split: "grows B mem B1 mem1" and here: "inserted_at mem1 a B1 n' p res"
  shows "inserted_below mem r c ds (B \<union> D) (n' # cs) (StaticEdge (length ds) # p) res"
proof -
  from here obtain mem' B' b where
    h: "res = Some (mem', b)" "stored mem' a n' B'" "grows B1 mem1 B' mem'" "follow mem' a p = Some b"
    by (auto simp: inserted_at_def)
  have g: "grows B mem B' mem'" by (rule grows_trans [OF split h(3)])
  have "insert r D \<inter> B = {}" "insert r D \<subseteq> {..<length mem}"
    using r rest stored_cells(2) [OF rest(1)] by (auto simp: cell_at_Some)
  with grows_frame [OF g, of "insert r D"] have D: "agrees mem mem' (insert r D)" "insert r D \<inter> B' = {}" by auto
  then have cell: "cell_at mem' r = Some c" using r(1) by simp
  have "stored_all mem' (a # as) (n' # cs) (B' \<union> D)"
    using h(2) stored_frame(2) [OF rest(1), of mem'] D by (intro stored_Cons) auto
  moreover have "grows (insert r (B \<union> D)) mem (insert r (B' \<union> D)) mem'"
    using grows_add [OF g, of "insert r D"] by simp
  moreover have "c\<lparr>c_static := ds @ a # as\<rparr> = c" using r(2) by simp
  ultimately show ?thesis
    using cell D(2) r(2,3) h(1,4) unfolding inserted_below_def
    by (intro exI [of _ mem'] exI [of _ "a # as"] exI [of _ "B' \<union> D"] exI [of _ b]) auto
qed

lemma heap_insert_stored:
  fixes n :: "'h node" and cs :: "'h node list"
  shows "stored mem a n S \<Longrightarrow> node_ok n \<Longrightarrow> insert_static n tx = (n', p) \<Longrightarrow>
      inserted_at mem a S n' p (heap_insert_static mem a tx)"
    and "stored_all mem as cs A \<Longrightarrow> static_ok cs \<Longrightarrow> tx2 \<noteq> [] \<Longrightarrow> insert_children cs tx2 = (cs', i, p2) \<Longrightarrow>
      cell_at mem r = Some c \<Longrightarrow> c_static c = ds @ as \<Longrightarrow> r \<notin> A \<Longrightarrow>
      inserted_below mem r c ds A cs' (StaticEdge (length ds + i) # p2) (heap_insert_children mem r as tx2)"
proof (induction n tx and cs tx2 arbitrary: mem a S n' p and mem r c as A cs' i p2 ds
    rule: insert_static_insert_children.induct)
  case (1 n tx)
  show ?case
  proof (cases "tx = []")
    case True
    with "1.prems" show ?thesis by (auto simp: insert_static.simps heap_insert_static.simps inserted_at_def)
  next
    case False
    obtain cs' i q where ins: "insert_children (n_static n) tx = (cs', i, q)" by (metis prod_cases3)
    with False "1.prems"(3) have n': "n' = set_static cs' n" "p = StaticEdge i # q"
      by (simp_all add: insert_static.simps)
    have ok: "static_ok (n_static n)" using "1.prems"(2) by (simp add: node_ok_parts [of n])
    from "1.prems"(1) show ?thesis
    proof (rule stored_parts)
      fix c A B C
      assume c: "cell_at mem a = Some c" "labels c n" "S = insert a (A \<union> B \<union> C)" "a \<notin> A" "a \<notin> B" "a \<notin> C"
        "A \<inter> B = {}" "A \<inter> C = {}" "B \<inter> C = {}" "stored_all mem (c_static c) (n_static n) A"
        "stored_opt mem (c_parameter c) (n_parameter n) B" "stored_opt mem (c_catch_all c) (n_catch_all n) C"
      have "inserted_below mem a c [] A cs' p (heap_insert_children mem a (c_static c) tx)"
        using "1.IH" [OF False c(10) ok False ins c(1) _ c(4), of "[]"] n'(2) by simp
      from inserted_above [OF c this] show ?thesis using False c(1) n'(1) by (simp add: heap_insert_static.simps)
    qed
  qed
next
  case (2 tx)
  with inserted_below_new [OF "2.prems"(5), of tx] show ?case by auto
next
  case (3 child cs tx)
  from "3.prems"(1) obtain a as' B D where as: "as = a # as'" "stored mem a child B" "stored_all mem as' cs D"
    "B \<inter> D = {}" "A = B \<union> D" by (auto simp: stored_all_Cons)
  obtain d where d: "cell_at mem a = Some d" "labels d child" using as(2) by (auto simp: stored_iff)
  have child: "c_type d = NStatic" "c_prefix d \<noteq> []" "n_type child = NStatic" "n_prefix child = c_prefix d"
    using d(2) "3.prems"(2) by (auto simp: static_ok_Cons labels_def)
  show ?case
  proof (cases "head child = hd tx")
    case False
    obtain cs1 j q where ins: "insert_children cs tx = (cs1, j, q)" by (metis prod_cases3)
    with "3.prems"(4) False have r: "cs' = child # cs1" "i = Suc j" "p2 = q" by simp_all
    have "static_ok cs" using "3.prems"(2) by (simp add: static_ok_Cons)
    from "3.IH"(1) [OF _ as(3) this "3.prems"(3) ins "3.prems"(5), of "ds @ [a]"] False "3.prems"(6,7) as(1,5)
    have "inserted_below mem r c (ds @ [a]) D cs1 (StaticEdge (length ds + i) # p2) (heap_insert_children mem r as' tx)"
      using r by simp
    from inserted_below_skip [OF as(2,4) _ this] show ?thesis
      using d(1) child False "3.prems"(3,7) as(1,5) r(1) by simp
  next
    case True
    let ?k = "common_prefix (n_prefix child) tx"
    obtain c2 q where c2: "insert_static (split_if_needed tx child) (drop ?k tx) = (c2, q)" by (metis surj_pair)
    have go: "\<not> (tx = [] \<or> n_prefix child = [] \<or> n_type child \<noteq> NStatic \<or> head child \<noteq> hd tx)"
      using True child "3.prems"(3) by simp
    with c2 "3.prems"(4) have r: "cs' = c2 # cs" "i = 0" "p2 = q" by (simp_all add: split_if_needed_def Let_def)
    define mem1 where "mem1 = (if ?k < length (n_prefix child) then split_cell ?k a d mem else mem)"
    obtain B1 where B1: "stored mem1 a (split_if_needed tx child) B1" "grows B mem B1 mem1"
      using split_cell_stored [OF as(2) d(1) child(3), of ?k] as(2) grows_refl
      by (cases "?k < length (n_prefix child)") (auto simp: mem1_def split_if_needed_def)
    have "node_ok (split_if_needed tx child)" using split_if_needed(2) [OF "3.prems"(2)] .
    from "3.IH"(2) [OF go refl refl, folded split_if_needed_def, OF B1(1) this c2]
    have "inserted_at mem1 a B1 c2 q (heap_insert_static mem1 a (drop ?k tx))" .
    from inserted_below_here [OF "3.prems"(5) "3.prems"(6) [unfolded as(1)] _ as(3,4) B1(2) this] show ?thesis
      using d(1) child True "3.prems"(3,7) as(1,5) r by (simp add: mem1_def Let_def cong: if_cong)
  qed
qed

lemma heap_insert_static_stored:
  assumes "stored mem a n S" "node_ok n" "insert_static n tx = (n', p)"
  shows "\<exists>mem' S' b. heap_insert_static mem a tx = Some (mem', b) \<and> stored mem' a n' S' \<and> grows S mem S' mem'
    \<and> follow mem' a p = Some b"
  using heap_insert_stored(1) [OF assms] by (simp add: inserted_at_def)

section \<open>Special tokens\<close>

text \<open>The results of the two models: the same exception, or an address and a pointer to it.\<close>

abbreviation same_result :: "'h memory \<Rightarrow> addr \<Rightarrow> exn + node_ptr \<Rightarrow> exn + addr \<Rightarrow> bool" where
  "same_result mem r \<equiv> rel_sum (=) (\<lambda>p b. follow mem r p = Some b)"

lemma cell_at_less: "cell_at mem a = Some c \<Longrightarrow> a < length mem"
  by (simp add: cell_at_Some)

text \<open>A new special child of a stored node.\<close>

lemma add_parameter_stored:
  assumes c: "cell_at mem a = Some c" "labels c n" "a \<notin> A" "a \<notin> C" "A \<inter> C = {}"
    "stored_all mem (c_static c) (n_static n) A" "stored_opt mem (c_catch_all c) (n_catch_all n) C"
  defines "mem' \<equiv> put_cell (mem @ [new_cell NParameter []]) a (c\<lparr>c_parameter := Some (length mem)\<rparr>)"
  shows "stored mem' a (set_parameter (Some (make_node NParameter [])) n) (insert a (A \<union> {length mem} \<union> C))"
    "grows (insert a (A \<union> C)) mem (insert a (A \<union> {length mem} \<union> C)) mem'"
proof -
  have sub: "A \<subseteq> {..<length mem}" "C \<subseteq> {..<length mem}" using c(6,7) stored_cells(2,3) by blast+
  note new = append_cell [OF c(1), where d = "new_cell NParameter []" and c' = "c\<lparr>c_parameter := Some (length mem)\<rparr>", folded mem'_def]
  from sub c(1) have "length mem \<notin> A" "length mem \<notin> C" "length mem \<noteq> a" by (auto simp: cell_at_Some)
  then show "stored mem' a (set_parameter (Some (make_node NParameter [])) n) (insert a (A \<union> {length mem} \<union> C))"
    using c new(3) [OF sub(1) c(3)] new(3) [OF sub(2) c(4)] make_node_stored [OF new(2)]
    by (intro stored_partsI [OF new(1)]) (auto intro: stored_frame simp: labels_def)
  show "grows (insert a (A \<union> C)) mem (insert a (A \<union> {length mem} \<union> C)) mem'"
    using new(4) [of "insert a (A \<union> C)"] by (simp add: insert_commute)
qed

lemma add_catch_all_stored:
  assumes c: "cell_at mem a = Some c" "labels c n" "a \<notin> A" "a \<notin> B" "A \<inter> B = {}"
    "stored_all mem (c_static c) (n_static n) A" "stored_opt mem (c_parameter c) (n_parameter n) B"
  defines "mem' \<equiv> put_cell (mem @ [new_cell NCatchAll []]) a (c\<lparr>c_catch_all := Some (length mem)\<rparr>)"
  shows "stored mem' a (set_catch_all (Some (make_node NCatchAll [])) n) (insert a (A \<union> B \<union> {length mem}))"
    "grows (insert a (A \<union> B)) mem (insert a (A \<union> B \<union> {length mem})) mem'"
proof -
  have sub: "A \<subseteq> {..<length mem}" "B \<subseteq> {..<length mem}" using c(6,7) stored_cells(2,3) by blast+
  note new = append_cell [OF c(1), where d = "new_cell NCatchAll []" and c' = "c\<lparr>c_catch_all := Some (length mem)\<rparr>", folded mem'_def]
  from sub c(1) have "length mem \<notin> A" "length mem \<notin> B" "length mem \<noteq> a" by (auto simp: cell_at_Some)
  then show "stored mem' a (set_catch_all (Some (make_node NCatchAll [])) n) (insert a (A \<union> B \<union> {length mem}))"
    using c new(3) [OF sub(1) c(3)] new(3) [OF sub(2) c(4)] make_node_stored [OF new(2)]
    by (intro stored_partsI [OF new(1)]) (auto intro: stored_frame simp: labels_def)
  show "grows (insert a (A \<union> B)) mem (insert a (A \<union> B \<union> {length mem})) mem'"
    using new(4) [of "insert a (A \<union> B)"] by (simp add: insert_commute)
qed

lemma heap_insert_special_stored:
  assumes n: "stored mem a n S" and ins: "insert_special n ty = (n', res)"
  shows "\<exists>mem' S' hres. heap_insert_special mem a ty = Some (mem', hres) \<and> stored mem' a n' S'
    \<and> grows S mem S' mem' \<and> same_result mem' a res hres"
  using n
proof (rule stored_parts)
  fix c A B C
  assume c: "cell_at mem a = Some c" "labels c n" "S = insert a (A \<union> B \<union> C)" "a \<notin> A" "a \<notin> B" "a \<notin> C"
    "A \<inter> B = {}" "A \<inter> C = {}" "B \<inter> C = {}" "stored_all mem (c_static c) (n_static n) A"
    "stored_opt mem (c_parameter c) (n_parameter n) B" "stored_opt mem (c_catch_all c) (n_catch_all n) C"
  consider (fail) e where "res = Inl e" "n' = n" "heap_insert_special mem a ty = Some (mem, Inl e)"
    | (param) b where "ty = NParameter" "c_type c = NStatic" "c_parameter c = Some b" "n' = n" "res = Inr [ParameterEdge]"
    | (catch) b where "ty = NCatchAll" "c_type c = NStatic" "c_catch_all c = Some b" "n' = n" "res = Inr [CatchAllEdge]"
    | (new_param) "ty = NParameter" "c_type c = NStatic" "c_parameter c = None" "B = {}" "res = Inr [ParameterEdge]"
        "n' = set_parameter (Some (make_node NParameter [])) n"
    | (new_catch) "ty = NCatchAll" "c_type c = NStatic" "c_catch_all c = None" "C = {}" "res = Inr [CatchAllEdge]"
        "n' = set_catch_all (Some (make_node NCatchAll [])) n"
    using ins c(1,2,11,12)
    by (cases ty; cases "c_type c"; cases "c_parameter c"; cases "c_catch_all c")
      (auto simp: insert_special_def heap_insert_special_def labels_def)
  then show ?thesis
  proof cases
    case fail
    with n show ?thesis by auto
  next
    case param
    with n c(1) show ?thesis by (auto simp: heap_insert_special_def intro!: exI [of _ mem] exI [of _ S])
  next
    case catch
    with n c(1) show ?thesis by (auto simp: heap_insert_special_def intro!: exI [of _ mem] exI [of _ S])
  next
    case new_param
    note add = add_parameter_stored [OF c(1,2,4,6,8,10,12)] cell_at_less [OF c(1)]
    show ?thesis
      using add new_param c(1,3)
      by (intro exI [of _ "put_cell (mem @ [new_cell NParameter []]) a (c\<lparr>c_parameter := Some (length mem)\<rparr>)"]
        exI [of _ "insert a (A \<union> {length mem} \<union> C)"] exI [of _ "Inr (length mem)"])
        (simp add: heap_insert_special_def)
  next
    case new_catch
    note add = add_catch_all_stored [OF c(1,2,4,5,7,10,11)] cell_at_less [OF c(1)]
    show ?thesis
      using add new_catch c(1,3)
      by (intro exI [of _ "put_cell (mem @ [new_cell NCatchAll []]) a (c\<lparr>c_catch_all := Some (length mem)\<rparr>)"]
        exI [of _ "insert a (A \<union> B \<union> {length mem})"] exI [of _ "Inr (length mem)"])
        (simp add: heap_insert_special_def)
  qed
qed

section \<open>The loop over the pattern\<close>

text \<open>Where the loop stands: memory holds the tree, and the address is where the pointer leads.\<close>

definition standing :: "'h memory \<Rightarrow> addr \<Rightarrow> 'h node \<Rightarrow> addr set \<Rightarrow> node_ptr \<Rightarrow> addr \<Rightarrow> bool" where
  "standing mem r t S p a \<longleftrightarrow> stored mem r t S \<and> follow mem r p = Some a"

lemma static_at_stored:
  assumes "standing mem r t S p a" "node_wf t" "node_at t p = Some n" "static_at t p tx = (t', p')"
  shows "\<exists>mem' S' b. heap_insert_static mem a tx = Some (mem', b) \<and> standing mem' r t' S' p' b \<and> grows S mem S' mem'"
proof -
  obtain n' q where ins: "insert_static n tx = (n', q)" by fastforce
  with assms(3,4) have t': "t' = put_at t p n'" "p' = p @ q" by (simp_all add: static_at_def)
  from stored_focus [of mem r t S p n] assms(1,3) obtain A R where
    f: "stored mem a n A" "focus mem r t S p a A R"
    by (metis standing_def focusD(1) option.inject)
  have "node_ok n" using node_at_wf [OF assms(2,3)] by (simp add: node_wf_def)
  from heap_insert_static_stored [OF f(1) this ins] obtain mem' A' b where
    h: "heap_insert_static mem a tx = Some (mem', b)" "stored mem' a n' A'" "grows A mem A' mem'"
      "follow mem' a q = Some b" by blast
  from stored_replace [OF _ f(2,1) h(2,3), of q] assms(1) h(1,4) t' show ?thesis
    by (auto simp: standing_def)
qed

lemma special_at_stored:
  assumes "standing mem r t S p a" "node_wf t" "node_at t p = Some n" "special_at t p ty = (t', res)"
  shows "\<exists>mem' S' hres. heap_insert_special mem a ty = Some (mem', hres) \<and> stored mem' r t' S'
    \<and> grows S mem S' mem' \<and> same_result mem' r res hres"
proof -
  obtain n' nres where ins: "insert_special n ty = (n', nres)" by fastforce
  with assms(3,4) have t': "t' = put_at t p n'" "res = map_sum id (\<lambda>q. p @ q) nres"
    by (auto simp: special_at_def split: sum.splits)
  from stored_focus [of mem r t S p n] assms(1,3) obtain A R where
    f: "stored mem a n A" "focus mem r t S p a A R"
    by (metis standing_def focusD(1) option.inject)
  from heap_insert_special_stored [OF f(1) ins] obtain mem' A' hres where
    h: "heap_insert_special mem a ty = Some (mem', hres)" "stored mem' a n' A'" "grows A mem A' mem'"
      "same_result mem' a nres hres" by blast
  have r: "stored mem r t S" using assms(1) by (simp add: standing_def)
  obtain S' where "stored mem' r t' S'" "grows S mem S' mem'"
    using stored_replace [OF r f(2,1) h(2,3)] t'(1) by blast
  moreover have "follow mem' r (p @ q) = follow mem' a q" for q
    using stored_replace [OF r f(2,1) h(2,3), of q] by blast
  then have "same_result mem' r res hres"
    using h(4) t'(2) by (cases nres; cases hres) auto
  ultimately show ?thesis using h(1) by blast
qed

lemma insert_token_stored:
  assumes s: "standing mem r t S p a" "node_wf t" "node_at t p = Some n" "ready n rest"
    and first: "sv_find_first_of '':*'' rest 0 = Some k"
    and ins: "insert_token t p names rest k = (t', Inr (p', names', rest'))"
  shows "\<exists>mem' S' b. heap_insert_token mem a names rest k = Some (mem', Inr (b, names', rest'))
    \<and> standing mem' r t' S' p' b \<and> grows S mem S' mem'"
proof -
  obtain t1 p1 rest1 where lit: "insert_literal t p rest k = (t1, p1, rest1)" by (metis prod_cases3)
  from insert_literal_moved [OF s(2-4) first lit] obtain m where
    r1: "rest1 = drop k rest" "node_wf t1" "node_at t1 p1 = Some m" by (auto simp: moved_def)
  obtain mem1 S1 a1 where h1: "(if k \<noteq> 0 then heap_insert_static mem a (sv_substr rest 0 k) else Some (mem, a)) = Some (mem1, a1)"
    "standing mem1 r t1 S1 p1 a1" "grows S mem S1 mem1"
  proof (cases "k = 0")
    case True
    with lit s(1) that [of mem a S] show ?thesis by (simp add: insert_literal_def)
  next
    case False
    with lit have "static_at t p (sv_substr rest 0 k) = (t1, p1)"
      by (auto simp: insert_literal_def split: prod.splits)
    from static_at_stored [OF s(1-3) this] False that show ?thesis by auto
  qed
  let ?ty = "if hd rest1 = CHR ''*'' then NCatchAll else NParameter"
  obtain t2 res2 where sp: "special_at t1 p1 ?ty = (t2, res2)" by fastforce
  from special_at_stored [OF h1(2) r1(2,3) sp] obtain mem2 S2 hres where
    h2: "heap_insert_special mem1 a1 ?ty = Some (mem2, hres)" "stored mem2 r t2 S2"
      "grows S1 mem1 S2 mem2" "same_result mem2 r res2 hres" by blast
  from ins lit sp have r2: "res2 = Inr p'" "t' = t2" "names' = names @ [sv_substr rest1 1 (token_end rest1 - 1)]"
    "rest' = drop (token_end rest1) rest1"
    by (auto simp: insert_token_def Let_def split: sum.splits)
  with h2(4) obtain b where b: "hres = Inr b" "follow mem2 r p' = Some b" by (cases hres) auto
  have "heap_insert_token mem a names rest k = Some (mem2, Inr (b, names', rest'))"
    unfolding heap_insert_token_def h1(1) using h2(1) r1(1) r2(3,4) b(1) by (simp add: Let_def)
  moreover have "standing mem2 r t' S2 p' b" using h2(2) b(2) r2(2) by (simp add: standing_def)
  ultimately show ?thesis using grows_trans [OF h1(3) h2(3)] by blast
qed

lemma insert_loop_stored:
  "standing mem r t S p a \<Longrightarrow> node_wf t \<Longrightarrow> node_at t p = Some n \<Longrightarrow> ready n rest \<Longrightarrow>
   insert_loop t p names rest = (t', Inr (p', names')) \<Longrightarrow>
   \<exists>mem' S' b. heap_insert_loop mem a names rest = Some (mem', Inr (b, names')) \<and> standing mem' r t' S' p' b
     \<and> grows S mem S' mem'"
proof (induction t p names rest arbitrary: n mem a S rule: insert_loop.induct)
  case (1 t p names rest)
  show ?case
  proof (cases "rest = []")
    case True
    with "1.prems" show ?thesis
      by (auto simp: insert_loop.simps [of t] heap_insert_loop.simps [of mem])
  next
    case False
    show ?thesis
    proof (cases "sv_find_first_of '':*'' rest 0")
      case None
      obtain t1 p1 where st: "static_at t p rest = (t1, p1)" by fastforce
      with None False "1.prems"(5) have "t' = t1" "p' = p1" "names' = names"
        by (simp_all add: insert_loop.simps [of t])
      with static_at_stored [OF "1.prems"(1-3) st] None False show ?thesis
        by (auto simp: heap_insert_loop.simps [of mem])
    next
      case (Some k)
      obtain t2 res2 where tk: "insert_token t p names rest k = (t2, res2)" by fastforce
      from insert_token_moved [OF "1.prems"(2-4) Some tk] obtain p2 us rest2 m where
        r2: "res2 = Inr (p2, names @ us, rest2)" and m: "node_wf t2" "node_at t2 p2 = Some m" "ready m rest2"
        by (auto simp: moved_def)
      from insert_token_stored [OF "1.prems"(1-4) Some tk [unfolded r2]] obtain mem2 S2 b2 where
        h: "heap_insert_token mem a names rest k = Some (mem2, Inr (b2, names @ us, rest2))"
          "standing mem2 r t2 S2 p2 b2" "grows S mem S2 mem2" by blast
      have "insert_loop t2 p2 (names @ us) rest2 = (t', Inr (p', names'))"
        using "1.prems"(5) False Some tk r2 by (simp add: insert_loop.simps [of t])
      from "1.IH" [OF False Some tk [symmetric] r2 refl refl h(2) m this] h(1,3) False Some show ?thesis
        by (auto simp: heap_insert_loop.simps [of mem] intro: grows_trans)
    qed
  qed
qed

end
