(* ===== verification/Router_Heap_Match.thy ===== *)
theory Router_Heap_Match
  imports Router_Heap_Insert
begin

text \<open>
  The search in memory finds what the search of the tree finds, within a recursion depth of
  the target's length and one: each nested call has read at least one more character.
\<close>

section \<open>Views of the target\<close>

text \<open>Views that lie inside the target and show the given strings.\<close>

definition views :: "string \<Rightarrow> view list \<Rightarrow> string list \<Rightarrow> bool" where
  "views target vs vals \<longleftrightarrow> map (view_text target) vs = vals \<and> (\<forall>v\<in>set vs. fst v + snd v \<le> length target)"

lemma views_Nil [simp]: "views target [] vals \<longleftrightarrow> vals = []"
  by (auto simp: views_def)

lemma views_length: "views target vs vals \<Longrightarrow> length vs = length vals"
  by (auto simp: views_def)

lemma views_take: "views target vs vals \<Longrightarrow> views target (take k vs) (take k vals)"
  by (auto simp: views_def take_map dest: in_set_takeD)

lemma views_snoc:
  "views target vs vals \<Longrightarrow> i + l \<le> length target \<Longrightarrow> views target (vs @ [(i, l)]) (vals @ [sv_substr target i l])"
  by (auto simp: views_def view_text_def)

section \<open>The search\<close>

text \<open>The same node, by its pointer and by its address.\<close>

definition same_node :: "'h memory \<Rightarrow> addr \<Rightarrow> 'h node \<Rightarrow> 'h node \<Rightarrow> addr \<Rightarrow> bool" where
  "same_node mem a t m b \<longleftrightarrow> (\<exists>q. node_at t q = Some m \<and> follow mem a q = Some b)"

lemma same_node_stored:
  assumes "stored mem a t S" "same_node mem a t m b"
  obtains B where "stored mem b m B" "B \<subseteq> S"
proof -
  obtain q where q: "node_at t q = Some m" "follow mem a q = Some b" using assms(2) by (auto simp: same_node_def)
  obtain c A R where "stored mem c m A" "focus mem a t S q c A R" using stored_focus [OF assms(1) q(1)] by blast
  with focusD(1,3) [OF this(2)] q(2) that show ?thesis by auto
qed

text \<open>A node found below a child is found below the parent.\<close>

lemma same_node_step:
  assumes "stored mem a t S" "node_at t [e] = Some m" "follow mem a [e] = Some b" "same_node mem b m k c"
  shows "same_node mem a t k c"
proof -
  obtain q where q: "node_at m q = Some k" "follow mem b q = Some c" using assms(4) by (auto simp: same_node_def)
  have "node_at t (e # q) = Some k" using node_at_Cons [of t e q] assms(2) q(1) by simp
  moreover have "follow mem a (e # q) = Some c"
    using assms(3) q(2) by (cases e) (auto split: option.splits if_splits)
  ultimately show ?thesis by (auto simp: same_node_def)
qed

text \<open>What a search in memory has to return for a result of the search of the tree.\<close>

definition found_like ::
  "('h node \<Rightarrow> addr \<Rightarrow> bool) \<Rightarrow> string \<Rightarrow> 'h node option \<times> string list \<Rightarrow> (addr option \<times> view list) option \<Rightarrow> bool" where
  "found_like same target res hres \<longleftrightarrow>
     (\<exists>x vs. hres = Some (x, vs) \<and> views target vs (snd res) \<and> rel_option same (fst res) x)"

lemma found_like_None: "found_like same target (None, vals) hres \<Longrightarrow> \<exists>vs. hres = Some (None, vs) \<and> views target vs vals"
  by (auto simp: found_like_def)

lemma found_like_Some:
  "found_like same target (Some m, vals) hres \<Longrightarrow> \<exists>b vs. hres = Some (Some b, vs) \<and> same m b \<and> views target vs vals"
  by (auto simp: found_like_def option_rel_Some1)

lemma found_like_mono: "found_like same target res hres \<Longrightarrow> (\<And>m b. same m b \<Longrightarrow> same' m b) \<Longrightarrow> found_like same' target res hres"
  unfolding found_like_def by (metis option.rel_mono_strong)

lemma found_likeI [intro]:
  "views target vs vals \<Longrightarrow> found_like same target (None, vals) (Some (None, vs))"
  "views target vs vals \<Longrightarrow> same m b \<Longrightarrow> found_like same target (Some m, vals) (Some (Some b, vs))"
  by (auto simp: found_like_def)

text \<open>The nodes found below the children of a node.\<close>

definition below_static :: "'h memory \<Rightarrow> addr list \<Rightarrow> 'h node list \<Rightarrow> 'h node \<Rightarrow> addr \<Rightarrow> bool" where
  "below_static mem as cs m b \<longleftrightarrow> (\<exists>i<length cs. same_node mem (as ! i) (cs ! i) m b)"

definition below_parameter :: "'h memory \<Rightarrow> addr option \<Rightarrow> 'h node option \<Rightarrow> 'h node \<Rightarrow> addr \<Rightarrow> bool" where
  "below_parameter mem pa pc m b \<longleftrightarrow> (\<exists>a c. pa = Some a \<and> pc = Some c \<and> same_node mem a c m b)"

text \<open>One activation of the search, given what its two loops return.\<close>

lemma heap_search_node:
  assumes c: "cell_at mem a = Some c" "labels c node" and stop: "\<not> (position = length target \<and> n_route node \<noteq> None)"
    and s: "found_like same target (search_static target (n_static node) position vals)
      (heap_search_static f mem target (c_static c) position vs)"
    and p: "\<And>vals1 vs1. search_static target (n_static node) position vals = (None, vals1) \<Longrightarrow> views target vs1 vals1 \<Longrightarrow>
      found_like same target (search_parameter target (n_parameter node) position vals1)
        (heap_search_parameter f mem target (c_parameter c) position vs1)"
    and ca: "stored_opt mem (c_catch_all c) (n_catch_all node) C" "position \<le> length target"
      "\<And>k b. n_catch_all node = Some k \<Longrightarrow> c_catch_all c = Some b \<Longrightarrow> same k b"
  shows "found_like same target (search target node position vals) (heap_search (Suc f) mem target a position vs)"
proof -
  have route: "c_route c = n_route node" using c(2) by (simp add: labels_def)
  obtain x vals1 where s1: "search_static target (n_static node) position vals = (x, vals1)" by fastforce
  show ?thesis
  proof (cases x)
    case (Some m)
    with found_like_Some [OF s [unfolded s1 Some]] stop s1 c(1) route show ?thesis
      by (auto simp: search.simps [of target node])
  next
    case None
    with found_like_None [OF s [unfolded s1 None]] obtain vs1 where
      h1: "heap_search_static f mem target (c_static c) position vs = Some (None, vs1)" "views target vs1 vals1" by blast
    note p = p [OF s1 [unfolded None] h1(2)]
    obtain y vals2 where p1: "search_parameter target (n_parameter node) position vals1 = (y, vals2)" by fastforce
    show ?thesis
    proof (cases y)
      case (Some m)
      with found_like_Some [OF p [unfolded p1 Some]] stop s1 None p1 h1 c(1) route show ?thesis
        by (auto simp: search.simps [of target node])
    next
      case N: None
      with found_like_None [OF p [unfolded p1 N]] obtain vs2 where
        h2: "heap_search_parameter f mem target (c_parameter c) position vs1 = Some (None, vs2)" "views target vs2 vals2" by blast
      have v: "views target (vs2 @ [(position, length target - position)]) (vals2 @ [drop position target])"
        using views_snoc [OF h2(2), of position "length target - position"] ca(2) by (simp add: sv_substr_def)
      show ?thesis
      proof (cases "n_catch_all node")
        case n: None
        with ca(1) have "c_catch_all c = None" by auto
        with n stop s1 None p1 N h1 h2 c(1) route show ?thesis by (auto simp: search.simps [of target node])
      next
        case (Some k)
        with ca(1) obtain b where b: "c_catch_all c = Some b" "stored mem b k C" by (auto simp: stored_opt_Some)
        then obtain d where "cell_at mem b = Some d" "c_route d = n_route k" by (auto simp: stored_iff labels_def)
        with Some b(1) ca(3) [OF Some b(1)] v stop s1 None p1 N h1 h2 c(1) route show ?thesis
          by (auto simp: search.simps [of target node])
      qed
    qed
  qed
qed

text \<open>One round of the loop over the static children.\<close>

lemma heap_search_child:
  assumes d: "cell_at mem b = Some d" "c_prefix d = n_prefix child" and vs: "views target vs vals"
    and p: "sv_substr (drop position target) 0 (length (n_prefix child)) = n_prefix child"
    and c: "found_like same target (search target child (position + length (n_prefix child)) vals)
      (heap_search fuel mem target b (position + length (n_prefix child)) vs)"
    and others: "\<And>vals1 vs1. search target child (position + length (n_prefix child)) vals = (None, vals1) \<Longrightarrow>
      views target vs1 (take (length vals) vals1) \<Longrightarrow>
      found_like same target (search_static target cs position (take (length vals) vals1))
        (heap_search_static fuel mem target as position vs1)"
  shows "found_like same target (search_static target (child # cs) position vals)
    (heap_search_static fuel mem target (b # as) position vs)"
proof -
  obtain x vals1 where s1: "search target child (position + length (n_prefix child)) vals = (x, vals1)" by fastforce
  show ?thesis
  proof (cases x)
    case (Some m)
    with found_like_Some [OF c [unfolded s1 Some]] p s1 d show ?thesis by auto
  next
    case None
    with found_like_None [OF c [unfolded s1 None]] obtain vs1 where
      h: "heap_search fuel mem target b (position + length (n_prefix child)) vs = Some (None, vs1)" "views target vs1 vals1" by blast
    have "views target (take (length vs) vs1) (take (length vals) vals1)"
      using views_take [OF h(2)] views_length [OF vs] by simp
    with others [OF s1 [unfolded None]] p None s1 h d show ?thesis by (auto simp: Let_def)
  qed
qed

text \<open>The parameter child.\<close>

lemma heap_search_segment:
  assumes go: "position < length target \<and> target ! position \<noteq> CHR ''/''" and vs: "views target vs vals"
    and c: "found_like (same_node mem b child) target
      (search target child (segment_end target position)
         (vals @ [sv_substr target position (segment_end target position - position)]))
      (heap_search fuel mem target b (segment_end target position) (vs @ [(position, segment_end target position - position)]))"
  shows "found_like (below_parameter mem (Some b) (Some child)) target (search_parameter target (Some child) position vals)
    (heap_search_parameter fuel mem target (Some b) position vs)"
proof -
  let ?e = "segment_end target position"
  obtain x vals1 where s1: "search target child ?e (vals @ [sv_substr target position (?e - position)]) = (x, vals1)" by fastforce
  show ?thesis
  proof (cases x)
    case (Some m)
    with found_like_Some [OF c [unfolded s1 Some]] s1 go show ?thesis
      by (auto simp: Let_def below_parameter_def intro!: found_likeI(2))
  next
    case None
    with found_like_None [OF c [unfolded s1 None]] obtain vs1 where
      h: "heap_search fuel mem target b ?e (vs @ [(position, ?e - position)]) = Some (None, vs1)" "views target vs1 vals1"
      by blast
    with s1 None go views_length [OF vs] views_take [OF h(2), of "length vals"] show ?thesis
      by (simp add: Let_def found_likeI(1))
  qed
qed

lemma below_static_same_node:
  assumes "stored mem a t S" "cell_at mem a = Some c" "below_static mem (c_static c) (n_static t) m b"
  shows "same_node mem a t m b"
proof -
  from assms(3) obtain i where "i < length (n_static t)" "same_node mem (c_static c ! i) (n_static t ! i) m b"
    by (auto simp: below_static_def)
  moreover have "length (c_static c) = length (n_static t)"
    using assms(1,2) by (auto simp: stored_iff below_def stored_all_length)
  ultimately show ?thesis using same_node_step [OF assms(1), of "StaticEdge i"] assms(2) by simp
qed

lemma below_parameter_same_node:
  "stored mem a t S \<Longrightarrow> cell_at mem a = Some c \<Longrightarrow> below_parameter mem (c_parameter c) (n_parameter t) m b \<Longrightarrow>
   same_node mem a t m b"
  using same_node_step [of mem a t S ParameterEdge] by (auto simp: below_parameter_def)

text \<open>The loop over the children, given the search below the first and the loop over the rest.\<close>

lemma heap_search_static_stored:
  assumes st: "stored mem b child B" and pos: "position \<le> length target" and v: "views target vs vals"
    and skip: "sv_substr (drop position target) 0 (length (n_prefix child)) \<noteq> n_prefix child \<Longrightarrow>
      found_like (below_static mem as' cs) target (search_static target cs position vals)
        (heap_search_static fuel mem target as' position vs)"
    and first: "position + length (n_prefix child) \<le> length target \<Longrightarrow>
      sv_substr (drop position target) 0 (length (n_prefix child)) = n_prefix child \<Longrightarrow>
      found_like (same_node mem b child) target (search target child (position + length (n_prefix child)) vals)
        (heap_search fuel mem target b (position + length (n_prefix child)) vs)"
    and others: "\<And>vals1 vs1. sv_substr (drop position target) 0 (length (n_prefix child)) = n_prefix child \<Longrightarrow>
      search target child (position + length (n_prefix child)) vals = (None, vals1) \<Longrightarrow>
      views target vs1 (take (length vals) vals1) \<Longrightarrow>
      found_like (below_static mem as' cs) target (search_static target cs position (take (length vals) vals1))
        (heap_search_static fuel mem target as' position vs1)"
  shows "found_like (below_static mem (b # as') (child # cs)) target (search_static target (child # cs) position vals)
    (heap_search_static fuel mem target (b # as') position vs)"
proof -
  from st obtain d where d: "cell_at mem b = Some d" "c_prefix d = n_prefix child" by (auto simp: stored_iff labels_def)
  have up: "below_static mem (b # as') (child # cs) m k" if "below_static mem as' cs m k \<or> same_node mem b child m k" for m k
    using that by (auto simp: below_static_def intro: exI [of _ 0])
  show ?thesis
  proof (cases "sv_substr (drop position target) 0 (length (n_prefix child)) = n_prefix child")
    case False
    with skip d show ?thesis by (auto intro: found_like_mono up)
  next
    case True
    then have len: "position + length (n_prefix child) \<le> length target"
      using prefix_length_le pos by (fastforce simp: substr_prefix)
    show ?thesis
    proof (rule heap_search_child [OF d v True])
      show "found_like (below_static mem (b # as') (child # cs)) target
          (search target child (position + length (n_prefix child)) vals)
          (heap_search fuel mem target b (position + length (n_prefix child)) vs)"
        by (rule found_like_mono [OF first [OF len True]]) (use up in blast)
      show "found_like (below_static mem (b # as') (child # cs)) target
          (search_static target cs position (take (length vals) vals1)) (heap_search_static fuel mem target as' position vs1)"
        if "search target child (position + length (n_prefix child)) vals = (None, vals1)"
          "views target vs1 (take (length vals) vals1)" for vals1 vs1
        by (rule found_like_mono [OF others [OF True that]]) (use up in blast)
    qed
  qed
qed

lemma heap_search_stored:
  fixes node :: "'h node" and cs :: "'h node list" and pc :: "'h node option"
  shows "stored mem a node S \<Longrightarrow> node_ok node \<Longrightarrow> position \<le> length target \<Longrightarrow> length target - position < fuel \<Longrightarrow>
      views target vs vals \<Longrightarrow>
      found_like (same_node mem a node) target (search target node position vals) (heap_search fuel mem target a position vs)"
    and "stored_all mem as cs S \<Longrightarrow> static_ok cs \<Longrightarrow> position \<le> length target \<Longrightarrow> length target - position \<le> fuel \<Longrightarrow>
      views target vs vals \<Longrightarrow>
      found_like (below_static mem as cs) target (search_static target cs position vals)
        (heap_search_static fuel mem target as position vs)"
    and "stored_opt mem pa pc S \<Longrightarrow> parameter_ok pc \<Longrightarrow> position \<le> length target \<Longrightarrow> length target - position \<le> fuel \<Longrightarrow>
      views target vs vals \<Longrightarrow>
      found_like (below_parameter mem pa pc) target (search_parameter target pc position vals)
        (heap_search_parameter fuel mem target pa position vs)"
proof (induction target node position vals and target cs position vals and target pc position vals
    arbitrary: a S fuel vs and as S fuel vs and pa S fuel vs rule: search_search_static_search_parameter.induct)
  case (1 target node position vals)
  then obtain f where f: "fuel = Suc f" by (cases fuel) auto
  from "1.prems"(1) obtain c A B C where c: "cell_at mem a = Some c" "labels c node"
    "stored_all mem (c_static c) (n_static node) A" "stored_opt mem (c_parameter c) (n_parameter node) B"
    "stored_opt mem (c_catch_all c) (n_catch_all node) C" by (rule stored_parts)
  have ok: "static_ok (n_static node)" "parameter_ok (n_parameter node)"
    using "1.prems"(2) by (simp_all add: node_ok_parts [of node])
  show ?case
  proof (cases "position = length target \<and> n_route node \<noteq> None")
    case True
    have "same_node mem a node node a" by (auto simp: same_node_def intro: exI [of _ "[]"])
    with True c(1,2) "1.prems"(5) show ?thesis by (auto simp: f search.simps labels_def)
  next
    case False
    show ?thesis
      unfolding f
    proof (rule heap_search_node [OF c(1,2) False _ _ c(5) "1.prems"(3)])
      show "found_like (same_node mem a node) target (search_static target (n_static node) position vals)
          (heap_search_static f mem target (c_static c) position vs)"
        using "1.IH"(1) [OF False c(3) ok(1) "1.prems"(3) _ "1.prems"(5), of f] "1.prems"(4) f
        by (auto intro: found_like_mono below_static_same_node [OF "1.prems"(1) c(1)])
      show "found_like (same_node mem a node) target (search_parameter target (n_parameter node) position vals1)
          (heap_search_parameter f mem target (c_parameter c) position vs1)"
        if "search_static target (n_static node) position vals = (None, vals1)" "views target vs1 vals1" for vals1 vs1
        using "1.IH"(2) [OF False that(1) [symmetric] refl c(4) ok(2) "1.prems"(3) _ that(2), of f] "1.prems"(4) f
        by (auto intro: found_like_mono below_parameter_same_node [OF "1.prems"(1) c(1)])
      show "same_node mem a node k b" if "n_catch_all node = Some k" "c_catch_all c = Some b" for k b
        using that c(1) by (auto simp: same_node_def intro!: exI [of _ "[CatchAllEdge]"])
    qed
  qed
next
  case (3 target child cs position vals)
  from "3.prems"(1) obtain b as' B D where as: "as = b # as'" "stored mem b child B" "stored_all mem as' cs D"
    by (auto simp: stored_all_Cons)
  have ok: "0 < length (n_prefix child)" "node_ok child" "static_ok cs" using "3.prems"(2) by (simp_all add: static_ok_Cons)
  show ?case
    unfolding as(1)
  proof (rule heap_search_static_stored [OF as(2) "3.prems"(3,5)])
    assume "sv_substr (drop position target) 0 (length (n_prefix child)) \<noteq> n_prefix child"
    from "3.IH"(1) [OF this as(3) ok(3) "3.prems"(3-5)]
    show "found_like (below_static mem as' cs) target (search_static target cs position vals)
        (heap_search_static fuel mem target as' position vs)" .
  next
    assume len: "position + length (n_prefix child) \<le> length target"
      and "sv_substr (drop position target) 0 (length (n_prefix child)) = n_prefix child"
    then show "found_like (same_node mem b child) target (search target child (position + length (n_prefix child)) vals)
        (heap_search fuel mem target b (position + length (n_prefix child)) vs)"
      using "3.prems"(4) ok(1) by (intro "3.IH"(2) [OF _ refl as(2) ok(2) len _ "3.prems"(5)]) linarith+
  next
    fix vals1 vs1
    assume "sv_substr (drop position target) 0 (length (n_prefix child)) = n_prefix child"
      and none: "search target child (position + length (n_prefix child)) vals = (None, vals1)"
      and "views target vs1 (take (length vals) vals1)"
    then show "found_like (below_static mem as' cs) target (search_static target cs position (take (length vals) vals1))
        (heap_search_static fuel mem target as' position vs1)"
      by (intro "3.IH"(3) [OF _ refl none [symmetric] refl as(3) ok(3) "3.prems"(3,4)]) simp_all
  qed
next
  case (5 target c position vals)
  from "5.prems"(1) obtain b where b: "pa = Some b" "stored mem b c S" by (auto simp: stored_opt_Some)
  show ?case
  proof (cases "position < length target \<and> target ! position \<noteq> CHR ''/''")
    case False
    with b(1) "5.prems"(5) show ?thesis by auto
  next
    case True
    let ?e = "segment_end target position"
    have e: "position < ?e" "?e \<le> length target" using True segment_end_gt segment_end_le by auto
    have v: "views target (vs @ [(position, ?e - position)]) (vals @ [sv_substr target position (?e - position)])"
      using views_snoc [OF "5.prems"(5)] e by simp
    have "node_ok c" using "5.prems"(2) by (simp add: parameter_ok_def)
    with "5.IH" [OF True refl refl b(2) _ e(2) _ v, of fuel] "5.prems"(4) e
    have "found_like (same_node mem b c) target
        (search target c ?e (vals @ [sv_substr target position (?e - position)]))
        (heap_search fuel mem target b ?e (vs @ [(position, ?e - position)]))" by simp
    from heap_search_segment [OF True "5.prems"(5) this] show ?thesis unfolding b(1) .
  qed
qed auto

end
