(* ===== verification/Router_Heap_Machine.thy ===== *)
theory Router_Heap_Machine
  imports Router_Heap_Match
begin

text \<open>
  The router in memory is the router: call by call it cannot be told from the value model,
  and so, as that one, from a table of shapes.  Its operations are always defined: no pointer
  that the code follows dangles, and the search needs no more fuel than it is given.
\<close>

section \<open>Routers in memory\<close>

fun verb_holds :: "'h memory \<Rightarrow> addr option option \<Rightarrow> 'h node option option \<Rightarrow> addr set \<Rightarrow> bool" where
  "verb_holds mem (Some (Some a)) (Some (Some t)) S \<longleftrightarrow> stored mem a t S"
| "verb_holds mem (Some None) (Some None) S \<longleftrightarrow> S = {}"
| "verb_holds mem None None S \<longleftrightarrow> S = {}"
| "verb_holds mem _ _ S \<longleftrightarrow> False"

lemma verb_holds_cells: "verb_holds mem pa pt S \<Longrightarrow> S \<subseteq> {..<length mem}"
  by (induction mem pa pt S rule: verb_holds.induct) (auto dest: stored_cells(1))

lemma verb_holds_frame: "verb_holds mem pa pt S \<Longrightarrow> agrees mem mem' S \<Longrightarrow> verb_holds mem' pa pt S"
  by (induction mem pa pt S rule: verb_holds.induct) (auto intro: stored_frame)

lemma verb_holds_Some: "verb_holds mem pa (Some (Some t)) S \<Longrightarrow> \<exists>a. pa = Some (Some a) \<and> stored mem a t S"
  by (cases "(mem, pa, Some (Some t), S)" rule: verb_holds.cases) auto

lemma verb_holds_no_tree:
  "verb_holds mem pa pt S \<Longrightarrow> \<nexists>t. pt = Some (Some t) \<Longrightarrow> S = {} \<and> pa = map_option (\<lambda>_. None) pt"
  by (cases "(mem, pa, pt, S)" rule: verb_holds.cases) auto

text \<open>\<open>F v\<close> are the cells that the tree of verb \<open>v\<close> owns.\<close>

definition heap_holds :: "('v, 'h) heap_router \<Rightarrow> ('v, 'h) router \<Rightarrow> ('v \<Rightarrow> addr set) \<Rightarrow> bool" where
  "heap_holds h r F \<longleftrightarrow> (\<forall>v. verb_holds (hr_memory h) (hr_roots h v) (roots r v) (F v))
     \<and> (\<forall>v w. v \<noteq> w \<longrightarrow> F v \<inter> F w = {})"

lemma heap_holds_verb: "heap_holds h r F \<Longrightarrow> verb_holds (hr_memory h) (hr_roots h v) (roots r v) (F v)"
  by (simp add: heap_holds_def)

lemma heap_holds_empty: "heap_holds new_heap_router new_router (\<lambda>_. {})"
  by (simp add: heap_holds_def new_heap_router_def new_router_def)

text \<open>An operation on the tree of one verb leaves the others alone.\<close>

lemma heap_holds_update:
  assumes h: "heap_holds h r F" and root: "hr_roots h' = (hr_roots h)(v \<mapsto> Some a)"
    and t: "stored (hr_memory h') a t S'" and g: "grows (F v) (hr_memory h) S' (hr_memory h')"
  shows "heap_holds h' (store_root r v t) (F(v := S'))"
proof -
  have other: "agrees (hr_memory h) (hr_memory h') (F w)" "F w \<inter> S' = {}" if "w \<noteq> v" for w
    using grows_frame [OF g verb_holds_cells [OF heap_holds_verb [OF h, of w]]] h that by (auto simp: heap_holds_def)
  have "verb_holds (hr_memory h') (hr_roots h' w) (roots (store_root r v t) w) ((F(v := S')) w)" for w
    using root t verb_holds_frame [OF heap_holds_verb [OF h, of w] other(1)] by (simp add: store_root_def)
  moreover have "(F(v := S')) x \<inter> (F(v := S')) y = {}" if "x \<noteq> y" for x y
    using that h other(2) [of x] other(2) [of y] by (auto simp: heap_holds_def)
  ultimately show ?thesis by (auto simp: heap_holds_def)
qed

lemma heap_root_holds:
  assumes h: "heap_holds h r F" and root: "heap_root h v = (h1, a)"
  shows "\<exists>S. stored (hr_memory h1) a (root_for r v) S \<and> grows (F v) (hr_memory h) S (hr_memory h1)
    \<and> hr_roots h1 = (hr_roots h)(v \<mapsto> Some a)"
proof (cases "\<exists>t. roots r v = Some (Some t)")
  case True
  then obtain t where t: "roots r v = Some (Some t)" by blast
  with verb_holds_Some heap_holds_verb [OF h, of v] obtain b where
    "hr_roots h v = Some (Some b)" "stored (hr_memory h) b t (F v)" by fastforce
  with t root show ?thesis by (auto simp: root_for_def heap_root_def fun_upd_idem)
next
  case False
  note none = verb_holds_no_tree [OF heap_holds_verb [OF h, of v] False]
  let ?l = "length (hr_memory h)"
  have h1: "a = ?l" "hr_memory h1 = hr_memory h @ [new_cell NStatic []]" "hr_roots h1 = (hr_roots h)(v \<mapsto> Some ?l)"
    using none root by (cases "roots r v"; auto simp: heap_root_def)+
  have "root_for r v = make_node NStatic []" using False by (auto simp: root_for_def split: option.splits)
  moreover have "stored (hr_memory h1) a (make_node NStatic []) {?l}"
    using make_node_stored [of "hr_memory h1" a NStatic "[]"] h1(1,2) by simp
  moreover have "grows {} (hr_memory h) {?l} (hr_memory h1)"
    using h1(2) by (auto simp: grows_def agrees_def)
  ultimately show ?thesis using none h1(1,3) by metis
qed

section \<open>The calls\<close>

lemma set_route_stored:
  assumes "stored mem a n A" "cell_at mem a = Some c"
  shows "stored (put_cell mem a (c\<lparr>c_route := x\<rparr>)) a (set_route x n) A"
    and "grows A mem A (put_cell mem a (c\<lparr>c_route := x\<rparr>))"
proof -
  let ?mem = "put_cell mem a (c\<lparr>c_route := x\<rparr>)"
  from assms obtain T where T: "labels c n" "below mem c n T" "a \<notin> T" "A = insert a T" by (auto simp: stored_iff)
  have "agrees mem ?mem T" using T(3) by (auto simp: agrees_def)
  from below_frame [OF T(2) this] have "below ?mem (c\<lparr>c_route := x\<rparr>) (set_route x n) T"
    by (simp add: below_def)
  moreover have "cell_at ?mem a = Some (c\<lparr>c_route := x\<rparr>)" using assms(2) by (simp add: cell_at_Some)
  moreover have "labels (c\<lparr>c_route := x\<rparr>) (set_route x n)" using T(1) by (simp add: labels_def)
  ultimately show "stored ?mem a (set_route x n) A" using T(3,4) by (auto simp: stored_iff)
  show "grows A mem A ?mem" using T(4) by (auto simp: grows_def agrees_def)
qed

lemma insert_route_stored:
  assumes h: "heap_holds h r F" and ok: "router_ok r" and pat: "pattern \<noteq> []" "hd pattern \<notin> set '':*''"
    and ins: "insert_route r v pattern x = (r', res)"
  shows "\<exists>h' F'. heap_insert_route h v pattern x = Some (h', res) \<and> heap_holds h' r' F'"
proof -
  obtain h1 a where root: "heap_root h v = (h1, a)" by fastforce
  from heap_root_holds [OF h root] obtain S where
    s: "stored (hr_memory h1) a (root_for r v) S" "grows (F v) (hr_memory h) S (hr_memory h1)"
      "hr_roots h1 = (hr_roots h)(v \<mapsto> Some a)" by blast
  note t = root_for_ok [OF ok, of v]
  obtain t' lres where loop: "insert_loop (root_for r v) [] [] pattern = (t', lres)" by fastforce
  have rd: "ready (root_for r v) pattern" using t(2) pat by (simp add: ready_def)
  from insert_loop_correct [OF t(1) _ rd loop] obtain p m where
    p: "lres = Inr (p, token_names pattern)" "node_at t' p = Some m" by auto
  from insert_loop_stored [OF _ t(1) _ rd loop [unfolded p(1)], of "hr_memory h1" a S a] s(1) obtain mem S' b where
    l: "heap_insert_loop (hr_memory h1) a [] pattern = Some (mem, Inr (b, token_names pattern))"
      "standing mem a t' S' p b" "grows S (hr_memory h1) S' mem"
    by (auto simp: standing_def)
  from stored_focus [of mem a t' S' p m] l(2) p(2) obtain A R where
    f: "stored mem b m A" "focus mem a t' S' p b A R" by (metis standing_def focusD(1) option.inject)
  then obtain c where c: "cell_at mem b = Some c" "c_route c = n_route m" by (auto simp: stored_iff labels_def)
  have g: "grows (F v) (hr_memory h) S' mem" by (rule grows_trans [OF s(2) l(3)])
  have st: "stored mem a t' S'" using l(2) by (simp add: standing_def)
  show ?thesis
  proof (cases "n_route m")
    case None
    let ?x = "Some \<lparr>r_handler = x, r_parameter_names = token_names pattern\<rparr>"
    let ?mem = "put_cell mem b (c\<lparr>c_route := ?x\<rparr>)"
    from stored_replace [OF st f(2,1) set_route_stored [OF f(1) c(1)]] obtain S2 where
      s2: "stored ?mem a (put_at t' p (set_route ?x m)) S2" "grows S' mem S2 ?mem" by blast
    have "heap_holds (h1\<lparr>hr_memory := ?mem\<rparr>) (store_root r v (put_at t' p (set_route ?x m))) (F(v := S2))"
      by (rule heap_holds_update [OF h]) (use s(3) s2(1) grows_trans [OF g s2(2)] in auto)
    moreover have "r' = store_root r v (put_at t' p (set_route ?x m))" "res = Inr ()"
      using ins loop p None by (simp_all add: insert_route_def)
    moreover have "heap_insert_route h v pattern x = Some (h1\<lparr>hr_memory := ?mem\<rparr>, Inr ())"
      using root l(1) c None by (simp add: heap_insert_route_def)
    ultimately show ?thesis by blast
  next
    case (Some y)
    have "heap_holds (h1\<lparr>hr_memory := mem\<rparr>) (store_root r v t') (F(v := S'))"
      by (rule heap_holds_update [OF h]) (use s(3) st g in auto)
    moreover have "r' = store_root r v t'" "res = Inl (InvalidArgument ''Duplicate route'')"
      using ins loop p Some by (simp_all add: insert_route_def)
    moreover have "heap_insert_route h v pattern x =
        Some (h1\<lparr>hr_memory := mem\<rparr>, Inl (InvalidArgument ''Duplicate route''))"
      using root l(1) c Some by (simp add: heap_insert_route_def)
    ultimately show ?thesis by blast
  qed
qed

lemma add_route_stored:
  assumes "heap_holds h r F" "router_ok r" "add_route r v p x = (r', res)"
  shows "\<exists>h' F'. heap_add_route h v p x = Some (h', res) \<and> heap_holds h' r' F'"
proof (cases "validate_pattern p")
  case (Inl e)
  then have "add_route r v p x = (r, Inl e)" "heap_add_route h v p x = Some (h, Inl e)"
    by (simp_all add: add_route_def heap_add_route_def)
  with assms(1,3) show ?thesis by auto
next
  case (Inr u)
  then have "well_formed p" using validate_pattern_ok [of p] by auto
  with well_formed_start have "p \<noteq> []" "hd p \<notin> set '':*''" by auto
  from insert_route_stored [OF assms(1,2) this] assms(3) Inr show ?thesis
    by (simp add: add_route_def heap_add_route_def)
qed

text \<open>A match result in memory that shows what the match result of the value model holds, with
  the node it refers to.\<close>

lemma match_route_stored:
  assumes h: "heap_holds h r F" and ok: "router_ok r"
  shows "match_route r v t = Inr None \<and> heap_match_route h v t = Some (Inr None)
    \<or> (\<exists>x m root a n. match_route r v t = Inr (Some x) \<and> heap_match_route h v t = Some (Inr (Some m))
        \<and> roots r v = Some (Some root) \<and> hr_roots h v = Some (Some a)
        \<and> same_node (hr_memory h) a root n (hm_node m) \<and> n_route n = Some (mr_route x)
        \<and> views (strip_query t) (hm_values m) (mr_parameter_values x))"
proof (cases "\<exists>root. roots r v = Some (Some root)")
  case True
  then obtain root where root: "roots r v = Some (Some root)" by blast
  with verb_holds_Some heap_holds_verb [OF h, of v] obtain a where
    a: "hr_roots h v = Some (Some a)" "stored (hr_memory h) a root (F v)" by fastforce
  have "node_ok root" using ok root by (simp add: router_ok_def node_wf_def)
  let ?t = "strip_query t" and ?mem = "hr_memory h"
  have f: "found_like (same_node ?mem a root) ?t (search ?t root 0 []) (heap_search (Suc (length ?t)) ?mem ?t a 0 [])"
    by (rule heap_search_stored(1) [OF a(2) \<open>node_ok root\<close>]) simp_all
  obtain y vals where s: "search ?t root 0 [] = (y, vals)" by fastforce
  show ?thesis
  proof (cases y)
    case None
    with found_like_None [OF f [unfolded s None]] root a(1) s show ?thesis
      by (auto simp: match_route_def heap_match_route_def Let_def)
  next
    case (Some n)
    with found_like_Some [OF f [unfolded s Some]] obtain b vs where
      b: "heap_search (Suc (length ?t)) ?mem ?t a 0 [] = Some (Some b, vs)" "same_node ?mem a root n b" "views ?t vs vals" by blast
    obtain B where "stored ?mem b n B" using same_node_stored [OF a(2) b(2)] by blast
    then obtain c where c: "cell_at ?mem b = Some c" "c_route c = n_route n" by (auto simp: stored_iff labels_def)
    from match_route_optimal [OF ok, of v t] root s Some obtain x where x: "n_route n = Some x"
      by (auto simp: match_route_def split: option.splits)
    with root s Some have "match_route r v t = Inr (Some \<lparr>mr_route = x, mr_parameter_values = vals\<rparr>)"
      by (simp add: match_route_def)
    moreover have "heap_match_route h v t = Some (Inr (Some \<lparr>hm_node = b, hm_values = vs\<rparr>))"
      using a(1) b(1) c x by (simp add: heap_match_route_def Let_def)
    ultimately show ?thesis using root a(1) b(2,3) x by fastforce
  qed
next
  case False
  note none = verb_holds_no_tree [OF heap_holds_verb [OF h, of v] False]
  with False have "match_route r v t = Inr None" "heap_match_route h v t = Some (Inr None)"
    by (cases "roots r v"; auto simp: match_route_def heap_match_route_def split: option.splits)+
  then show ?thesis by blast
qed

section \<open>The machine\<close>

text \<open>The calls of \<open>Router_Machine\<close> with what a caller reads while the target is alive; a call
  whose behaviour is undefined, or a result that cannot be read, is no step.\<close>

inductive heap_step :: "('v, 'h) heap_router \<Rightarrow> ('v, 'h) router_call \<Rightarrow> ('v, 'h) heap_router \<Rightarrow> bool" where
  heap_adds: "heap_add_route h v p x = Some (h', res) \<Longrightarrow> outcome_of res = Some y \<Longrightarrow>
    heap_step h (CallAdd v p x y) h'"
| heap_misses: "heap_match_route h v t = Some (Inr None) \<Longrightarrow> heap_step h (CallMatch v t None) h"
| heap_finds: "heap_match_route h v t = Some (Inr (Some m)) \<Longrightarrow> read_match h t m = Some y \<Longrightarrow>
    heap_step h (CallMatch v t (Some y)) h"

inductive_simps heap_step_simps:
  "heap_step h (CallAdd v p x y) h'" "heap_step h (CallMatch v t z) h'"

definition bisimilar :: "('v, 'h) heap_router \<Rightarrow> ('v, 'h) router \<Rightarrow> bool" where
  "bisimilar h r \<longleftrightarrow> router_ok r \<and> (\<exists>F. heap_holds h r F)"

lemma strip_query_take: "\<exists>k. strip_query t = take k t"
  by (cases "sv_find (CHR ''?'') t 0") (auto simp: strip_query_def sv_substr_def intro: exI [of _ "length t"])

lemma views_text:
  assumes "views (strip_query t) vs vals"
  shows "map (view_text t) vs = vals"
proof -
  obtain k where k: "strip_query t = take k t" using strip_query_take by blast
  have "view_text t v = view_text (take k t) v" if "v \<in> set vs" for v
  proof -
    have "fst v + snd v \<le> length (take k t)" using that assms by (simp add: views_def k)
    then have "snd v \<le> k - fst v" by auto
    then show ?thesis by (simp add: view_text_def sv_substr_def drop_take min_def)
  qed
  then show ?thesis using assms by (auto simp: views_def k)
qed

text \<open>Each call of both machines.\<close>

lemma add_bisimilar:
  assumes "bisimilar h r" "add_route r v p x = (r', res)"
  shows "\<exists>h'. heap_add_route h v p x = Some (h', res) \<and> bisimilar h' r'"
proof -
  from assms(1) obtain F where F: "heap_holds h r F" "router_ok r" by (auto simp: bisimilar_def)
  from add_route_stored [OF F assms(2)] add_route_machine(2) [OF F(2) assms(2)] show ?thesis
    by (auto simp: bisimilar_def)
qed

lemma match_bisimilar:
  assumes "bisimilar h r"
  shows "match_route r v t = Inr None \<and> heap_match_route h v t = Some (Inr None)
    \<or> (\<exists>x m. match_route r v t = Inr (Some x) \<and> heap_match_route h v t = Some (Inr (Some m))
        \<and> read_match h t m = Some (match_pair x))"
proof -
  from assms obtain F where F: "heap_holds h r F" "router_ok r" by (auto simp: bisimilar_def)
  show ?thesis
    using match_route_stored [OF F, of v t]
  proof (elim disjE exE conjE)
    fix x m root a n
    assume x: "match_route r v t = Inr (Some x)" "heap_match_route h v t = Some (Inr (Some m))"
      "roots r v = Some (Some root)" "hr_roots h v = Some (Some a)"
      "same_node (hr_memory h) a root n (hm_node m)" "n_route n = Some (mr_route x)"
      "views (strip_query t) (hm_values m) (mr_parameter_values x)"
    have "stored (hr_memory h) a root (F v)" using heap_holds_verb [OF F(1), of v] x(3,4) by simp
    then obtain B where "stored (hr_memory h) (hm_node m) n B" using same_node_stored x(5) by blast
    then have "route_behind h m = Some (mr_route x)"
      using x(6) by (auto simp: route_behind_def stored_iff labels_def)
    then have "read_match h t m = Some (match_pair x)" using views_text [OF x(7)] by (simp add: read_match_def)
    with x(1,2) show ?thesis by blast
  qed simp
qed

interpretation heap_router: bisimulation heap_step new_heap_router router_step new_router bisimilar
proof (unfold_locales, goal_cases)
  case 1
  show ?case using heap_holds_empty by (auto simp: bisimilar_def router_ok_def new_router_def)
next
  case (2 h r call h')
  show ?case
  proof (cases call)
    case (CallAdd v p x y)
    obtain r' res where "add_route r v p x = (r', res)" by fastforce
    with add_bisimilar [OF 2(1) this] 2(2) CallAdd show ?thesis by (auto simp: heap_step_simps router_step_simps)
  next
    case (CallMatch v t z)
    with match_bisimilar [OF 2(1), of v t] 2 show ?thesis by (auto simp: heap_step_simps router_step_simps)
  qed
next
  case (3 h r call r')
  show ?case
  proof (cases call)
    case (CallAdd v p x y)
    with 3(2) obtain res where "add_route r v p x = (r', res)" "outcome_of res = Some y"
      by (auto simp: router_step_simps)
    with add_bisimilar [OF 3(1) this(1)] CallAdd show ?thesis by (auto simp: heap_step_simps)
  next
    case (CallMatch v t z)
    with match_bisimilar [OF 3(1), of v t] 3 show ?thesis by (auto simp: heap_step_simps router_step_simps)
  qed
qed

lemma heap_router_total: "trace heap_step new_heap_router calls h \<Longrightarrow> heap_add_route h v p x \<noteq> None"
  using heap_router.trace_forth add_bisimilar by (metis option.distinct(1) surj_pair)

lemma heap_trace_bisimilar: "trace heap_step new_heap_router calls h \<Longrightarrow> \<exists>r. bisimilar h r"
  using heap_router.trace_forth by blast

section \<open>Properties\<close>

text \<open>C5. Refinement: the router in memory, with its pointers, in-place splits and views, cannot
  be told from a table of shapes: the same sequences of \<open>add_route\<close> and \<open>match\<close> calls with the
  same arguments and the same results, exceptions included, are possible for both.\<close>

theorem heap_router_refines:
  "behaviours heap_step new_heap_router = behaviours store_step (\<lambda>_. Map.empty)"
  using heap_router.same_behaviours router_machine.behaviours_equal by blast

text \<open>C6. Memory safety: after any calls, every call of \<open>add_route\<close> and \<open>match\<close> is defined.  It
  follows no dangling pointer, takes the first character of no empty string, and recurses at
  most as deep as the target is long, and one; and a result of \<open>match\<close> can be read, its
  values lying inside the path.\<close>

theorem heap_router_safe:
  assumes "trace heap_step new_heap_router calls h"
  shows "heap_add_route h v p x \<noteq> None
    \<and> (heap_match_route h v t = Some (Inr None)
       \<or> (\<exists>m. heap_match_route h v t = Some (Inr (Some m)) \<and> read_match h t m \<noteq> None
            \<and> (\<forall>w\<in>set (hm_values m). fst w + snd w \<le> length (strip_query t))))"
proof -
  from heap_trace_bisimilar [OF assms] obtain r F where b: "bisimilar h r" "heap_holds h r F" "router_ok r"
    by (auto simp: bisimilar_def)
  obtain r' res where "add_route r v p x = (r', res)" by fastforce
  with add_bisimilar [OF b(1)] have "heap_add_route h v p x \<noteq> None" by fastforce
  with match_bisimilar [OF b(1), of v t] match_route_stored [OF b(2,3), of v t] show ?thesis
    by (auto simp: views_def)
qed

text \<open>A router in memory after one registration.\<close>

definition one_route :: "(string, nat) heap_router" where
  "one_route = fst (the (heap_add_route new_heap_router ''GET'' ''/abc'' 0))"

lemma one_route_trace: "trace heap_step new_heap_router [CallAdd ''GET'' ''/abc'' 0 Added] one_route"
proof -
  have "map_option snd (heap_add_route (new_heap_router :: (string, nat) heap_router) ''GET'' ''/abc'' 0) = Some (Inr ())"
    by code_simp
  then have "heap_add_route new_heap_router ''GET'' ''/abc'' 0 = Some (one_route, Inr ())"
    by (auto simp: one_route_def)
  then show ?thesis
    using trace.trace_step [OF trace.trace_init, of heap_step new_heap_router "CallAdd ''GET'' ''/abc'' 0 Added" one_route]
    by (simp add: heap_step_simps)
qed

theorem heap_router_safe_witness:
  "heap_add_route one_route ''GET'' ''/abd'' 1 \<noteq> None \<and>
   (\<exists>m. heap_match_route one_route ''GET'' ''/abc'' = Some (Inr (Some m)) \<and> read_match one_route ''/abc'' m \<noteq> None)"
proof -
  have "heap_match_route one_route ''GET'' ''/abc'' \<noteq> Some (Inr None)" by code_simp
  with heap_router_safe [OF one_route_trace, of "''GET''" "''/abd''" 1 "''/abc''"] show ?thesis by blast
qed

end
