(* ===== verification/Router_Boundaries.thy ===== *)
theory Router_Boundaries
  imports Router_Machine
begin

text \<open>
  Where the nodes of a tree are, as token lists (\<open>reaches\<close>), and where an insertion puts new
  ones: only along the pattern that is inserted, and only beyond the last node that is
  already there.
\<close>

section \<open>Nodes and their token lists\<close>

definition reaches_static :: "'h node list \<Rightarrow> tok list \<Rightarrow> bool" where
  "reaches_static cs ws \<longleftrightarrow> (\<exists>c\<in>set cs. \<exists>vs. ws = map Lit (n_prefix c) @ vs \<and> reaches c vs)"

definition reaches_special :: "'h node \<Rightarrow> tok list \<Rightarrow> bool" where
  "reaches_special n ws \<longleftrightarrow> (\<exists>c vs. n_parameter n = Some c \<and> ws = Param # vs \<and> reaches c vs)
     \<or> (\<exists>c vs. n_catch_all n = Some c \<and> ws = CatchAll # vs \<and> reaches c vs)"

lemma reachesI: "node_at n q = Some m \<Longrightarrow> reaches n (path_tokens n q)"
  by (auto simp: reaches_def)

lemma reaches_iff: "reaches n ws \<longleftrightarrow> ws = [] \<or> reaches_static (n_static n) ws \<or> reaches_special n ws"
proof
  assume "reaches n ws"
  then obtain q m where q: "node_at n q = Some m" "path_tokens n q = ws" by (auto simp: reaches_def)
  show "ws = [] \<or> reaches_static (n_static n) ws \<or> reaches_special n ws"
  proof (cases q)
    case (Cons e p)
    show ?thesis
    proof (cases e)
      case (StaticEdge i)
      with q Cons have "i < length (n_static n)" "node_at (n_static n ! i) p = Some m" by (auto split: if_splits)
      with q(2) Cons StaticEdge nth_mem [of i "n_static n"] show ?thesis
        by (auto simp: reaches_static_def dest: reachesI)
    qed (use q Cons in \<open>auto simp: reaches_special_def dest: reachesI split: option.splits\<close>)
  qed (use q in simp)
next
  assume "ws = [] \<or> reaches_static (n_static n) ws \<or> reaches_special n ws"
  then consider "ws = []"
    | i vs where "i < length (n_static n)" "ws = map Lit (n_prefix (n_static n ! i)) @ vs" "reaches (n_static n ! i) vs"
    | "reaches_special n ws"
    by (auto simp: reaches_static_def in_set_conv_nth)
  then show "reaches n ws"
  proof cases
    case 1
    then show ?thesis by (auto simp: reaches_def intro!: exI [of _ "[]"])
  next
    case (2 i vs)
    then obtain p m where "node_at (n_static n ! i) p = Some m" "path_tokens (n_static n ! i) p = vs"
      by (auto simp: reaches_def)
    with 2 have "node_at n (StaticEdge i # p) = Some m" "path_tokens n (StaticEdge i # p) = ws" by simp_all
    then show ?thesis unfolding reaches_def by blast
  next
    case 3
    then consider c vs p m where "n_parameter n = Some c" "ws = Param # vs" "node_at c p = Some m" "path_tokens c p = vs"
      | c vs p m where "n_catch_all n = Some c" "ws = CatchAll # vs" "node_at c p = Some m" "path_tokens c p = vs"
      by (auto simp: reaches_special_def reaches_def)
    then show ?thesis
    proof cases
      case (1 c vs p m)
      then have "node_at n (ParameterEdge # p) = Some m" "path_tokens n (ParameterEdge # p) = ws" by simp_all
      then show ?thesis unfolding reaches_def by blast
    next
      case (2 c vs p m)
      then have "node_at n (CatchAllEdge # p) = Some m" "path_tokens n (CatchAllEdge # p) = ws" by simp_all
      then show ?thesis unfolding reaches_def by blast
    qed
  qed
qed

lemma reaches_Nil [simp]: "reaches n []"
  by (simp add: reaches_iff)

lemma reaches_static_simps [simp]:
  "\<not> reaches_static [] ws"
  "reaches_static (c # cs) ws \<longleftrightarrow> (\<exists>vs. ws = map Lit (n_prefix c) @ vs \<and> reaches c vs) \<or> reaches_static cs ws"
  by (auto simp: reaches_static_def)

lemma reaches_static_Nil: "static_ok cs \<Longrightarrow> \<not> reaches_static cs []"
  by (auto simp: reaches_static_def static_ok_def)

lemma reaches_special_not_literal: "\<not> reaches_special n (Lit c # ws)"
  by (simp add: reaches_special_def)

lemma reaches_special_set_static [simp]: "reaches_special (set_static cs n) = reaches_special n"
  by (simp add: reaches_special_def fun_eq_iff)

section \<open>New nodes\<close>

text \<open>The nodes of \<open>B\<close> that are not among those of \<open>A\<close> lie on the way to \<open>us\<close>, just where the way to
  some node of \<open>A\<close> leaves it or beyond all of them; and no node is lost.\<close>

definition fresh_on :: "(tok list \<Rightarrow> bool) \<Rightarrow> tok list \<Rightarrow> tok list \<Rightarrow> bool" where
  "fresh_on A us ws \<longleftrightarrow> prefix ws us
     \<and> (\<forall>zs l. A zs \<longrightarrow> prefix ws zs \<longrightarrow> prefix l zs \<longrightarrow> prefix l us \<longrightarrow> prefix l ws)"

definition extends_to :: "(tok list \<Rightarrow> bool) \<Rightarrow> tok list \<Rightarrow> (tok list \<Rightarrow> bool) \<Rightarrow> bool" where
  "extends_to A us B \<longleftrightarrow> (\<forall>ws. A ws \<longrightarrow> B ws) \<and> (\<forall>ws. B ws \<longrightarrow> A ws \<or> fresh_on A us ws)"

lemma extends_to_refl [simp]: "extends_to A us A"
  by (simp add: extends_to_def)

lemma fresh_onI:
  "prefix ws us \<Longrightarrow> (\<And>zs l. A zs \<Longrightarrow> prefix ws zs \<Longrightarrow> prefix l zs \<Longrightarrow> prefix l us \<Longrightarrow> prefix l ws) \<Longrightarrow> fresh_on A us ws"
  by (auto simp: fresh_on_def)

lemma fresh_on_self [simp]: "fresh_on A us us"
  by (simp add: fresh_on_def)

lemma fresh_onD:
  assumes "fresh_on A us ws"
  shows "prefix ws us" "A zs \<Longrightarrow> prefix ws zs \<Longrightarrow> prefix l zs \<Longrightarrow> prefix l us \<Longrightarrow> prefix l ws"
  using assms by (auto simp: fresh_on_def)

text \<open>The same behind a common beginning.\<close>

lemma fresh_on_append:
  assumes f: "fresh_on A us ws" and below: "\<And>zs. B (ps @ zs) \<Longrightarrow> prefix ws zs \<Longrightarrow> A zs"
  shows "fresh_on B (ps @ us) (ps @ ws)"
proof (rule fresh_onI)
  show "prefix (ps @ ws) (ps @ us)" using fresh_onD(1) [OF f] by simp
  fix zs l assume zs: "B zs" "prefix (ps @ ws) zs" "prefix l zs" "prefix l (ps @ us)"
  from zs(2) obtain ys where ys: "zs = ps @ ws @ ys" by (auto simp: prefix_def)
  from zs(4) consider "prefix l ps" | l' where "l = ps @ l'" "prefix l' us" by (auto simp: prefix_append)
  then show "prefix l (ps @ ws)"
  proof cases
    case 2
    with zs(1,3) ys below [of "ws @ ys"] fresh_onD(2) [OF f, of "ws @ ys" l'] show ?thesis by simp
  qed simp
qed

lemma split_child_reaches:
  assumes "k < length (n_prefix c)"
  shows "reaches (split_child k c) vs \<longleftrightarrow> vs = [] \<or> (\<exists>vs'. vs = map Lit (drop k (n_prefix c)) @ vs' \<and> reaches c vs')"
proof -
  obtain ty pre ss pm ca r where c: "c = Node ty pre ss pm ca r" by (cases c) auto
  have same: "reaches (Node NStatic (drop k pre) ss pm ca r) ws = reaches c ws" for ws
    by (simp add: c reaches_iff [of "Node _ _ _ _ _ _"] reaches_special_def)
  show ?thesis unfolding c by (subst reaches_iff) (simp add: Let_def same [unfolded c] reaches_special_def)
qed

lemma split_if_needed_reaches:
  "reaches (split_if_needed tx c) vs \<longleftrightarrow> common_prefix (n_prefix c) tx < length (n_prefix c) \<and> vs = []
    \<or> (\<exists>vs'. vs = map Lit (drop (common_prefix (n_prefix c) tx) (n_prefix c)) @ vs' \<and> reaches c vs')"
  using common_prefix_take(2) [of "n_prefix c" tx]
  by (cases "common_prefix (n_prefix c) tx < length (n_prefix c)") (auto simp: split_if_needed_def split_child_reaches)

lemma prefix_map_Lit: "prefix (map Lit a) (map Lit b) \<longleftrightarrow> prefix a b"
  by (induction a arbitrary: b) (auto simp: prefix_def Cons_eq_map_conv append_eq_map_conv)

text \<open>On the way of a text there is only the child that shares its first character.\<close>

lemma reaches_static_way:
  assumes ok: "static_ok (child # cs)" and hd: "head child = hd tx" and ws: "ws \<noteq> []" "prefix ws (map Lit tx)" "prefix ws zs"
    and r: "reaches_static (child # cs) zs"
  obtains vs where "zs = map Lit (n_prefix child) @ vs" "reaches child vs"
proof -
  from r obtain d vs where d: "d \<in> set (child # cs)" "zs = map Lit (n_prefix d) @ vs" "reaches d vs"
    by (auto simp: reaches_static_def)
  have "n_prefix d \<noteq> []" using ok d(1) by (auto simp: static_ok_def)
  then have "hd zs = Lit (head d)" using d(2) by (simp add: hd_map)
  moreover have "hd zs = hd (map Lit tx)" "tx \<noteq> []" using ws by (auto simp: prefix_def)
  ultimately have "head d = hd tx" by (simp add: hd_map)
  with hd ok d(1) have "d = child" by (auto simp: static_ok_Cons)
  with d that show ?thesis by blast
qed

text \<open>Where a prefix is cut short, every way that continues it leaves the text there.\<close>

lemma lcp_leaves:
  "length (longest_common_prefix p tx) < length p \<Longrightarrow> prefix l (map Lit p @ zs) \<Longrightarrow> prefix l (map Lit tx) \<Longrightarrow>
   prefix l (map Lit (longest_common_prefix p tx))"
proof (induction p tx arbitrary: l rule: longest_common_prefix.induct)
  case (1 x xs y ys)
  then show ?case by (cases l) (auto split: if_splits)
qed auto

lemma take_common_prefix: "take (common_prefix p tx) tx = longest_common_prefix p tx"
  unfolding common_prefix_lcp using longest_common_prefix_prefix2 [of p tx] by (metis append_eq_conv_conj prefix_def)

text \<open>What a child grows below it is fresh for all siblings, and so is the place of its split.  Here
  every node of the siblings at or below \<open>us @ ws\<close> is the child's, and \<open>us @ vs\<close> is where
  the child stands.\<close>

lemma fresh_below_child:
  assumes new: "fresh_on B d vs" and via: "\<And>zs. A zs \<Longrightarrow> prefix (us @ vs) zs \<Longrightarrow> \<exists>ys. zs = us @ ys \<and> B ys"
  shows "fresh_on A (us @ d) (us @ vs)"
proof (rule fresh_onI)
  show "prefix (us @ vs) (us @ d)" using fresh_onD(1) [OF new] by simp
  fix zs l assume zs: "A zs" "prefix (us @ vs) zs" "prefix l zs" "prefix l (us @ d)"
  from via [OF zs(1,2)] obtain ys where ys: "zs = us @ ys" "B ys" by blast
  from zs(4) consider "prefix l us" | l' where "l = us @ l'" "prefix l' d" by (auto simp: prefix_append)
  then show "prefix l (us @ vs)"
  proof cases
    case 2
    with zs(2,3) ys fresh_onD(2) [OF new ys(2), of l'] show ?thesis by simp
  qed simp
qed

lemma fresh_at_split:
  assumes "common_prefix p tx < length p"
    and via: "\<And>zs. A zs \<Longrightarrow> prefix (map Lit (take (common_prefix p tx) tx)) zs \<Longrightarrow> \<exists>ys. zs = map Lit p @ ys"
  shows "fresh_on A (map Lit tx) (map Lit (take (common_prefix p tx) tx))"
proof (rule fresh_onI)
  show "prefix (map Lit (take (common_prefix p tx) tx)) (map Lit tx)"
    by (rule map_mono_prefix) (rule take_is_prefix)
  fix zs l assume zs: "A zs" "prefix (map Lit (take (common_prefix p tx) tx)) zs" "prefix l zs" "prefix l (map Lit tx)"
  from via [OF zs(1,2)] obtain ys where "zs = map Lit p @ ys" by blast
  moreover have "length (longest_common_prefix p tx) < length p" using assms(1) by (simp add: common_prefix_lcp)
  ultimately show "prefix l (map Lit (take (common_prefix p tx) tx))"
    unfolding take_common_prefix using lcp_leaves zs(3,4) by blast
qed

lemma insert_child_extends:
  fixes tx :: string
  assumes ok: "static_ok (child # cs)" and tx: "tx \<noteq> []" and hd: "head child = hd tx"
    and pre: "n_prefix child2 = take (common_prefix (n_prefix child) tx) tx"
    and ext: "extends_to (reaches (split_if_needed tx child)) (map Lit (drop (common_prefix (n_prefix child) tx) tx)) (reaches child2)"
  shows "extends_to (reaches_static (child # cs)) (map Lit tx) (reaches_static (child2 # cs))"
proof -
  let ?k = "common_prefix (n_prefix child) tx" and ?p = "n_prefix child"
  let ?t = "map Lit (take ?k tx)" and ?d = "map Lit (drop ?k tx)" and ?s = "map Lit (drop ?k ?p)"
  have split: "map Lit ?p = ?t @ ?s"
    using append_take_drop_id [of ?k ?p] common_prefix_take(1) [of ?p tx] by (metis map_append)
  have way: "map Lit tx = ?t @ ?d" by (simp flip: map_append)
  have k0: "?t \<noteq> []"
    using common_prefix_pos [of ?p tx] tx hd ok by (auto simp: static_ok_Cons)
  have via: "\<exists>vs. zs = ?t @ ?s @ vs \<and> reaches child vs"
    if "reaches_static (child # cs) zs" "prefix (?t @ ws) zs" for zs ws
  proof -
    from that(2) have "prefix ?t zs" by (rule append_prefixD)
    with reaches_static_way [OF ok hd k0 _ _ that(1)] way split show ?thesis by (metis append.assoc prefixI)
  qed
  have keep: "reaches_static (child2 # cs) ws" if r: "reaches_static (child # cs) ws" for ws
    using r ext unfolding extends_to_def split_if_needed_reaches
    by (auto simp: split pre)
  have new: "reaches_static (child # cs) ws \<or> fresh_on (reaches_static (child # cs)) (map Lit tx) ws"
    if r: "reaches_static (child2 # cs) ws" for ws
  proof (cases "reaches_static cs ws")
    case False
    with r pre obtain vs where vs: "ws = ?t @ vs" "reaches child2 vs" by auto
    from ext vs(2) consider vs' where "vs = ?s @ vs'" "reaches child vs'" | (cut) "?k < length ?p" "vs = []"
      | (new) "fresh_on (reaches (split_if_needed tx child)) ?d vs"
      by (auto simp: extends_to_def split_if_needed_reaches)
    then show ?thesis
    proof cases
      case 1
      with vs(1) split show ?thesis by auto
    next
      case cut
      have "fresh_on (reaches_static (child # cs)) (map Lit tx) ?t"
        by (rule fresh_at_split [OF cut(1)]) (use via [of _ "[]"] split in auto)
      with cut(2) vs(1) show ?thesis by simp
    next
      case new
      have "fresh_on (reaches_static (child # cs)) (?t @ ?d) (?t @ vs)"
      proof (rule fresh_below_child [OF new])
        fix zs assume "reaches_static (child # cs) zs" "prefix (?t @ vs) zs"
        from via [OF this] show "\<exists>ys. zs = ?t @ ys \<and> reaches (split_if_needed tx child) ys"
          by (auto simp: split_if_needed_reaches)
      qed
      with vs(1) way show ?thesis by simp
    qed
  qed simp
  from keep new show ?thesis by (auto simp: extends_to_def)
qed

text \<open>A node whose children were extended, and children of which one was passed.\<close>

lemma set_static_extends:
  assumes ext: "extends_to (reaches_static (n_static n)) (map Lit tx) (reaches_static cs')"
  shows "extends_to (reaches n) (map Lit tx) (reaches (set_static cs' n))"
proof -
  have n': "reaches (set_static cs' n) ws \<longleftrightarrow> ws = [] \<or> reaches_static cs' ws \<or> reaches_special n ws" for ws
    by (simp add: reaches_iff [of "set_static cs' n"])
  have only: "reaches_static (n_static n) zs"
    if "reaches n zs" "prefix ws zs" "prefix ws (map Lit tx)" "ws \<noteq> []" for ws zs
  proof -
    from that(2-4) obtain c ys where "zs = Lit c # ys" by (cases ws; cases tx) (auto simp: prefix_def)
    with that(1) reaches_special_not_literal show ?thesis by (auto simp: reaches_iff [of n])
  qed
  have "reaches n ws \<or> fresh_on (reaches n) (map Lit tx) ws" if r: "reaches (set_static cs' n) ws" for ws
  proof (cases "reaches n ws")
    case False
    with r ext have f: "fresh_on (reaches_static (n_static n)) (map Lit tx) ws"
      by (auto simp: n' reaches_iff [of n] extends_to_def)
    have "ws \<noteq> []" using False by auto
    with f only [OF _ _ fresh_onD(1) [OF f]] have "fresh_on (reaches n) (map Lit tx) ws"
      by (auto simp: fresh_on_def)
    then show ?thesis ..
  qed simp
  with ext show ?thesis by (auto simp: n' reaches_iff [of n] extends_to_def)
qed

lemma skip_child_extends:
  assumes ok: "static_ok (child # cs)" and tx: "tx \<noteq> []" "head child \<noteq> hd tx"
    and ext: "extends_to (reaches_static cs) (map Lit tx) (reaches_static cs1)" and ne: "\<not> reaches_static cs1 []"
  shows "extends_to (reaches_static (child # cs)) (map Lit tx) (reaches_static (child # cs1))"
proof -
  have on: "fresh_on (reaches_static (child # cs)) (map Lit tx) ws" if f: "fresh_on (reaches_static cs) (map Lit tx) ws" "ws \<noteq> []" for ws
  proof -
    have "\<not> prefix ws (map Lit (n_prefix child) @ vs)" for vs
      using tx ok fresh_onD(1) [OF f(1)] f(2)
      by (auto simp: static_ok_Cons neq_Nil_conv prefix_def Cons_eq_append_conv)
    with f(1) show ?thesis by (auto simp: fresh_on_def)
  qed
  have "reaches_static (child # cs) ws \<or> fresh_on (reaches_static (child # cs)) (map Lit tx) ws"
    if "reaches_static (child # cs1) ws" for ws
  proof (cases "reaches_static cs1 ws")
    case True
    with ne ext have "reaches_static cs ws \<or> fresh_on (reaches_static cs) (map Lit tx) ws" "ws \<noteq> []"
      by (auto simp: extends_to_def)
    with on [of ws] show ?thesis by simp blast
  qed (use that in simp)
  moreover have "reaches_static (child # cs1) ws" if "reaches_static (child # cs) ws" for ws
    using that ext by (auto simp: extends_to_def)
  ultimately show ?thesis by (auto simp: extends_to_def simp del: reaches_static_simps)
qed

lemma insert_static_extends:
  fixes n :: "'h node" and cs :: "'h node list"
  shows "node_ok n \<Longrightarrow> plain tx \<Longrightarrow> insert_static n tx = (n', p) \<Longrightarrow> extends_to (reaches n) (map Lit tx) (reaches n')"
    and "static_ok cs \<Longrightarrow> tx2 \<noteq> [] \<Longrightarrow> plain tx2 \<Longrightarrow> insert_children cs tx2 = (cs', i, p2) \<Longrightarrow>
      extends_to (reaches_static cs) (map Lit tx2) (reaches_static cs')"
proof (induction n tx and cs tx2 arbitrary: n' p and cs' i p2 rule: insert_static_insert_children.induct)
  case (1 n tx)
  show ?case
  proof (cases "tx = []")
    case True
    with "1.prems" show ?thesis by (simp add: insert_static.simps)
  next
    case False
    obtain cs' i q where ins: "insert_children (n_static n) tx = (cs', i, q)" by (metis prod_cases3)
    with "1.IH" [OF False _ False "1.prems"(2) ins] "1.prems"(1)
    have ext: "extends_to (reaches_static (n_static n)) (map Lit tx) (reaches_static cs')" by (simp add: node_ok_parts [of n])
    have "n' = set_static cs' n" using ins False "1.prems"(3) by (simp add: insert_static.simps)
    with set_static_extends [OF ext] show ?thesis by simp
  qed
next
  case (2 tx)
  then have "cs' = [make_node NStatic tx]" by simp
  moreover have "reaches (make_node NStatic tx :: 'h node) ws \<longleftrightarrow> ws = []" for ws
    by (simp add: reaches_iff [of "make_node _ _"] reaches_special_def)
  ultimately show ?case by (auto simp: extends_to_def fresh_on_def)
next
  case (3 child cs tx)
  show ?case
  proof (cases "head child = hd tx")
    case False
    obtain cs1 j q where c: "insert_children cs tx = (cs1, j, q)" by (metis prod_cases3)
    with "3.IH"(1) [OF _ _ "3.prems"(2,3) c] False "3.prems"(1)
    have ext: "extends_to (reaches_static cs) (map Lit tx) (reaches_static cs1)" by (simp add: static_ok_Cons)
    have cs': "cs' = child # cs1" using c False "3.prems"(4) by simp
    have "\<not> reaches_static cs1 []"
      using insert_static_correct(2) [OF _ "3.prems"(2,3) c] "3.prems"(1)
      by (intro reaches_static_Nil) (simp add: static_ok_Cons inserted_child_def)
    from skip_child_extends [OF "3.prems"(1,2) False ext this] show ?thesis unfolding cs' .
  next
    case True
    let ?k = "common_prefix (n_prefix child) tx"
    obtain c2 q where c2: "insert_static (split_if_needed tx child) (drop ?k tx) = (c2, q)" by (metis surj_pair)
    have go: "\<not> (tx = [] \<or> n_prefix child = [] \<or> n_type child \<noteq> NStatic \<or> head child \<noteq> hd tx)"
      using True "3.prems"(1,2) by (simp add: static_ok_Cons)
    have cs': "cs' = c2 # cs" using c2 go "3.prems"(4) by (simp add: split_if_needed_def Let_def)
    have pl: "plain (drop ?k tx)" using "3.prems"(3) plain_take_drop by blast
    note ok = split_if_needed [OF "3.prems"(1), of tx]
    have "n_prefix c2 = take ?k tx"
      using insert_static_correct(1) [OF ok(2) pl c2] ok(3) by (simp add: inserted_def)
    moreover have "extends_to (reaches (split_if_needed tx child)) (map Lit (drop ?k tx)) (reaches c2)"
      using "3.IH"(2) [OF go refl refl, folded split_if_needed_def, OF ok(2) pl c2] .
    ultimately show ?thesis unfolding cs' by (rule insert_child_extends [OF "3.prems"(1,2) True])
  qed
qed

text \<open>A change of a subtree, seen from the whole tree.\<close>

lemma reaches_static_update:
  "i < length cs \<Longrightarrow> n_prefix c = n_prefix (cs ! i) \<Longrightarrow> reaches_static (cs[i := c]) ws \<Longrightarrow>
   reaches_static cs ws \<or> (\<exists>vs. ws = map Lit (n_prefix (cs ! i)) @ vs \<and> reaches c vs)"
  unfolding reaches_static_def by (auto dest!: set_update_subset_insert [THEN subsetD])

lemma reaches_static_keep:
  assumes "i < length cs" "n_prefix c = n_prefix (cs ! i)" "\<And>vs. reaches (cs ! i) vs \<Longrightarrow> reaches c vs" "reaches_static cs ws"
  shows "reaches_static (cs[i := c]) ws"
proof -
  from assms(4) obtain j vs where j: "j < length cs" "ws = map Lit (n_prefix (cs ! j)) @ vs" "reaches (cs ! j) vs"
    by (auto simp: reaches_static_def in_set_conv_nth)
  show ?thesis
  proof (cases "j = i")
    case True
    with assms(1-3) j have "c \<in> set (cs[i := c])" "ws = map Lit (n_prefix c) @ vs" "reaches c vs"
      by (auto intro: set_update_memI)
    then show ?thesis by (auto simp: reaches_static_def)
  next
    case False
    with j assms(1) have "cs ! j \<in> set (cs[i := c])" by (metis length_list_update nth_list_update_neq nth_mem)
    with j(2,3) show ?thesis by (auto simp: reaches_static_def)
  qed
qed

lemma edge_reaches:
  assumes m: "node_at t [e] = Some m" and pre: "n_prefix m' = n_prefix m"
  shows "reaches (put_at t [e] m') ws \<Longrightarrow> reaches t ws \<or> (\<exists>vs. ws = path_tokens t [e] @ vs \<and> reaches m' vs)"
    and "(\<And>vs. reaches m vs \<Longrightarrow> reaches m' vs) \<Longrightarrow> reaches t ws \<Longrightarrow> reaches (put_at t [e] m') ws"
proof -
  show "reaches t ws \<or> (\<exists>vs. ws = path_tokens t [e] @ vs \<and> reaches m' vs)" if r: "reaches (put_at t [e] m') ws"
  proof (cases e)
    case (StaticEdge i)
    with m have i: "i < length (n_static t)" "m = n_static t ! i" by (auto split: if_splits)
    from r StaticEdge i show ?thesis
      using reaches_static_update [OF i(1) pre [unfolded i(2)], of ws]
      by (auto simp: reaches_iff [of "set_static _ t"] reaches_iff [of t])
  next
    case ParameterEdge
    with m r show ?thesis
      by (auto simp: reaches_iff [of "set_parameter _ t"] reaches_iff [of t] reaches_special_def split: option.splits)
  next
    case CatchAllEdge
    with m r show ?thesis
      by (auto simp: reaches_iff [of "set_catch_all _ t"] reaches_iff [of t] reaches_special_def split: option.splits)
  qed
  show "reaches (put_at t [e] m') ws" if k: "\<And>vs. reaches m vs \<Longrightarrow> reaches m' vs" "reaches t ws"
  proof (cases e)
    case (StaticEdge i)
    with m have i: "i < length (n_static t)" "m = n_static t ! i" by (auto split: if_splits)
    from k StaticEdge i show ?thesis
      using reaches_static_keep [OF i(1) pre [unfolded i(2)], of ws]
      by (auto simp: reaches_iff [of "set_static _ t"] reaches_iff [of t])
  next
    case ParameterEdge
    with m k show ?thesis
      by (auto simp: reaches_iff [of "set_parameter _ t"] reaches_iff [of t] reaches_special_def split: option.splits)
  next
    case CatchAllEdge
    with m k show ?thesis
      by (auto simp: reaches_iff [of "set_catch_all _ t"] reaches_iff [of t] reaches_special_def split: option.splits)
  qed
qed

lemma put_at_reaches:
  "node_at t p = Some n \<Longrightarrow> n_prefix n' = n_prefix n \<Longrightarrow> reaches (put_at t p n') ws \<Longrightarrow>
   reaches t ws \<or> (\<exists>vs. ws = path_tokens t p @ vs \<and> reaches n' vs)"
proof (induction p arbitrary: t ws)
  case (Cons e p)
  from Cons.prems(1) obtain m where m: "node_at t [e] = Some m" "node_at m p = Some n"
    by (auto simp: node_at_Cons [of t e p] split: option.splits)
  have tok: "path_tokens t (e # p) = path_tokens t [e] @ path_tokens m p" using node_at_append [OF m(1), of p] by simp
  from Cons.prems(3) have "reaches (put_at t [e] (put_at m p n')) ws" by (simp only: put_at_Cons [OF m(1), of p])
  from edge_reaches(1) [OF m(1) put_at_prefix [OF m(2) Cons.prems(2)] this] show ?case
  proof (elim disjE exE conjE)
    fix vs assume vs: "ws = path_tokens t [e] @ vs" "reaches (put_at m p n') vs"
    from Cons.IH [OF m(2) Cons.prems(2) vs(2)] show ?thesis
    proof (elim disjE exE conjE)
      assume "reaches m vs"
      then obtain q k where "node_at m q = Some k" "path_tokens m q = vs" by (auto simp: reaches_def)
      with node_at_append [OF m(1), of q] vs(1) show ?thesis by (auto simp: reaches_def)
    qed (use vs(1) tok in auto)
  qed simp
qed simp

lemma put_at_keeps:
  "node_at t p = Some n \<Longrightarrow> n_prefix n' = n_prefix n \<Longrightarrow> (\<And>vs. reaches n vs \<Longrightarrow> reaches n' vs) \<Longrightarrow> reaches t ws \<Longrightarrow>
   reaches (put_at t p n') ws"
proof (induction p arbitrary: t ws)
  case (Cons e p)
  from Cons.prems(1) obtain m where m: "node_at t [e] = Some m" "node_at m p = Some n"
    by (auto simp: node_at_Cons [of t e p] split: option.splits)
  from edge_reaches(2) [OF m(1) put_at_prefix [OF m(2) Cons.prems(2)]] Cons.IH [OF m(2) Cons.prems(2,3)] Cons.prems(4)
  show ?case unfolding put_at_Cons [OF m(1), of p] by blast
qed simp

lemma path_reaches: "node_at t p = Some n \<Longrightarrow> reaches n vs \<Longrightarrow> reaches t (path_tokens t p @ vs)"
  unfolding reaches_def using node_at_append by metis

lemma reaches_below:
  assumes "node_ok t" "node_at t p = Some n" "reaches t (path_tokens t p @ zs)"
  shows "reaches n zs"
proof -
  from assms(3) obtain q m where "node_at t q = Some m" "path_tokens t q = path_tokens t p @ zs" by (auto simp: reaches_def)
  with path_tokens_extend [OF assms(1,2)] show ?thesis by (fastforce simp: reaches_def)
qed

lemma put_at_extends:
  assumes t: "node_ok t" and n: "node_at t p = Some n" "n_prefix n' = n_prefix n"
    and ext: "extends_to (reaches n) us (reaches n')"
  shows "extends_to (reaches t) (path_tokens t p @ us) (reaches (put_at t p n'))"
proof -
  have "reaches t ws \<or> fresh_on (reaches t) (path_tokens t p @ us) ws" if r: "reaches (put_at t p n') ws" for ws
    using put_at_reaches [OF n r]
  proof (elim disjE exE conjE)
    fix vs assume vs: "ws = path_tokens t p @ vs" "reaches n' vs"
    with ext have "reaches n vs \<or> fresh_on (reaches n) us vs" by (simp add: extends_to_def)
    then show ?thesis
    proof
      assume "reaches n vs"
      with path_reaches [OF n(1)] vs(1) show ?thesis by simp
    next
      assume f: "fresh_on (reaches n) us vs"
      have "fresh_on (reaches t) (path_tokens t p @ us) (path_tokens t p @ vs)"
        by (rule fresh_on_append [OF f]) (rule reaches_below [OF t n(1)])
      with vs(1) show ?thesis by simp
    qed
  qed simp
  moreover have "reaches (put_at t p n') ws" if "reaches t ws" for ws
    by (rule put_at_keeps [OF n _ that]) (use ext in \<open>simp add: extends_to_def\<close>)
  ultimately show ?thesis by (auto simp: extends_to_def)
qed

section \<open>The insertion of a route\<close>

lemma static_at_extends:
  assumes wf: "node_wf t" and n: "node_at t p = Some n" and tx: "plain tx" and eq: "static_at t p tx = (t', p')"
  shows "extends_to (reaches t) (path_tokens t p @ map Lit tx) (reaches t')"
proof -
  obtain n' q where ins: "insert_static n tx = (n', q)" by fastforce
  have ok: "node_ok n" "node_ok t" using node_at_wf [OF wf n] wf by (simp_all add: node_wf_def)
  have "n_prefix n' = n_prefix n" using insert_static_correct(1) [OF ok(1) tx ins] by (simp add: inserted_def)
  from put_at_extends [OF ok(2) n this insert_static_extends(1) [OF ok(1) tx ins]] ins n eq show ?thesis
    by (simp add: static_at_def)
qed

lemma special_at_extends:
  assumes wf: "node_wf t" and n: "node_at t p = Some n" and eq: "special_at t p ty = (t', res)"
    and tok: "tok = (if ty = NParameter then Param else CatchAll)"
  shows "extends_to (reaches t) (path_tokens t p @ [tok]) (reaches t')"
proof -
  obtain n' nres where ins: "insert_special n ty = (n', nres)" by fastforce
  with n eq have t': "t' = put_at t p n'" by (auto simp: special_at_def split: sum.splits)
  have leaf: "reaches (make_node k []) vs \<longleftrightarrow> vs = []" for k vs
    by (simp add: reaches_iff [of "make_node _ _"] reaches_special_def)
  have only: "\<not> reaches_static cs [tok]" if "static_ok cs" for cs
    using that tok by (auto simp: reaches_static_def static_ok_def neq_Nil_conv)
  have ok: "node_ok n" "node_ok t" using node_at_wf [OF wf n] wf by (simp_all add: node_wf_def)
  have "n_prefix n' = n_prefix n \<and> extends_to (reaches n) [tok] (reaches n')"
  proof (cases "n' = n")
    case False
    then consider "ty = NParameter" "n_parameter n = None" "n' = set_parameter (Some (make_node NParameter [])) n"
      | "ty = NCatchAll" "n_catch_all n = None" "n' = set_catch_all (Some (make_node NCatchAll [])) n"
      using ins by (cases ty) (auto simp: insert_special_def split: if_splits option.splits)
    then show ?thesis
      using only [of "n_static n"] ok(1) tok
      by cases (auto simp: extends_to_def reaches_iff [of n] reaches_iff [of "set_parameter _ _"]
          reaches_iff [of "set_catch_all _ _"] reaches_special_def leaf node_ok_parts [of n] prefix_Cons)
  qed simp
  with put_at_extends [OF ok(2) n] t' show ?thesis by blast
qed

text \<open>Two steps of the loop, when the first leaves a tree alone in which the way is there already.\<close>

lemma extends_to_trans:
  assumes a: "extends_to A us B" and b: "extends_to B (us @ vs) C"
    and same: "\<And>y ys. A (us @ y @ ys) \<Longrightarrow> y \<noteq> [] \<Longrightarrow> prefix y vs \<Longrightarrow> B = A"
  shows "extends_to A (us @ vs) C"
proof -
  have "A ws \<or> fresh_on A (us @ vs) ws" if "C ws" for ws
  proof (cases "B ws")
    case False
    with b that have "fresh_on B (us @ vs) ws" by (auto simp: extends_to_def)
    with a show ?thesis by (auto simp: fresh_on_def extends_to_def)
  next
    case B: True
    show ?thesis
    proof (cases "A ws")
      case False
      with B a have f: "fresh_on A us ws" by (auto simp: extends_to_def)
      have "fresh_on A (us @ vs) ws"
      proof (rule fresh_onI)
        show "prefix ws (us @ vs)" using fresh_onD(1) [OF f] by simp
        fix zs l assume zs: "A zs" "prefix ws zs" "prefix l zs" "prefix l (us @ vs)"
        from zs(4) consider "prefix l us" | y where "l = us @ y" "prefix y vs" by (auto simp: prefix_append)
        then show "prefix l ws"
        proof cases
          case 1
          with fresh_onD(2) [OF f zs(1,2)] zs(3) show ?thesis by blast
        next
          case 2
          then obtain ys where "zs = us @ y @ ys" using zs(3) by (auto simp: prefix_def)
          with same [of y ys] zs(1) 2 B False have "y = []" by auto
          with 2(1) fresh_onD(2) [OF f zs(1,2)] zs(3) show ?thesis by simp
        qed
      qed
      then show ?thesis ..
    qed simp
  qed
  with a b show ?thesis by (auto simp: extends_to_def)
qed

lemma insert_literal_extends:
  assumes wf: "node_wf t" and n: "node_at t p = Some n" and rd: "ready n rest"
    and first: "sv_find_first_of '':*'' rest 0 = Some k"
    and eq: "insert_literal t p rest k = (t', p', rest')"
  shows "extends_to (reaches t) (path_tokens t p @ map Lit (take k rest)) (reaches t')"
proof (cases "k = 0")
  case True
  with eq show ?thesis by (simp add: insert_literal_def)
next
  case False
  then have "static_at t p (take k rest) = (t', p')"
    using eq by (auto simp: insert_literal_def sv_substr_def split: prod.splits)
  from static_at_extends [OF wf n first_special(2) [OF first] this] show ?thesis .
qed

lemma insert_token_extends:
  assumes wf: "node_wf t" and n: "node_at t p = Some n" and rd: "ready n rest"
    and first: "sv_find_first_of '':*'' rest 0 = Some k"
    and eq: "insert_token t p names rest k = (t', Inr (p', names', rest'))"
  shows "\<exists>us. tokens rest = us @ tokens rest' \<and> path_tokens t' p' = path_tokens t p @ us
    \<and> extends_to (reaches t) (path_tokens t p @ us) (reaches t')"
proof -
  obtain t1 p1 rest1 where lit: "insert_literal t p rest k = (t1, p1, rest1)" by (metis prod_cases3)
  from insert_literal_moved [OF wf n rd first lit] obtain m where
    r1: "rest1 = drop k rest" and mv: "moved not_literal t p (map Lit (take k rest)) t1 p1"
    and m: "node_at t1 p1 = Some m" "n_type m = NStatic" by blast
  have wf1: "node_wf t1" and p1: "path_tokens t1 p1 = path_tokens t p @ map Lit (take k rest)"
    using mv by (simp_all add: moved_def)
  have front: "rest1 \<noteq> []" "hd rest1 \<in> set '':*''" using first_of_drop [OF first] r1 by auto
  let ?ty = "if hd rest1 = CHR ''*'' then NCatchAll else NParameter"
  let ?tok = "if hd rest1 = CHR ''*'' then CatchAll else Param"
  obtain t2 res2 where sp: "special_at t1 p1 ?ty = (t2, res2)" by fastforce
  have r2: "t' = t2" "res2 = Inr p'" "rest' = drop (token_end rest1) rest1"
    using eq lit sp by (auto simp: insert_token_def Let_def split: sum.splits)
  have ty: "?ty \<noteq> NStatic" by simp
  from special_at_moved [OF wf1 m ty sp] r2 have mv2: "moved (\<lambda>_. True) t1 p1 [?tok] t' p'"
    by (auto split: if_splits)
  have e2: "extends_to (reaches t1) (path_tokens t1 p1 @ [?tok]) (reaches t')"
    using special_at_extends [OF wf1 m(1) sp, of ?tok] r2(1) by (cases "hd rest1 = CHR ''*''") simp_all
  have "extends_to (reaches t) ((path_tokens t p @ map Lit (take k rest)) @ [?tok]) (reaches t')"
  proof (rule extends_to_trans [OF insert_literal_extends [OF wf n rd first lit] e2 [unfolded p1]])
    fix y ys assume y: "reaches t ((path_tokens t p @ map Lit (take k rest)) @ y @ ys)" "y \<noteq> []" "prefix y [?tok]"
    then have "not_literal (y @ ys)" by (auto simp: prefix_Cons split: if_splits)
    with mv y(1) have "t1 = t" by (simp add: moved_def)
    then show "reaches t1 = reaches t" by simp
  qed
  moreover have "tokens rest = (map Lit (take k rest) @ [?tok]) @ tokens rest'"
    using tokens_plain_append [OF first_special(2) [OF first], of rest1] special_front(1) [OF front] r1 r2(3)
    by simp
  moreover have "path_tokens t' p' = path_tokens t p @ map Lit (take k rest) @ [?tok]"
    using mv2 p1 by (simp add: moved_def)
  ultimately show ?thesis by (intro exI [of _ "map Lit (take k rest) @ [?tok]"]) simp
qed

lemma insert_loop_extends:
  "node_wf t \<Longrightarrow> node_at t p = Some n \<Longrightarrow> ready n rest \<Longrightarrow> insert_loop t p names rest = (t', res) \<Longrightarrow>
   extends_to (reaches t) (path_tokens t p @ tokens rest) (reaches t')"
proof (induction t p names rest arbitrary: n rule: insert_loop.induct)
  case (1 t p names rest)
  show ?case
  proof (cases "rest = []")
    case True
    with "1.prems" show ?thesis by (simp add: insert_loop.simps)
  next
    case False
    show ?thesis
    proof (cases "sv_find_first_of '':*'' rest 0")
      case None
      then have "plain rest" by (rule first_special(1))
      obtain t1 p1 where st: "static_at t p rest = (t1, p1)" by fastforce
      from static_at_extends [OF "1.prems"(1,2) \<open>plain rest\<close> st] tokens_plain_append [OF \<open>plain rest\<close>, of "[]"]
        st "1.prems"(4) False None show ?thesis
        by (simp add: insert_loop.simps [of t])
    next
      case (Some k)
      obtain t2 res2 where tk: "insert_token t p names rest k = (t2, res2)" by fastforce
      from insert_token_moved [OF "1.prems"(1-3) Some tk] obtain p2 us rest2 m ts where
        r2: "res2 = Inr (p2, names @ us, rest2)" and mv: "moved (\<lambda>_. True) t p ts t2 p2" "tokens rest = ts @ tokens rest2"
        and m: "node_at t2 p2 = Some m" "ready m rest2" by blast
      then have wf2: "node_wf t2" and path: "path_tokens t2 p2 = path_tokens t p @ ts" by (simp_all add: moved_def)
      from insert_token_extends [OF "1.prems"(1-3) Some tk [unfolded r2]] mv(2) path
      have e: "extends_to (reaches t) (path_tokens t p @ ts) (reaches t2)" by auto
      have "insert_loop t2 p2 (names @ us) rest2 = (t', res)"
        using "1.prems"(4) False Some tk r2 by (simp add: insert_loop.simps [of t])
      from "1.IH" [OF False Some tk [symmetric] r2 refl refl wf2 m this]
      have "extends_to (reaches t2) ((path_tokens t p @ ts) @ tokens rest2) (reaches t')" by (simp add: path)
      from extends_to_trans [OF e this] mv show ?thesis by (auto simp: moved_def)
    qed
  qed
qed

end
