(* ===== verification/Router_Addresses.thy ===== *)
theory Router_Addresses
  imports Router_Heap_Machine Router_Boundaries
begin

text \<open>
  Where an address is in a tree in memory: the tokens on the way to it (\<open>leads\<close>), which are
  those of the value model; and the way to the node before it, one edge shorter.
\<close>

section \<open>Places\<close>

inductive leads :: "'h memory \<Rightarrow> addr \<Rightarrow> tok list \<Rightarrow> addr \<Rightarrow> bool" for mem :: "'h memory" and root :: addr where
  leads_root: "leads mem root [] root"
| leads_static: "leads mem root ts a \<Longrightarrow> cell_at mem a = Some c \<Longrightarrow> b \<in> set (c_static c) \<Longrightarrow> cell_at mem b = Some d \<Longrightarrow>
    leads mem root (ts @ map Lit (c_prefix d)) b"
| leads_parameter: "leads mem root ts a \<Longrightarrow> cell_at mem a = Some c \<Longrightarrow> c_parameter c = Some b \<Longrightarrow>
    cell_at mem b = Some d \<Longrightarrow> c_prefix d = [] \<Longrightarrow> leads mem root (ts @ [Param]) b"
| leads_catch_all: "leads mem root ts a \<Longrightarrow> cell_at mem a = Some c \<Longrightarrow> c_catch_all c = Some b \<Longrightarrow>
    cell_at mem b = Some d \<Longrightarrow> c_prefix d = [] \<Longrightarrow> leads mem root (ts @ [CatchAll]) b"

lemma follow_append: "follow mem a (p @ q) = (case follow mem a p of None \<Rightarrow> None | Some b \<Rightarrow> follow mem b q)"
  by (induction mem a p rule: follow.induct) (auto split: option.splits)

lemma node_at_snoc:
  "node_at t (p @ [e]) = Some m \<Longrightarrow> \<exists>n. node_at t p = Some n \<and> node_at n [e] = Some m"
  by (induction t p rule: node_at.induct) (auto split: if_splits option.splits)

text \<open>What lies behind an address and behind the pointer that leads there.\<close>

lemma stored_at:
  assumes "stored mem a t S" "node_at t q = Some n" "follow mem a q = Some x"
  obtains c A where "stored mem x n A" "cell_at mem x = Some c" "labels c n"
proof -
  obtain b A R where "stored mem b n A" "focus mem a t S q b A R" using stored_focus [OF assms(1,2)] by blast
  with focusD(1) assms(3) have "stored mem x n A" by fastforce
  with that show ?thesis by (auto simp: stored_iff)
qed

lemma stored_edge:
  assumes "stored mem x n A" "node_at n [e] = Some m"
  obtains b where "follow mem x [e] = Some b"
  using stored_focus [OF assms] focusD(1) by blast

text \<open>The last edge of a path.\<close>

lemma edge_kinds:
  assumes "node_wf m" "node_at m [e] = Some n"
  obtains (static) i where "e = StaticEdge i" "i < length (n_static m)" "n = n_static m ! i" "n_prefix n \<noteq> []"
      "path_tokens m [e] = map Lit (n_prefix n)"
    | (parameter) "e = ParameterEdge" "n_parameter m = Some n" "n_prefix n = []" "path_tokens m [e] = [Param]"
    | (catch_all) "e = CatchAllEdge" "n_catch_all m = Some n" "n_prefix n = []" "path_tokens m [e] = [CatchAll]"
  using assms
  by (cases e) (auto simp: node_wf_def node_ok_parts [of m] static_ok_def parameter_ok_def catch_all_ok_def
      split: if_splits option.splits)

lemma path_leads:
  assumes t: "stored mem a t S" "node_wf t"
  shows "node_at t q = Some n \<Longrightarrow> follow mem a q = Some x \<Longrightarrow> leads mem a (path_tokens t q) x"
proof (induction q arbitrary: n x rule: rev_induct)
  case Nil
  then show ?case by (simp add: leads_root)
next
  case (snoc e q)
  then obtain m where m: "node_at t q = Some m" "node_at m [e] = Some n" using node_at_snoc by blast
  from snoc.prems(2) obtain b where b: "follow mem a q = Some b" "follow mem b [e] = Some x"
    by (auto simp: follow_append split: option.splits)
  obtain c A where c: "stored mem b m A" "cell_at mem b = Some c" "labels c m" by (rule stored_at [OF t(1) m(1) b(1)])
  obtain d B where d: "stored mem x n B" "cell_at mem x = Some d" "labels d n" by (rule stored_at [OF c(1) m(2) b(2)])
  have l: "leads mem a (path_tokens t q) b" by (rule snoc.IH [OF m(1) b(1)])
  have tok: "path_tokens t (q @ [e]) = path_tokens t q @ path_tokens m [e]" using node_at_append [OF m(1)] by blast
  from node_at_wf [OF t(2) m(1)] m(2) show ?case
  proof (cases rule: edge_kinds)
    case (static i)
    with b(2) c(2) have "x \<in> set (c_static c)" by (auto split: if_splits)
    with leads_static [OF l c(2) _ d(2)] d(3) static tok show ?thesis by (simp add: labels_def)
  next
    case parameter
    with b(2) c(2) have "c_parameter c = Some x" by (auto split: option.splits)
    with leads_parameter [OF l c(2) _ d(2)] d(3) parameter tok show ?thesis by (simp add: labels_def)
  next
    case catch_all
    with b(2) c(2) have "c_catch_all c = Some x" by (auto split: option.splits)
    with leads_catch_all [OF l c(2) _ d(2)] d(3) catch_all tok show ?thesis by (simp add: labels_def)
  qed
qed

lemma leads_path:
  assumes t: "stored mem a t S" "node_wf t"
  shows "leads mem a ts x \<Longrightarrow> \<exists>q n. node_at t q = Some n \<and> follow mem a q = Some x \<and> path_tokens t q = ts"
proof (induction rule: leads.induct)
  case leads_root
  show ?case by (intro exI [of _ "[]"]) simp
next
  case (leads_static ts b c x d)
  then obtain q m where q: "node_at t q = Some m" "follow mem a q = Some b" "path_tokens t q = ts" by blast
  obtain c' A where c: "stored mem b m A" "cell_at mem b = Some c'" by (rule stored_at [OF t(1) q(1,2)])
  with leads_static.hyps(2) have "length (c_static c) = length (n_static m)"
    by (auto simp: stored_iff below_def stored_all_length)
  with leads_static.hyps(3) obtain i where i: "i < length (n_static m)" "i < length (c_static c)" "c_static c ! i = x"
    by (metis in_set_conv_nth)
  then have e: "node_at m [StaticEdge i] = Some (n_static m ! i)" "follow mem b [StaticEdge i] = Some x"
    using leads_static.hyps(2) by simp_all
  obtain d' B where "cell_at mem x = Some d'" "labels d' (n_static m ! i)" by (rule stored_at [OF c(1) e])
  with leads_static.hyps(4) have "c_prefix d = n_prefix (n_static m ! i)" by (simp add: labels_def)
  with e q i node_at_append [OF q(1), of "[StaticEdge i]"] show ?case
    by (intro exI [of _ "q @ [StaticEdge i]"]) (simp add: follow_append)
next
  case (leads_parameter ts b c x d)
  then obtain q m where q: "node_at t q = Some m" "follow mem a q = Some b" "path_tokens t q = ts" by blast
  obtain c' A where c: "stored mem b m A" "cell_at mem b = Some c'" by (rule stored_at [OF t(1) q(1,2)])
  with leads_parameter.hyps(2,3) obtain n where "n_parameter m = Some n" by (auto simp: stored_iff below_def)
  with leads_parameter.hyps(2,3) q node_at_append [OF q(1), of "[ParameterEdge]"] show ?case
    by (intro exI [of _ "q @ [ParameterEdge]"]) (simp add: follow_append)
next
  case (leads_catch_all ts b c x d)
  then obtain q m where q: "node_at t q = Some m" "follow mem a q = Some b" "path_tokens t q = ts" by blast
  obtain c' A where c: "stored mem b m A" "cell_at mem b = Some c'" by (rule stored_at [OF t(1) q(1,2)])
  with leads_catch_all.hyps(2,3) obtain n where "n_catch_all m = Some n" by (auto simp: stored_iff below_def)
  with leads_catch_all.hyps(2,3) q node_at_append [OF q(1), of "[CatchAllEdge]"] show ?case
    by (intro exI [of _ "q @ [CatchAllEdge]"]) (simp add: follow_append)
qed

lemma leads_reaches:
  assumes "stored mem a t S" "node_wf t"
  shows "(\<exists>x. leads mem a ts x) \<longleftrightarrow> reaches t ts"
proof
  assume "\<exists>x. leads mem a ts x"
  then obtain x where "leads mem a ts x" ..
  from leads_path [OF assms this] show "reaches t ts" unfolding reaches_def by blast
next
  assume "reaches t ts"
  then obtain q n where q: "node_at t q = Some n" "path_tokens t q = ts" by (auto simp: reaches_def)
  obtain x A R where "focus mem a t S q x A R" using stored_focus [OF assms(1) q(1)] by blast
  with path_leads [OF assms q(1)] q(2) show "\<exists>x. leads mem a ts x" using focusD(1) by blast
qed

section \<open>Edges\<close>

text \<open>On the way to a node, the node before it is one edge away: its literal prefix, or one token.\<close>

definition edge_length :: "'h node \<Rightarrow> nat" where
  "edge_length n = max 1 (length (n_prefix n))"

lemma last_edge:
  assumes t: "node_wf t" and q: "node_at t q = Some n" "q \<noteq> []"
  shows "edge_length n \<le> length (path_tokens t q)"
    and "reaches t (take (length (path_tokens t q) - edge_length n) (path_tokens t q))"
    and "reaches t (take j (path_tokens t q)) \<Longrightarrow> j < length (path_tokens t q) \<Longrightarrow>
      j \<le> length (path_tokens t q) - edge_length n"
proof -
  obtain q0 e where q0: "q = q0 @ [e]" using q(2) by (cases q rule: rev_cases) auto
  then obtain m where m: "node_at t q0 = Some m" "node_at m [e] = Some n" using node_at_snoc q(1) by blast
  have tok: "path_tokens t q = path_tokens t q0 @ path_tokens m [e]"
    unfolding q0 using node_at_append [OF m(1)] by blast
  have len: "length (path_tokens m [e]) = edge_length n"
    using node_at_wf [OF t m(1)] m(2) by (cases rule: edge_kinds) (auto simp: edge_length_def Suc_le_eq)
  with tok show "edge_length n \<le> length (path_tokens t q)" by simp
  from tok len m(1) show "reaches t (take (length (path_tokens t q) - edge_length n) (path_tokens t q))"
    by (auto simp: reaches_def)
  assume r: "reaches t (take j (path_tokens t q))" and j: "j < length (path_tokens t q)"
  from r obtain p k where p: "node_at t p = Some k" "path_tokens t p = take j (path_tokens t q)" by (auto simp: reaches_def)
  have ok: "node_ok t" using t by (simp add: node_wf_def)
  have "path_tokens t q = path_tokens t p @ drop j (path_tokens t q)" using p(2) by simp
  from path_tokens_extend [OF ok p(1) q(1) this] j obtain p' where p': "q = p @ p'" "path_tokens k p' = drop j (path_tokens t q)"
    by blast
  with j have "p' \<noteq> []" by auto
  then obtain p'' where "p' = p'' @ [e]" using p'(1) q0 by (cases p' rule: rev_cases) auto
  with p'(1) q0 have "q0 = p @ p''" by simp
  with node_at_append [OF p(1), of p''] p(2) j have "j \<le> length (path_tokens t q0)" by simp
  with tok len show "j \<le> length (path_tokens t q) - edge_length n" by simp
qed

text \<open>Where the ways to two nodes part, there is a node.\<close>

lemma lcp_append: "longest_common_prefix (p @ a) (p @ b) = p @ longest_common_prefix a b"
  by (induction p) auto

lemma lcp_heads: "a \<noteq> [] \<Longrightarrow> b \<noteq> [] \<Longrightarrow> hd a \<noteq> hd b \<Longrightarrow> longest_common_prefix a b = []"
  by (cases a; cases b) auto

lemma lcp_Nil [simp]: "longest_common_prefix [] b = []" "longest_common_prefix a [] = []"
  by (cases a; simp)+

lemma reaches_lcp:
  "node_ok n \<Longrightarrow> reaches n a \<Longrightarrow> reaches n b \<Longrightarrow> reaches n (longest_common_prefix a b)"
proof (induction a arbitrary: n b rule: length_induct)
  case (1 a)
  show ?case
  proof (cases "a = [] \<or> b = [] \<or> hd a \<noteq> hd b")
    case True
    then have "longest_common_prefix a b = []" using lcp_heads [of a b] by (cases "a = [] \<or> b = []") auto
    then show ?thesis by simp
  next
    case False
    then obtain e as bs where ab: "a = e # as" "b = e # bs" by (metis list.collapse)
    have ok: "static_ok (n_static n)" using "1.prems"(1) by (simp add: node_ok_parts [of n])
    have child: "node_ok c" if "c \<in> set (n_static n) \<or> n_parameter n = Some c \<or> n_catch_all n = Some c" for c
      using that "1.prems"(1)
      by (auto simp: node_ok_parts [of n] static_ok_def parameter_ok_def catch_all_ok_def node_ok_leaf)
    show ?thesis
    proof (cases "\<exists>ch. e = Lit ch")
      case True
      with "1.prems"(2,3) ab have "reaches_static (n_static n) a" "reaches_static (n_static n) b"
        by (auto simp: reaches_iff [of n] reaches_special_not_literal)
      then obtain c vs d ws where
        c: "c \<in> set (n_static n)" "a = map Lit (n_prefix c) @ vs" "reaches c vs"
        and d: "d \<in> set (n_static n)" "b = map Lit (n_prefix d) @ ws" "reaches d ws"
        by (auto simp: reaches_static_def)
      have ne: "n_prefix c \<noteq> []" "n_prefix d \<noteq> []" using ok c(1) d(1) by (auto simp: static_ok_def)
      then have "head c = head d" using c(2) d(2) ab by (metis hd_append hd_map list.sel(1) map_is_Nil_conv tok.inject)
      with ok c(1) d(1) have "d = c" by (auto simp: static_ok_def distinct_map inj_on_def)
      moreover have "length vs < length a" using c(2) ne(1) by simp
      ultimately have "reaches c (longest_common_prefix vs ws)" using "1.IH" c(1,3) d(3) child by blast
      with c(1) have "reaches_static (n_static n) (map Lit (n_prefix c) @ longest_common_prefix vs ws)"
        by (auto simp: reaches_static_def)
      with c(2) d(2) \<open>d = c\<close> show ?thesis by (simp add: lcp_append reaches_iff [of n])
    next
      case False
      have "\<not> reaches_static (n_static n) (e # xs)" for xs
      proof
        assume "reaches_static (n_static n) (e # xs)"
        then obtain c vs where "c \<in> set (n_static n)" "e # xs = map Lit (n_prefix c) @ vs" by (auto simp: reaches_static_def)
        with ok False show False by (cases "n_prefix c") (auto simp: static_ok_def)
      qed
      with "1.prems"(2,3) ab have "reaches_special n (e # as)" "reaches_special n (e # bs)"
        by (auto simp: reaches_iff [of n])
      moreover have "reaches c (longest_common_prefix as bs)"
        if "n_parameter n = Some c \<or> n_catch_all n = Some c" "reaches c as" "reaches c bs" for c
        using "1.IH" that child [of c] ab(1) by auto
      ultimately have "reaches_special n (e # longest_common_prefix as bs)"
        by (auto simp: reaches_special_def)
      then show ?thesis by (simp add: ab reaches_iff [of n])
    qed
  qed
qed

end
