(* ===== verification/Router_References.thy ===== *)
theory Router_References
  imports Router_Addresses
begin

text \<open>
  What becomes of an address while the router grows.  \<^verbatim>\<open>MatchResult::route_\<close> is a reference
  into a node; a later \<open>add_route\<close> that splits the node cuts its prefix in place and moves
  its route away.  So a node keeps its address, but not its place nor its route: this theory
  says when, and what the reference then refers to.
\<close>

section \<open>Insertion moves a node up its edge, or not at all\<close>

text \<open>\<open>keeps_place a mem mem'\<close>: every node below \<open>a\<close> is still there, with a nonempty part of
  its prefix, at the place where that part ends.\<close>

definition keeps_place :: "addr \<Rightarrow> 'h memory \<Rightarrow> 'h memory \<Rightarrow> bool" where
  "keeps_place a mem mem' \<longleftrightarrow> (\<forall>ts x c. leads mem a ts x \<longrightarrow> cell_at mem x = Some c \<longrightarrow>
     (\<exists>k c' us. (c_prefix c \<noteq> [] \<longrightarrow> 0 < k) \<and> k \<le> length (c_prefix c) \<and> cell_at mem' x = Some c'
        \<and> c_prefix c' = take k (c_prefix c) \<and> leads mem' a us x \<and> ts = us @ map Lit (drop k (c_prefix c))))"

definition is_root :: "'h memory \<Rightarrow> addr \<Rightarrow> bool" where
  "is_root mem a \<longleftrightarrow> (\<exists>c. cell_at mem a = Some c \<and> c_prefix c = [])"

lemma keeps_placeD:
  assumes "keeps_place a mem mem'" "leads mem a ts x" "cell_at mem x = Some c"
  obtains k c' us where "c_prefix c \<noteq> [] \<longrightarrow> 0 < k" "k \<le> length (c_prefix c)" "cell_at mem' x = Some c'"
    "c_prefix c' = take k (c_prefix c)" "leads mem' a us x" "ts = us @ map Lit (drop k (c_prefix c))"
  using assms unfolding keeps_place_def by blast

lemma keeps_place_refl [simp]: "keeps_place a mem mem"
  unfolding keeps_place_def
proof (intro allI impI)
  fix ts x c assume "leads mem a ts x" "cell_at mem x = Some c"
  then show "\<exists>k c' us. (c_prefix c \<noteq> [] \<longrightarrow> 0 < k) \<and> k \<le> length (c_prefix c) \<and> cell_at mem x = Some c'
        \<and> c_prefix c' = take k (c_prefix c) \<and> leads mem a us x \<and> ts = us @ map Lit (drop k (c_prefix c))"
    by (intro exI [of _ "length (c_prefix c)"] exI [of _ c] exI [of _ ts]) simp
qed

lemma keeps_place_trans:
  assumes a: "keeps_place a mem1 mem2" and b: "keeps_place a mem2 mem3"
  shows "keeps_place a mem1 mem3"
  unfolding keeps_place_def
proof (intro allI impI)
  fix ts x c assume x: "leads mem1 a ts x" "cell_at mem1 x = Some c"
  obtain k c' us where k: "c_prefix c \<noteq> [] \<longrightarrow> 0 < k" "k \<le> length (c_prefix c)" "cell_at mem2 x = Some c'"
    "c_prefix c' = take k (c_prefix c)" "leads mem2 a us x" "ts = us @ map Lit (drop k (c_prefix c))"
    using keeps_placeD [OF a x] .
  obtain l d vs where l: "c_prefix c' \<noteq> [] \<longrightarrow> 0 < l" "l \<le> length (c_prefix c')" "cell_at mem3 x = Some d"
    "c_prefix d = take l (c_prefix c')" "leads mem3 a vs x" "us = vs @ map Lit (drop l (c_prefix c'))"
    using keeps_placeD [OF b k(5,3)] .
  have lk: "l \<le> k" using k(2,4) l(2) by simp
  then have "drop l (take k (c_prefix c)) @ drop k (c_prefix c) = drop l (c_prefix c)"
    by (metis append_take_drop_id drop_drop drop_take le_add_diff_inverse2)
  then have "ts = vs @ map Lit (drop l (c_prefix c))" using k(4,6) l(6) by (simp flip: map_append)
  with k l lk show "\<exists>k c' us. (c_prefix c \<noteq> [] \<longrightarrow> 0 < k) \<and> k \<le> length (c_prefix c) \<and> cell_at mem3 x = Some c'
        \<and> c_prefix c' = take k (c_prefix c) \<and> leads mem3 a us x \<and> ts = us @ map Lit (drop k (c_prefix c))"
    by (intro exI [of _ l] exI [of _ d] exI [of _ vs]) (auto simp: min_def)
qed

lemma keeps_place_root:
  assumes "keeps_place a mem mem'" "is_root mem a"
  shows "is_root mem' a"
proof -
  obtain c where c: "cell_at mem a = Some c" "c_prefix c = []" using assms(2) by (auto simp: is_root_def)
  from keeps_placeD [OF assms(1) leads_root c(1)] c(2) show ?thesis by (metis is_root_def take_Nil)
qed

text \<open>A change that only adds: no pointer is removed or redirected and no prefix is changed.\<close>

definition adds_to :: "'h memory \<Rightarrow> 'h memory \<Rightarrow> bool" where
  "adds_to mem mem' \<longleftrightarrow> (\<forall>x c. cell_at mem x = Some c \<longrightarrow> (\<exists>c'. cell_at mem' x = Some c' \<and> c_prefix c' = c_prefix c
     \<and> set (c_static c) \<subseteq> set (c_static c') \<and> (\<forall>b. c_parameter c = Some b \<longrightarrow> c_parameter c' = Some b)
     \<and> (\<forall>b. c_catch_all c = Some b \<longrightarrow> c_catch_all c' = Some b)))"

lemma adds_toD:
  assumes "adds_to mem mem'" "cell_at mem x = Some c"
  obtains c' where "cell_at mem' x = Some c'" "c_prefix c' = c_prefix c" "set (c_static c) \<subseteq> set (c_static c')"
    "\<And>b. c_parameter c = Some b \<Longrightarrow> c_parameter c' = Some b" "\<And>b. c_catch_all c = Some b \<Longrightarrow> c_catch_all c' = Some b"
  using assms unfolding adds_to_def by blast

lemma leads_adds_to: "leads mem a ts x \<Longrightarrow> adds_to mem mem' \<Longrightarrow> leads mem' a ts x"
proof (induction rule: leads.induct)
  case leads_root
  show ?case by (rule leads.leads_root)
next
  case (leads_static ts y c b d)
  obtain c' where c': "cell_at mem' y = Some c'" "set (c_static c) \<subseteq> set (c_static c')"
    using adds_toD [OF leads_static.prems leads_static.hyps(2)] by metis
  obtain d' where "cell_at mem' b = Some d'" "c_prefix d' = c_prefix d"
    using adds_toD [OF leads_static.prems leads_static.hyps(4)] by metis
  with leads.leads_static [OF leads_static.IH [OF leads_static.prems] c'(1)] c'(2) leads_static.hyps(3) show ?case
    by (metis subsetD)
next
  case (leads_parameter ts y c b d)
  obtain c' where c': "cell_at mem' y = Some c'" "c_parameter c' = Some b"
    using adds_toD [OF leads_parameter.prems leads_parameter.hyps(2)] leads_parameter.hyps(3) by metis
  obtain d' where "cell_at mem' b = Some d'" "c_prefix d' = c_prefix d"
    using adds_toD [OF leads_parameter.prems leads_parameter.hyps(4)] by metis
  with leads.leads_parameter [OF leads_parameter.IH [OF leads_parameter.prems] c'] leads_parameter.hyps(5) show ?case
    by simp
next
  case (leads_catch_all ts y c b d)
  obtain c' where c': "cell_at mem' y = Some c'" "c_catch_all c' = Some b"
    using adds_toD [OF leads_catch_all.prems leads_catch_all.hyps(2)] leads_catch_all.hyps(3) by metis
  obtain d' where "cell_at mem' b = Some d'" "c_prefix d' = c_prefix d"
    using adds_toD [OF leads_catch_all.prems leads_catch_all.hyps(4)] by metis
  with leads.leads_catch_all [OF leads_catch_all.IH [OF leads_catch_all.prems] c'] leads_catch_all.hyps(5) show ?case
    by simp
qed

lemma keeps_place_adds_to:
  assumes "adds_to mem mem'"
  shows "keeps_place a mem mem'"
  unfolding keeps_place_def
proof (intro allI impI)
  fix ts x c assume x: "leads mem a ts x" "cell_at mem x = Some c"
  then obtain c' where "cell_at mem' x = Some c'" "c_prefix c' = c_prefix c" using adds_toD [OF assms x(2)] by metis
  with leads_adds_to [OF x(1) assms]
  show "\<exists>k c' us. (c_prefix c \<noteq> [] \<longrightarrow> 0 < k) \<and> k \<le> length (c_prefix c) \<and> cell_at mem' x = Some c'
        \<and> c_prefix c' = take k (c_prefix c) \<and> leads mem' a us x \<and> ts = us @ map Lit (drop k (c_prefix c))"
    by (intro exI [of _ "length (c_prefix c)"] exI [of _ c'] exI [of _ ts]) simp
qed

text \<open>The split of a node: it goes up, the others stay.\<close>

lemma split_cell_at:
  assumes "cell_at mem s = Some child"
  shows "cell_at (split_cell n s child mem) x =
    (if x = s then Some (child\<lparr>c_prefix := take n (c_prefix child), c_static := [length mem], c_parameter := None,
         c_catch_all := None, c_route := None\<rparr>)
     else if x = length mem then Some (child\<lparr>c_type := NStatic, c_prefix := drop n (c_prefix child)\<rparr>)
     else cell_at mem x)"
  using assms by (auto simp: split_cell_def Let_def cell_at_Some)

text \<open>Where the children of a node hang after a split.\<close>

lemma split_cell_carrier:
  fixes n :: nat
  assumes s: "cell_at mem s = Some child"
    and y: "leads (split_cell n s child mem) a vs y" "us = vs @ map Lit (if y = s then drop n (c_prefix child) else [])"
      "cell_at mem y = Some c"
  obtains z cz where "leads (split_cell n s child mem) a us z" "cell_at (split_cell n s child mem) z = Some cz"
    "c_static cz = c_static c" "c_parameter cz = c_parameter c" "c_catch_all cz = c_catch_all c"
proof -
  let ?mem = "split_cell n s child mem"
  note at = split_cell_at [OF s, of n]
  have sl: "s < length mem" using s by (simp add: cell_at_Some)
  show thesis
  proof (cases "y = s")
    case True
    let ?d = "child\<lparr>c_type := NStatic, c_prefix := drop n (c_prefix child)\<rparr>"
    have cy: "cell_at ?mem s = Some (child\<lparr>c_prefix := take n (c_prefix child), c_static := [length mem], c_parameter := None,
         c_catch_all := None, c_route := None\<rparr>)" and l: "cell_at ?mem (length mem) = Some ?d"
      using at [of s] at [of "length mem"] sl by simp_all
    have "leads ?mem a us (length mem)"
      using leads.leads_static [OF y(1) [unfolded True] cy _ l] y(2) True by simp
    from that [OF this l] True y(3) s show ?thesis by auto
  next
    case False
    moreover have "y \<noteq> length mem" using y(3) by (simp add: cell_at_Some)
    ultimately show ?thesis using y at [of y] by (intro that [of y c]) simp_all
  qed
qed

lemma split_cell_leads:
  fixes n :: nat
  assumes s: "cell_at mem s = Some child" and root: "is_root mem a" and ne: "c_prefix child \<noteq> []"
  defines "mem' \<equiv> split_cell n s child mem"
  shows "leads mem a ts x \<Longrightarrow> \<exists>us. leads mem' a us x \<and> ts = us @ map Lit (if x = s then drop n (c_prefix child) else [])"
proof -
  note at = split_cell_at [OF s, of n, folded mem'_def]
  have "a \<noteq> s" using root s ne by (auto simp: is_root_def)
  show "leads mem a ts x \<Longrightarrow> ?thesis"
  proof (induction rule: leads.induct)
    case leads_root
    with \<open>a \<noteq> s\<close> leads.leads_root [of mem' a] show ?case by auto
  next
    case (leads_static ts y c b d)
    then obtain vs where "leads mem' a vs y" "ts = vs @ map Lit (if y = s then drop n (c_prefix child) else [])" by blast
    from split_cell_carrier [OF s this [unfolded mem'_def] leads_static.hyps(2), folded mem'_def] leads_static.hyps(3) obtain z cz where
      z: "leads mem' a ts z" "cell_at mem' z = Some cz" "b \<in> set (c_static cz)" by metis
    show ?case
    proof (cases "b = s")
      case True
      with leads.leads_static [OF z] at [of s] s leads_static.hyps(4) show ?thesis
        by (intro exI [of _ "ts @ map Lit (take n (c_prefix child))"]) (simp flip: map_append)
    next
      case False
      with leads_static.hyps(4) at [of b] have "cell_at mem' b = Some d" by (auto simp: cell_at_Some)
      with leads.leads_static [OF z] False show ?thesis by auto
    qed
  next
    case (leads_parameter ts y c b d)
    then obtain vs where "leads mem' a vs y" "ts = vs @ map Lit (if y = s then drop n (c_prefix child) else [])" by blast
    from split_cell_carrier [OF s this [unfolded mem'_def] leads_parameter.hyps(2), folded mem'_def] leads_parameter.hyps(3) obtain z cz where
      z: "leads mem' a ts z" "cell_at mem' z = Some cz" "c_parameter cz = Some b" by metis
    have "b \<noteq> s" using leads_parameter.hyps(4,5) s ne by auto
    with leads_parameter.hyps(4) at [of b] have "cell_at mem' b = Some d" by (auto simp: cell_at_Some)
    with leads.leads_parameter [OF z _ leads_parameter.hyps(5)] \<open>b \<noteq> s\<close> show ?case by auto
  next
    case (leads_catch_all ts y c b d)
    then obtain vs where "leads mem' a vs y" "ts = vs @ map Lit (if y = s then drop n (c_prefix child) else [])" by blast
    from split_cell_carrier [OF s this [unfolded mem'_def] leads_catch_all.hyps(2), folded mem'_def] leads_catch_all.hyps(3) obtain z cz where
      z: "leads mem' a ts z" "cell_at mem' z = Some cz" "c_catch_all cz = Some b" by metis
    have "b \<noteq> s" using leads_catch_all.hyps(4,5) s ne by auto
    with leads_catch_all.hyps(4) at [of b] have "cell_at mem' b = Some d" by (auto simp: cell_at_Some)
    with leads.leads_catch_all [OF z _ leads_catch_all.hyps(5)] \<open>b \<noteq> s\<close> show ?case by auto
  qed
qed

lemma keeps_place_split:
  assumes s: "cell_at mem s = Some child" and root: "is_root mem a" and n: "0 < n" "n \<le> length (c_prefix child)"
  shows "keeps_place a mem (split_cell n s child mem)"
  unfolding keeps_place_def
proof (intro allI impI)
  fix ts x c assume x: "leads mem a ts x" "cell_at mem x = Some c"
  have "c_prefix child \<noteq> []" using n by auto
  from split_cell_leads [OF s root this x(1), of n] obtain us where
    us: "leads (split_cell n s child mem) a us x" "ts = us @ map Lit (if x = s then drop n (c_prefix child) else [])" by blast
  from x(2) s split_cell_at [OF s, of n x] have
    "\<exists>c'. cell_at (split_cell n s child mem) x = Some c' \<and> c_prefix c' = take (if x = s then n else length (c_prefix c)) (c_prefix c)"
    by (auto simp: cell_at_Some)
  with us n s x(2)
  show "\<exists>k c' us. (c_prefix c \<noteq> [] \<longrightarrow> 0 < k) \<and> k \<le> length (c_prefix c) \<and> cell_at (split_cell n s child mem) x = Some c'
        \<and> c_prefix c' = take k (c_prefix c) \<and> leads (split_cell n s child mem) a us x \<and> ts = us @ map Lit (drop k (c_prefix c))"
    by (intro exI [of _ "if x = s then n else length (c_prefix c)"]) auto
qed

text \<open>The operations of insertion, one by one.\<close>

lemma adds_toI:
  assumes "cell_at mem p = Some c" "c_prefix c' = c_prefix c" "set (c_static c) \<subseteq> set (c_static c')"
    "\<And>b. c_parameter c = Some b \<Longrightarrow> c_parameter c' = Some b" "\<And>b. c_catch_all c = Some b \<Longrightarrow> c_catch_all c' = Some b"
  shows "adds_to mem (put_cell mem p c')" "adds_to mem (put_cell (mem @ [d]) p c')"
  using assms by (auto simp: adds_to_def cell_at_Some)

lemma adds_to_append: "adds_to mem (mem @ [d])"
  by (auto simp: adds_to_def cell_at_Some)

lemma adds_to_simple: "adds_to mem mem" "cell_at mem p = Some c \<Longrightarrow> adds_to mem (put_cell mem p (c\<lparr>c_route := x\<rparr>))"
  by (auto simp: adds_to_def cell_at_Some)

lemma heap_insert_static_keeps:
  "is_root mem a \<Longrightarrow> heap_insert_static mem parent tx = Some (mem', b) \<Longrightarrow> keeps_place a mem mem'"
  "is_root mem a \<Longrightarrow> heap_insert_children mem parent cs tx = Some (mem', b) \<Longrightarrow> keeps_place a mem mem'"
proof (induction mem parent tx and mem parent cs tx arbitrary: mem' b and mem' b
    rule: heap_insert_static_heap_insert_children.induct)
  case (1 mem parent tx)
  then show ?case by (auto simp: heap_insert_static.simps [of mem] split: if_splits option.splits)
next
  case (2 mem parent tx)
  then show ?case by (auto intro!: keeps_place_adds_to adds_toI(2) split: option.splits)
next
  case (3 mem parent s cs tx)
  from "3.prems"(2) obtain child where s: "cell_at mem s = Some child" by (auto split: option.splits)
  show ?case
  proof (cases "c_type child \<noteq> NStatic \<or> hd (c_prefix child) \<noteq> hd tx")
    case True
    with "3.prems" s "3.IH"(1) [OF s] "3.IH"(2) [OF s] show ?thesis by (auto split: if_splits)
  next
    case False
    let ?n = "common_prefix (c_prefix child) tx"
    let ?mem = "if ?n < length (c_prefix child) then split_cell ?n s child mem else mem"
    from "3.prems"(2) s False have ne: "\<not> (tx = [] \<or> c_prefix child = [])"
      and ins: "heap_insert_static ?mem s (drop ?n tx) = Some (mem', b)"
      by (auto simp: Let_def split: if_splits)
    have "0 < ?n" using ne False by (intro common_prefix_pos) auto
    then have k: "keeps_place a mem ?mem" using keeps_place_split [OF s "3.prems"(1), of ?n] by simp
    from False ne "3.IH"(3) [OF s _ _ _ refl refl keeps_place_root [OF k "3.prems"(1)] ins]
    have "keeps_place a ?mem mem'" by simp
    with k show ?thesis by (rule keeps_place_trans)
  qed
qed

lemma heap_insert_special_keeps:
  "heap_insert_special mem parent ty = Some (mem', res) \<Longrightarrow> keeps_place a mem mem'"
  by (auto simp: heap_insert_special_def intro!: keeps_place_adds_to adds_toI(2) split: if_splits option.splits)

lemma heap_insert_token_keeps:
  assumes root: "is_root mem a" and ins: "heap_insert_token mem current names rest marker = Some (mem', res)"
  shows "keeps_place a mem mem'"
proof -
  obtain mem1 b where s: "(if marker \<noteq> 0 then heap_insert_static mem current (sv_substr rest 0 marker)
      else Some (mem, current)) = Some (mem1, b)"
    using ins by (auto simp: heap_insert_token_def split: option.splits if_splits)
  then have k: "keeps_place a mem mem1"
    using heap_insert_static_keeps(1) [OF root] by (auto split: if_splits)
  moreover have "keeps_place a mem1 mem'"
    using ins unfolding heap_insert_token_def s
    by (auto simp: Let_def split: option.splits sum.splits prod.splits intro: heap_insert_special_keeps)
  ultimately show ?thesis by (rule keeps_place_trans)
qed

lemma heap_insert_loop_keeps:
  "is_root mem a \<Longrightarrow> heap_insert_loop mem current names rest = Some (mem', res) \<Longrightarrow> keeps_place a mem mem'"
proof (induction mem current names rest arbitrary: mem' res rule: heap_insert_loop.induct)
  case (1 mem current names rest)
  show ?case
  proof (cases "sv_find_first_of '':*'' rest 0")
    case None
    with "1.prems" heap_insert_static_keeps(1) [OF "1.prems"(1)] show ?thesis
      by (auto simp: heap_insert_loop.simps [of mem] split: if_splits option.splits)
  next
    case (Some marker)
    show ?thesis
    proof (cases "rest = []")
      case True
      with "1.prems" show ?thesis by (auto simp: heap_insert_loop.simps [of mem])
    next
      case False
      with "1.prems"(2) Some obtain mem2 res2 where tk: "heap_insert_token mem current names rest marker = Some (mem2, res2)"
        by (auto simp: heap_insert_loop.simps [of mem] split: option.splits)
      have k: "keeps_place a mem mem2" by (rule heap_insert_token_keeps [OF "1.prems"(1) tk])
      show ?thesis
      proof (cases res2)
        case (Inl e)
        with k tk Some False "1.prems"(2) show ?thesis by (simp add: heap_insert_loop.simps [of mem])
      next
        case (Inr y)
        obtain current2 names2 rest2 where y: "y = (current2, names2, rest2)" by (metis prod_cases3)
        with Inr tk Some False "1.prems"(2) have "heap_insert_loop mem2 current2 names2 rest2 = Some (mem', res)"
          by (simp add: heap_insert_loop.simps [of mem])
        with "1.IH" [OF False Some tk] Inr y keeps_place_root [OF k "1.prems"(1)] have "keeps_place a mem2 mem'" by blast
        with k show ?thesis by (rule keeps_place_trans)
      qed
    qed
  qed
qed

lemma heap_insert_route_keeps:
  assumes root: "heap_root h w = (h1, b)" and ins: "heap_insert_route h w p f = Some (h', res)"
  shows "is_root (hr_memory h1) a \<Longrightarrow> keeps_place a (hr_memory h1) (hr_memory h')" and "hr_roots h' = hr_roots h1"
proof -
  from ins root obtain mem lres where l: "heap_insert_loop (hr_memory h1) b [] p = Some (mem, lres)"
    "hr_roots h' = hr_roots h1" "adds_to mem (hr_memory h')"
    by (auto simp: heap_insert_route_def adds_to_simple split: option.splits sum.splits if_splits)
  show "keeps_place a (hr_memory h1) (hr_memory h')" if "is_root (hr_memory h1) a"
    using heap_insert_loop_keeps [OF that l(1)] l(3) keeps_place_trans keeps_place_adds_to by metis
  show "hr_roots h' = hr_roots h1" by (rule l(2))
qed

lemma heap_root_keeps:
  assumes "heap_root h w = (h1, b)"
  shows "keeps_place a (hr_memory h) (hr_memory h1)" and "hr_roots h v = Some (Some a) \<Longrightarrow> hr_roots h1 v = Some (Some a)"
  using assms by (auto simp: heap_root_def intro!: keeps_place_adds_to adds_to_append split: option.splits)

lemma heap_add_route_keeps:
  assumes root: "is_root (hr_memory h) a" "hr_roots h v = Some (Some a)" and add: "heap_add_route h w p f = Some (h', res)"
  shows "keeps_place a (hr_memory h) (hr_memory h')" and "hr_roots h' v = Some (Some a)"
proof -
  have "keeps_place a (hr_memory h) (hr_memory h') \<and> hr_roots h' v = Some (Some a)"
  proof (cases "validate_pattern p")
    case (Inl e)
    with add root show ?thesis by (simp add: heap_add_route_def)
  next
    case (Inr u)
    with add have ins: "heap_insert_route h w p f = Some (h', res)" by (simp add: heap_add_route_def)
    obtain h1 b where h1: "heap_root h w = (h1, b)" by fastforce
    note k = heap_root_keeps [OF h1]
    from heap_insert_route_keeps(1) [OF h1 ins keeps_place_root [OF k(1) root(1)]] k(1)
    have "keeps_place a (hr_memory h) (hr_memory h')" using keeps_place_trans by blast
    with heap_insert_route_keeps(2) [OF h1 ins] k(2) [OF root(2)] show ?thesis by simp
  qed
  then show "keeps_place a (hr_memory h) (hr_memory h')" "hr_roots h' v = Some (Some a)" by simp_all
qed

text \<open>The node of a verb has no prefix.\<close>

definition roots_bare :: "('v, 'h) heap_router \<Rightarrow> bool" where
  "roots_bare h \<longleftrightarrow> (\<forall>v a. hr_roots h v = Some (Some a) \<longrightarrow> is_root (hr_memory h) a)"

lemma heap_add_route_bare:
  assumes bare: "roots_bare h" and add: "heap_add_route h w p f = Some (h', res)"
  shows "roots_bare h'"
proof (cases "validate_pattern p")
  case (Inl e)
  with add bare show ?thesis by (simp add: heap_add_route_def)
next
  case (Inr u)
  with add have ins: "heap_insert_route h w p f = Some (h', res)" by (simp add: heap_add_route_def)
  obtain h1 b where h1: "heap_root h w = (h1, b)" by fastforce
  with bare have "roots_bare h1"
    using keeps_place_root [OF keeps_place_adds_to [OF adds_to_append]]
    by (fastforce simp: heap_root_def roots_bare_def is_root_def [of "_ @ _" "length _"] split: option.splits if_splits)
  then show ?thesis
    using heap_insert_route_keeps [OF h1 ins] keeps_place_root unfolding roots_bare_def by metis
qed

lemma trace_bare: "trace heap_step new_heap_router calls h \<Longrightarrow> roots_bare h"
proof (induction rule: trace.induct)
  case trace_init
  show ?case by (simp add: roots_bare_def new_heap_router_def)
next
  case (trace_step es h e h')
  from trace_step.hyps(2) trace_step.IH show ?case by cases (auto dest: heap_add_route_bare)
qed

section \<open>The tree after a registration\<close>

lemma reaches_set_route [simp]: "reaches (set_route x n) ws = reaches n ws"
  by (simp add: reaches_iff [of "set_route _ _"] reaches_iff [of n] reaches_special_def)

lemma put_route_reaches:
  assumes "node_at t p = Some n"
  shows "reaches (put_at t p (set_route x n)) ws \<longleftrightarrow> reaches t ws"
  using put_at_reaches [OF assms, of "set_route x n" ws] put_at_keeps [OF assms, of "set_route x n" ws]
    path_reaches [OF assms] by auto

lemma add_route_reaches:
  assumes ok: "router_ok r" and t: "roots r v = Some (Some t)" and add: "add_route r w p f = (r', res)"
  obtains t' where "roots r' v = Some (Some t')"
    "if w = v \<and> well_formed p then extends_to (reaches t) (tokens p) (reaches t') \<and> reaches t' (tokens p) else t' = t"
proof (cases "well_formed p")
  case False
  then have "validate_pattern p \<noteq> Inr ()" using validate_pattern_ok [of p] by auto
  with add have "r' = r" by (auto simp: add_route_def split: sum.splits)
  with t False that show thesis by simp
next
  case wf: True
  then have "validate_pattern p = Inr ()" using validate_pattern_ok [of p] by auto
  with add have ins: "insert_route r w p f = (r', res)" by (simp add: add_route_def)
  obtain t1 lres where loop: "insert_loop (root_for r w) [] [] p = (t1, lres)" by fastforce
  note root = root_for_ok [OF ok, of w]
  have "ready (root_for r w) p" using root(2) well_formed_start [OF wf] by (simp add: ready_def)
  note l = insert_loop_correct [OF root(1) _ this loop] insert_loop_extends [OF root(1) _ this loop]
  from l(1) obtain q n where q: "lres = Inr (q, token_names p)" "node_at t1 q = Some n" "path_tokens t1 q = tokens p"
    by (auto simp: moved_def)
  obtain t2 where t2: "r' = store_root r w t2" "t2 = t1 \<or> (\<exists>x. t2 = put_at t1 q (set_route x n))"
    using ins loop q by (auto simp: insert_route_def split: if_splits option.splits)
  then have same: "reaches t2 ws \<longleftrightarrow> reaches t1 ws" for ws using put_route_reaches [OF q(2)] by auto
  show thesis
  proof (cases "w = v")
    case False
    with t2(1) t that [of t] show thesis by (simp add: store_root_def)
  next
    case v: True
    have "reaches t1 (tokens p)" using q by (auto simp: reaches_def)
    moreover have "extends_to (reaches t) (tokens p) (reaches t1)" using l(2) v t by (simp add: root_for_def)
    moreover have "reaches t2 = reaches t1" using same by blast
    ultimately show thesis using t2(1) v wf that [of t2] by (simp add: store_root_def)
  qed
qed

lemma route_at:
  assumes ok: "router_ok r" and t: "roots r v = Some (Some t)" and n: "node_at t q = Some n"
  shows "n_route n = routes_in r v (path_tokens t q)"
proof -
  have "node_ok t" using ok t by (simp add: router_ok_def node_wf_def)
  have "n_route n = Some x \<longleftrightarrow> routes_in r v (path_tokens t q) = Some x" for x
  proof
    assume "n_route n = Some x"
    with path_entry [OF n] t show "routes_in r v (path_tokens t q) = Some x"
      by (simp add: routes_in_iff [OF ok] registered_def)
  next
    assume "routes_in r v (path_tokens t q) = Some x"
    then obtain p m where "node_at t p = Some m" "path_tokens t p = path_tokens t q" "n_route m = Some x"
      using t entry_path [of _ x t] by (fastforce simp: routes_in_iff [OF ok] registered_def)
    with path_tokens_inj [OF \<open>node_ok t\<close> _ n, of p m] n show "n_route n = Some x" by simp
  qed
  then show ?thesis by (metis option.exhaust)
qed

lemma unreached_no_route:
  assumes "router_ok r" "roots r v = Some (Some t)" "\<not> reaches t ws"
  shows "routes_in r v ws = None"
proof (rule ccontr)
  assume "routes_in r v ws \<noteq> None"
  then obtain x where "(ws, x) \<in> set (entries t)"
    using assms(1,2) by (auto simp: routes_in_iff registered_def)
  with entry_path [of ws x t] assms(3) show False unfolding reaches_def by blast
qed

section \<open>When a node is split\<close>

text \<open>A node that stood at \<open>ts\<close> and stands at \<open>us\<close>, in terms of the pattern that was inserted.\<close>

lemma cut_iff:
  assumes t: "node_wf t" "node_at t q = Some n" "path_tokens t q = ts"
    and t': "node_wf t'" "node_at t' q' = Some n'" "path_tokens t' q' = us"
    and k: "n_prefix n \<noteq> [] \<longrightarrow> 0 < k" "n_prefix n' = take k (n_prefix n)" "ts = us @ map Lit (drop k (n_prefix n))"
    and ext: "extends_to (reaches t) vs (reaches t')" "reaches t' vs"
  defines "p \<equiv> longest_common_prefix ts vs"
  shows "us \<noteq> ts \<Longrightarrow> us = p \<and> \<not> reaches t us"
    and "us \<noteq> ts \<longleftrightarrow> length p < length ts \<and> (\<forall>i. length p \<le> i \<and> i < length ts \<longrightarrow> \<not> reaches t (take i ts))"
proof -
  have p: "prefix p ts" "prefix p vs"
    unfolding p_def by (rule longest_common_prefix_prefix1, rule longest_common_prefix_prefix2)
  have r: "reaches t ts" "reaches t' us" using t t' by (auto simp: reaches_def)
  have cut: "us = p \<and> length p < length ts \<and> (\<forall>i. length p \<le> i \<and> i < length ts \<longrightarrow> \<not> reaches t (take i ts))"
    if "us \<noteq> ts"
  proof -
    have kl: "0 < k" "k < length (n_prefix n)" using that k by auto
    then have ne: "q \<noteq> []" using t(3) k(3) by auto
    with kl have len: "length ts = length us + (length (n_prefix n) - k)" "length ts - edge_length n < length us"
      using k(3) last_edge(1) [OF t(1,2)] t(3) by (auto simp: edge_length_def)
    note last = last_edge(3) [OF t(1,2) ne, unfolded t(3)]
    have no: "\<not> reaches t (take i ts)" if "length us \<le> i" "i < length ts" for i
      using last [of i] that len(2) by auto
    have "us = take (length us) ts" using k(3) by simp
    with no [of "length us"] len(1) kl(2) have "\<not> reaches t us" by simp
    with ext(1) r(2) have f: "fresh_on (reaches t) vs us" by (auto simp: extends_to_def)
    have "prefix us ts" using k(3) by simp
    then have "us = p"
      using longest_common_prefix_max_prefix [of us ts vs] fresh_onD [OF f] r(1) p unfolding p_def
      by (metis prefix_order.antisym)
    with no len(1) kl(2) show ?thesis by simp
  qed
  have "us \<noteq> ts" if l: "length p < length ts" and no: "\<forall>i. length p \<le> i \<and> i < length ts \<longrightarrow> \<not> reaches t (take i ts)"
  proof
    assume us: "us = ts"
    then have e: "edge_length n' = edge_length n" "0 < edge_length n" using k(2,3) by (auto simp: edge_length_def)
    have ne: "q \<noteq> []" "q' \<noteq> []" using t(3) t'(3) us l by auto
    have "reaches t' p" unfolding p_def using reaches_lcp [of t'] t'(1) r(2) ext(2) us by (simp add: node_wf_def)
    then have "reaches t' (take (length p) ts)" using p(1) by (metis append_eq_conv_conj prefix_def)
    with last_edge(3) [OF t'(1,2) ne(2), of "length p"] t'(3) us l e(1) have "length p \<le> length ts - edge_length n" by simp
    with last_edge(2) [OF t(1,2) ne(1)] t(3) no l e(2) show False by auto
  qed
  with cut show "us \<noteq> ts \<longleftrightarrow> length p < length ts \<and> (\<forall>i. length p \<le> i \<and> i < length ts \<longrightarrow> \<not> reaches t (take i ts))"
    by blast
  show "us = p \<and> \<not> reaches t us" if "us \<noteq> ts"
    using cut [OF that] p(1) by (metis append_eq_conv_conj order_refl prefix_def)
qed

section \<open>References to routes\<close>

text \<open>\<open>cuts mem a ts us\<close>: the pattern \<open>us\<close> parts from \<open>ts\<close> (or ends) inside the last edge of
  \<open>ts\<close>: past every node that is on the way, and before the one at the end.\<close>

definition cuts :: "'h memory \<Rightarrow> addr \<Rightarrow> tok list \<Rightarrow> tok list \<Rightarrow> bool" where
  "cuts mem a ts us \<longleftrightarrow>
     (let k = length (longest_common_prefix ts us)
      in k < length ts \<and> (\<forall>i. k \<le> i \<and> i < length ts \<longrightarrow> (\<nexists>x. leads mem a (take i ts) x)))"

text \<open>The tree of a verb and the tree that \<open>add_route\<close> makes of it, in memory.\<close>

lemma holds_tree:
  assumes "heap_holds h r F" "hr_roots h v = Some (Some a)"
  obtains t where "roots r v = Some (Some t)" "stored (hr_memory h) a t (F v)"
proof -
  have "verb_holds (hr_memory h) (Some (Some a)) (roots r v) (F v)" using heap_holds_verb [OF assms(1), of v] assms(2) by simp
  with that show thesis by (cases "(hr_memory h, Some (Some a), roots r v, F v)" rule: verb_holds.cases) auto
qed

text \<open>The route at the place where the node stands after the registration.\<close>

lemma route_at_place:
  assumes r: "router_ok r" "roots r v = Some (Some t)" "routes_in r v ts = Some y"
    and t: "node_wf t" "node_at t q = Some n" "path_tokens t q = ts"
    and t': "node_wf t'" "node_at t' q' = Some n'" "path_tokens t' q' = us"
    and k: "n_prefix n \<noteq> [] \<longrightarrow> 0 < k" "n_prefix n' = take k (n_prefix n)" "ts = us @ map Lit (drop k (n_prefix n))"
    and new: "if w = v \<and> well_formed p then extends_to (reaches t) (tokens p) (reaches t') \<and> reaches t' (tokens p) else t' = t"
  defines "l \<equiv> length (longest_common_prefix ts (tokens p))"
  shows "store_add (routes_in r) w p f v us =
    (if w = v \<and> well_formed p \<and> l < length ts \<and> (\<forall>i. l \<le> i \<and> i < length ts \<longrightarrow> \<not> reaches t (take i ts))
     then if prefix (tokens p) ts then Some (route_of p f) else None else Some y)"
proof -
  have stays: "store_add (routes_in r) w p f v ts = Some y" using r(3) by (auto simp: store_add_def store_outcome_def)
  have r': "reaches t' us" using t'(2,3) by (auto simp: reaches_def)
  show ?thesis
  proof (cases "w = v \<and> well_formed p")
    case False
    with new have same: "t' = t" by simp
    then have "reaches t' ts" using t(2,3) by (auto simp: reaches_def)
    with cut_iff(1) [OF t t' k, of ts] r' same have "us = ts" by auto
    with stays False show ?thesis by auto
  next
    case True
    with new have ext: "extends_to (reaches t) (tokens p) (reaches t')" "reaches t' (tokens p)" by simp_all
    note cut = cut_iff [OF t t' k ext, folded l_def]
    show ?thesis
    proof (cases "us = ts")
      case same: True
      with cut(2) stays show ?thesis by auto
    next
      case False
      note us = cut(1) [OF False]
      have none: "routes_in r v us = None" by (rule unreached_no_route [OF r(1,2)]) (rule conjunct2 [OF us])
      have "tokens p = us \<longleftrightarrow> prefix (tokens p) ts"
        using us longest_common_prefix_max_prefix [of "tokens p" ts "tokens p"]
          longest_common_prefix_prefix1 [of ts "tokens p"] longest_common_prefix_prefix2 [of ts "tokens p"]
        by (metis prefix_order.antisym prefix_order.refl)
      with none True have "store_add (routes_in r) w p f v us = (if prefix (tokens p) ts then Some (route_of p f) else None)"
        by (auto simp: store_add_def store_outcome_def)
      with True False cut(2) show ?thesis by simp
    qed
  qed
qed

text \<open>The same, from the node's address.\<close>

lemma place_after:
  assumes h: "heap_holds h r F" "router_ok r" "roots_bare h" and a: "hr_roots h v = Some (Some a)"
    and x: "leads (hr_memory h) a ts x" "cell_at (hr_memory h) x = Some c" "c_route c = Some y"
    and m: "hm_node m = x" and add: "heap_add_route h w p f = Some (h', res)"
  shows "route_behind h' m =
    (if w = v \<and> well_formed p \<and> cuts (hr_memory h) a ts (tokens p)
     then if prefix (tokens p) ts then Some (route_of p f) else None else Some y)"
proof -
  let ?mem = "hr_memory h" and ?mem' = "hr_memory h'"
  obtain r' res' where ar: "add_route r w p f = (r', res')" by fastforce
  with add_route_stored [OF h(1,2) ar] add obtain F' where h': "heap_holds h' r' F'" by auto
  note mach = add_route_machine(2,3) [OF h(2) ar]
  obtain t where t: "roots r v = Some (Some t)" "stored ?mem a t (F v)" using holds_tree [OF h(1) a] .
  then have wf: "node_wf t" using h(2) by (simp add: router_ok_def)
  obtain q n where q: "node_at t q = Some n" "follow ?mem a q = Some x" "path_tokens t q = ts"
    using leads_path [OF t(2) wf x(1)] by blast
  have n: "n_prefix n = c_prefix c" "n_route n = Some y"
    using stored_at [OF t(2) q(1,2)] x(2,3) by (metis labels_def option.inject)+
  have "is_root ?mem a" using h(3) a by (simp add: roots_bare_def)
  note keep = heap_add_route_keeps [OF this a add]
  obtain k c' us where k: "c_prefix c \<noteq> [] \<longrightarrow> 0 < k" "cell_at ?mem' x = Some c'"
    "c_prefix c' = take k (c_prefix c)" "leads ?mem' a us x" "ts = us @ map Lit (drop k (c_prefix c))"
    using keeps_placeD [OF keep(1) x(1,2)] .
  obtain t' where t': "roots r' v = Some (Some t')"
    "if w = v \<and> well_formed p then extends_to (reaches t) (tokens p) (reaches t') \<and> reaches t' (tokens p) else t' = t"
    using add_route_reaches [OF h(2) t(1) ar] .
  then have st': "stored ?mem' a t' (F' v)" "node_wf t'"
    using holds_tree [OF h' keep(2)] mach(1) by (auto simp: router_ok_def)
  obtain q' n' where q': "node_at t' q' = Some n'" "follow ?mem' a q' = Some x" "path_tokens t' q' = us"
    using leads_path [OF st' k(4)] by blast
  have n': "n_prefix n' = c_prefix c'" "n_route n' = c_route c'"
    using stored_at [OF st'(1) q'(1,2)] k(2) by (metis labels_def option.inject)+
  have "route_behind h' m = store_add (routes_in r) w p f v us"
    using k(2) n'(2) route_at [OF mach(1) t'(1) q'(1)] q'(3) mach(2) m by (simp add: route_behind_def)
  moreover have "routes_in r v ts = Some y" using route_at [OF h(2) t(1) q(1)] q(3) n(2) by simp
  ultimately show ?thesis
    using route_at_place [OF h(2) t(1) _ wf q(1,3) st'(2) q'(1,3) _ _ _ t'(2), of y k f] k n(1) n'(1)
    by (simp add: cuts_def Let_def leads_reaches [OF t(2) wf])
qed

text \<open>C7. The fate of a reference.  \<open>match\<close> returns a reference to a route inside a node, and
  registrations that come later may change that node.  The reference still shows the same
  route, unless the later pattern is valid, for the same verb, and parts from the matched
  pattern within the text of the matched node.  Then the node is split: the reference shows the
  later route, when its pattern ends there, and is dangling otherwise: the route it referred to
  was moved and reset.\<close>

theorem match_reference_fate:
  assumes "trace heap_step new_heap_router calls h"
    and "heap_match_route h v t = Some (Inr (Some m))"
    and "hr_roots h v = Some (Some a)" "leads (hr_memory h) a ts (hm_node m)"
    and "heap_add_route h w p f = Some (h', res)"
  shows "route_behind h' m =
    (if w = v \<and> well_formed p \<and> cuts (hr_memory h) a ts (tokens p)
     then if prefix (tokens p) ts then Some (route_of p f) else None
     else route_behind h m)"
proof -
  from heap_trace_bisimilar [OF assms(1)] obtain r F where r: "heap_holds h r F" "router_ok r"
    by (auto simp: bisimilar_def)
  from assms(2) obtain c y where c: "cell_at (hr_memory h) (hm_node m) = Some c" "c_route c = Some y"
    by (auto simp: heap_match_route_def Let_def split: option.splits)
  then have "route_behind h m = Some y" by (simp add: route_behind_def)
  with place_after [OF r trace_bare [OF assms(1)] assms(3,4) c refl assms(5)] show ?thesis by simp
qed

theorem match_reference_fate_witness:
  "\<exists>h' m. heap_match_route one_route ''GET'' ''/abc'' = Some (Inr (Some m))
     \<and> heap_add_route one_route ''GET'' ''/abd'' 1 = Some (h', Inr ())
     \<and> route_behind one_route m = Some (route_of ''/abc'' 0) \<and> route_behind h' m = None
     \<and> cuts (hr_memory one_route) 0 (tokens ''/abc'') (tokens ''/abd'')"
proof -
  let ?m = "\<lparr>hm_node = 1, hm_values = []\<rparr>"
  obtain h' res where add: "heap_add_route one_route ''GET'' ''/abd'' 1 = Some (h', res)"
    using heap_router_total [OF one_route_trace] by (metis option.exhaust surj_pair)
  have "map_option snd (heap_add_route one_route ''GET'' ''/abd'' 1) = Some (Inr ())"
    "map_option (\<lambda>x. route_behind (fst x) ?m) (heap_add_route one_route ''GET'' ''/abd'' 1) = Some None"
    by code_simp+
  with add have r: "res = Inr ()" "route_behind h' ?m = None" by simp_all
  have m: "heap_match_route one_route ''GET'' ''/abc'' = Some (Inr (Some ?m))" "hr_roots one_route ''GET'' = Some (Some 0)"
    "tokens ''/abc'' = [] @ map Lit ''/abc''" "route_behind one_route ?m = Some (route_of ''/abc'' 0)" by code_simp+
  have c: "cell_at (hr_memory one_route) 0 = Some ((new_cell NStatic [])\<lparr>c_static := [1]\<rparr>)"
    "cell_at (hr_memory one_route) 1 = Some ((new_cell NStatic ''/abc'')\<lparr>c_route := Some (route_of ''/abc'' 0)\<rparr>)"
    by code_simp+
  have "leads (hr_memory one_route) 0 (tokens ''/abc'') (hm_node ?m)"
    using leads_static [OF leads_root c(1) _ c(2)] unfolding m(3) by simp
  from match_reference_fate [OF one_route_trace m(1,2) this add] m(1,4) r add show ?thesis
    by (auto split: if_splits)
qed

end
