(* ===== verification/Router_Cost.thy ===== *)
theory Router_Cost
  imports Router_Props
begin

text \<open>
  How much work a lookup is.  The recursive lambda of \<^verbatim>\<open>Router::match\<close>
  (\<^verbatim>\<open>src/Router.cpp\<close>) backtracks; the functions below list the nodes it is called on, in
  order, following its control flow.  No node is visited twice, and a registration adds at
  most two nodes for each character of its pattern.
\<close>

section \<open>The nodes that a search visits\<close>

text \<open>A node is given by the edges that lead to it; \<open>path\<close> are those to the node the search is at,
  \<open>i\<close> is the index of the first child that is left.\<close>

function (sequential) visit_search :: "string \<Rightarrow> node_ptr \<Rightarrow> 'h node \<Rightarrow> nat \<Rightarrow> string list \<Rightarrow> node_ptr list"
  and visit_static :: "string \<Rightarrow> node_ptr \<Rightarrow> nat \<Rightarrow> 'h node list \<Rightarrow> nat \<Rightarrow> string list \<Rightarrow> node_ptr list"
  and visit_parameter :: "string \<Rightarrow> node_ptr \<Rightarrow> 'h node option \<Rightarrow> nat \<Rightarrow> string list \<Rightarrow> node_ptr list" where
  "visit_search target path node position vals = path #
     (if position = length target \<and> n_route node \<noteq> None then []
      else visit_static target path 0 (n_static node) position vals @
        (case search_static target (n_static node) position vals of
           (Some m, vals1) \<Rightarrow> []
         | (None, vals1) \<Rightarrow> visit_parameter target path (n_parameter node) position vals1))"
| "visit_static target path i [] position vals = []"
| "visit_static target path i (child # cs) position vals =
     (if sv_substr (drop position target) 0 (length (n_prefix child)) \<noteq> n_prefix child
      then visit_static target path (Suc i) cs position vals
      else visit_search target (path @ [StaticEdge i]) child (position + length (n_prefix child)) vals @
        (case search target child (position + length (n_prefix child)) vals of
           (Some m, vals1) \<Rightarrow> []
         | (None, vals1) \<Rightarrow> visit_static target path (Suc i) cs position (take (length vals) vals1)))"
| "visit_parameter target path None position vals = []"
| "visit_parameter target path (Some c) position vals =
     (if position < length target \<and> target ! position \<noteq> CHR ''/''
      then visit_search target (path @ [ParameterEdge]) c (segment_end target position)
             (vals @ [sv_substr target position (segment_end target position - position)])
      else [])"
  by pat_completeness auto

termination
  by (relation "measure (\<lambda>x. case x of Inl (t, q, n, p, v) \<Rightarrow> 2 * size n
        | Inr (Inl (t, q, i, cs, p, v)) \<Rightarrow> Suc (2 * size_list size cs)
        | Inr (Inr (t, q, c, p, v)) \<Rightarrow> Suc (2 * size_option size c))")
    (auto simp: node_size_static node_size_parameter)

declare visit_search.simps [simp del]

text \<open>The nodes visited by one call of \<open>match_route\<close>, and the nodes of the tree for a verb.\<close>

definition visits :: "('v, 'h) router \<Rightarrow> 'v \<Rightarrow> string \<Rightarrow> node_ptr list" where
  "visits r method target =
     (case roots r method of
        Some (Some root) \<Rightarrow> visit_search (strip_query target) [] root 0 []
      | _ \<Rightarrow> [])"

definition tree_paths :: "('v, 'h) router \<Rightarrow> 'v \<Rightarrow> node_ptr set" where
  "tree_paths r v = (case roots r v of Some (Some n) \<Rightarrow> {q. node_at n q \<noteq> None} | _ \<Rightarrow> {})"

text \<open>What is visited lies at or below the node the search is at, once.\<close>

lemma visit_below:
  fixes node :: "'h node" and cs :: "'h node list" and pm :: "'h node option"
  shows
  "distinct (visit_search target path node position vals) \<and>
     (\<forall>v\<in>set (visit_search target path node position vals). \<exists>q. v = path @ q \<and> node_at node q \<noteq> None)"
  "distinct (visit_static target path i cs position vals) \<and>
     (\<forall>v\<in>set (visit_static target path i cs position vals).
        \<exists>j<length cs. \<exists>q. v = path @ StaticEdge (i + j) # q \<and> node_at (cs ! j) q \<noteq> None)"
  "distinct (visit_parameter target path pm position vals) \<and>
     (\<forall>v\<in>set (visit_parameter target path pm position vals).
        \<exists>c q. pm = Some c \<and> v = path @ ParameterEdge # q \<and> node_at c q \<noteq> None)"
proof (induction target path node position vals and target path i cs position vals and target path pm position vals
    rule: visit_search_visit_static_visit_parameter.induct)
  case (1 target path node position vals)
  show ?case
  proof (cases "position = length target \<and> n_route node \<noteq> None")
    case True
    then show ?thesis by (simp add: visit_search.simps)
  next
    case False
    obtain x vals1 where s: "search_static target (n_static node) position vals = (x, vals1)" by fastforce
    note static = "1.IH"(1) [OF False] and param = "1.IH"(2) [OF False s [symmetric]]
    show ?thesis
    proof (cases x)
      case None
      have "visit_search target path node position vals = path #
          visit_static target path 0 (n_static node) position vals @ visit_parameter target path (n_parameter node) position vals1"
        unfolding visit_search.simps [of target path node] if_not_P [OF False] s None by simp
      with static param [OF None] show ?thesis by (fastforce intro: exI [of _ "_ # _"])
    next
      case (Some m)
      have "visit_search target path node position vals = path # visit_static target path 0 (n_static node) position vals"
        unfolding visit_search.simps [of target path node] if_not_P [OF False] s Some by simp
      with static show ?thesis by (fastforce intro: exI [of _ "_ # _"])
    qed
  qed
next
  case (3 target path i child cs position vals)
  let ?here = "visit_search target (path @ [StaticEdge i]) child (position + length (n_prefix child)) vals"
  have next_ok: "\<exists>j<length (child # cs). \<exists>q. w = path @ StaticEdge (i + j) # q \<and> node_at ((child # cs) ! j) q \<noteq> None"
    if "\<exists>j<length cs. \<exists>q. w = path @ StaticEdge (Suc i + j) # q \<and> node_at (cs ! j) q \<noteq> None" for w
    using that by (metis add_Suc_shift length_Cons not_less_eq nth_Cons_Suc)
  show ?case
  proof (cases "sv_substr (drop position target) 0 (length (n_prefix child)) = n_prefix child")
    case False
    with "3.IH"(1) next_ok show ?thesis by simp
  next
    case True
    obtain x vals1 where s: "search target child (position + length (n_prefix child)) vals = (x, vals1)" by fastforce
    define rest where "rest = (case x of None \<Rightarrow> visit_static target path (Suc i) cs position (take (length vals) vals1) | Some m \<Rightarrow> [])"
    have here: "distinct ?here" "\<forall>w\<in>set ?here. \<exists>q. w = path @ StaticEdge i # q \<and> node_at child q \<noteq> None"
      using "3.IH"(2) True by simp_all
    have rest: "distinct rest"
      "\<forall>w\<in>set rest. \<exists>j<length cs. \<exists>q. w = path @ StaticEdge (Suc i + j) # q \<and> node_at (cs ! j) q \<noteq> None"
      using "3.IH"(3) True s by (auto simp: rest_def split: option.split)
    have "visit_static target path i (child # cs) position vals = ?here @ rest"
      using True s by (cases x) (simp_all add: rest_def)
    moreover have "set ?here \<inter> set rest = {}" using here(2) rest(2) by fastforce
    ultimately show ?thesis using here rest next_ok by (auto intro: exI [of _ 0])
  qed
next
  case (5 target path c position vals)
  then show ?case by auto
qed auto

section \<open>The number of nodes\<close>

fun nodes :: "'h node \<Rightarrow> nat" where
  "nodes (Node ty pre ss pm ca r) =
     Suc (sum_list (map nodes ss) + (case pm of None \<Rightarrow> 0 | Some c \<Rightarrow> nodes c)
       + (case ca of None \<Rightarrow> 0 | Some c \<Rightarrow> nodes c))"

abbreviation nodes_opt :: "'h node option \<Rightarrow> nat" where
  "nodes_opt x \<equiv> (case x of None \<Rightarrow> 0 | Some c \<Rightarrow> nodes c)"

lemma nodes_parts:
  "nodes n = Suc (sum_list (map nodes (n_static n)) + nodes_opt (n_parameter n) + nodes_opt (n_catch_all n))"
  by (cases n) simp

lemma nodes_make_node [simp]: "nodes (make_node ty pre) = 1"
  by (simp add: make_node_def)

lemma paths_node:
  "{q. node_at (Node ty pre ss pm ca r) q \<noteq> None} =
     insert [] ((\<Union>i<length ss. (#) (StaticEdge i) ` {q. node_at (ss ! i) q \<noteq> None})
       \<union> (case pm of None \<Rightarrow> {} | Some c \<Rightarrow> (#) ParameterEdge ` {q. node_at c q \<noteq> None})
       \<union> (case ca of None \<Rightarrow> {} | Some c \<Rightarrow> (#) CatchAllEdge ` {q. node_at c q \<noteq> None}))" (is "?L = ?R")
proof (intro set_eqI)
  fix q
  show "q \<in> ?L \<longleftrightarrow> q \<in> ?R"
  proof (cases q)
    case (Cons e p)
    then show ?thesis by (cases e; cases pm; cases ca) (auto simp: image_iff)
  qed simp
qed

lemma paths_nodes: "finite {q. node_at n q \<noteq> None} \<and> card {q. node_at n q \<noteq> None} \<le> nodes n"
proof (induction n rule: nodes.induct)
  case (1 ty pre ss pm ca r)
  let ?P = "\<lambda>n. {q. node_at n q \<noteq> None}"
  let ?S = "\<Union>i<length ss. (#) (StaticEdge i) ` ?P (ss ! i)"
  have opt: "finite (case x of None \<Rightarrow> {} | Some c \<Rightarrow> (#) e ` ?P c)
      \<and> card (case x of None \<Rightarrow> {} | Some c \<Rightarrow> (#) e ` ?P c) \<le> nodes_opt x"
    if "\<And>c. x = Some c \<Longrightarrow> finite (?P c) \<and> card (?P c) \<le> nodes c" for x e
    using that by (cases x) (auto intro: le_trans [OF card_image_le])
  have "card ?S \<le> (\<Sum>i<length ss. card ((#) (StaticEdge i) ` ?P (ss ! i)))"
    by (rule card_UN_le) simp
  also have "\<dots> \<le> (\<Sum>i<length ss. nodes (ss ! i))"
    using "1.IH"(1) by (intro sum_mono le_trans [OF card_image_le]) auto
  also have "\<dots> = sum_list (map nodes ss)" by (simp add: sum_list_sum_nth atLeast0LessThan)
  finally have S: "card ?S \<le> sum_list (map nodes ss)" "finite ?S" using "1.IH"(1) by auto
  note P = opt [OF "1.IH"(2), of pm ParameterEdge] and C = opt [OF "1.IH"(3), of ca CatchAllEdge]
  let ?p = "case pm of None \<Rightarrow> {} | Some c \<Rightarrow> (#) ParameterEdge ` ?P c"
    and ?c = "case ca of None \<Rightarrow> {} | Some c \<Rightarrow> (#) CatchAllEdge ` ?P c"
  have fin: "finite (?S \<union> ?p \<union> ?c)" using S P C by blast
  have "card (insert [] (?S \<union> ?p \<union> ?c)) \<le> Suc (card (?S \<union> ?p \<union> ?c))"
    unfolding card_insert_if [OF fin] by (rule if_split [THEN iffD2]) simp
  also have "\<dots> \<le> Suc (card ?S + card ?p + card ?c)"
    using card_Un_le [of "?S \<union> ?p" ?c] card_Un_le [of ?S ?p] by simp
  also have "\<dots> \<le> nodes (Node ty pre ss pm ca r)" using S P C by simp
  finally show ?case unfolding paths_node using S P C by simp
qed

section \<open>Growth\<close>

lemma nodes_split [simp]: "nodes (split_child n c) = Suc (nodes c)"
  by (cases c) (simp add: Let_def)

lemma nodes_set [simp]:
  "nodes (set_static cs n) = Suc (sum_list (map nodes cs) + nodes_opt (n_parameter n) + nodes_opt (n_catch_all n))"
  "nodes (set_parameter p n) = Suc (sum_list (map nodes (n_static n)) + nodes_opt p + nodes_opt (n_catch_all n))"
  "nodes (set_catch_all p n) = Suc (sum_list (map nodes (n_static n)) + nodes_opt (n_parameter n) + nodes_opt p)"
  "nodes (set_route x n) = nodes n"
  by (cases n, simp)+


text \<open>Splitting a child adds a node, and then only a leaf can be added below it, since the
  remaining text differs from the rest of the prefix in its first character.\<close>

lemma common_prefix_stops:
  "common_prefix a b < length a \<Longrightarrow> common_prefix a b < length b \<Longrightarrow>
   a ! common_prefix a b \<noteq> b ! common_prefix a b"
  unfolding common_prefix_lcp
  by (induction a b rule: longest_common_prefix.induct) (auto split: if_splits)

lemma nodes_insert_split:
  assumes "common_prefix (n_prefix c) tx < length (n_prefix c)"
  shows "nodes (fst (insert_static (split_child (common_prefix (n_prefix c) tx) c)
      (drop (common_prefix (n_prefix c) tx) tx))) \<le> nodes c + 2"
proof (cases "common_prefix (n_prefix c) tx < length tx")
  case False
  then show ?thesis by (simp add: insert_static.simps)
next
  case True
  let ?k = "common_prefix (n_prefix c) tx"
  obtain ty pre ss pm ca r where c: "c = Node ty pre ss pm ca r" by (cases c)
  have "hd (drop ?k pre) \<noteq> hd (drop ?k tx)"
    using common_prefix_stops [OF assms True] assms True c by (simp add: hd_drop_conv_nth)
  with assms True c show ?thesis
    by (simp add: insert_static.simps Let_def)
qed

lemma nodes_insert_static:
  fixes parent :: "'h node" and cs :: "'h node list"
  shows "nodes (fst (insert_static parent tx)) \<le> nodes parent + 2"
    and "sum_list (map nodes (fst (insert_children cs tx))) \<le> sum_list (map nodes cs) + 2"
proof (induction parent tx and cs tx rule: insert_static_insert_children.induct)
  case (1 parent tx)
  show ?case
  proof (cases "tx = []")
    case True
    then show ?thesis by (simp add: insert_static.simps)
  next
    case False
    obtain cs i p where "insert_children (n_static parent) tx = (cs, i, p)" by (metis prod_cases3)
    with False "1.IH" [OF False] show ?thesis
      by (simp add: insert_static.simps nodes_parts [of parent])
  qed
next
  case (2 tx)
  show ?case by (simp add: insert_static.simps)
next
  case (3 child cs tx)
  let ?k = "common_prefix (n_prefix child) tx"
  show ?case
  proof (cases "tx = [] \<or> n_prefix child = [] \<or> n_type child \<noteq> NStatic \<or> hd (n_prefix child) \<noteq> hd tx")
    case True
    obtain cs' i p where "insert_children cs tx = (cs', i, p)" by (metis prod_cases3)
    with True 3(1) [OF True] show ?thesis by (auto simp: insert_static.simps)
  next
    case here: False
    show ?thesis
    proof (cases "?k < length (n_prefix child)")
      case True
      obtain c2 p where eq: "insert_static (split_child ?k child) (drop ?k tx) = (c2, p)" by fastforce
      with nodes_insert_split [OF True] have "nodes c2 \<le> nodes child + 2" by simp
      with here True eq show ?thesis by (simp add: Let_def)
    next
      case False
      obtain c2 p where eq: "insert_static child (drop ?k tx) = (c2, p)" by fastforce
      with 3(2) [OF here refl refl] False have "nodes c2 \<le> nodes child + 2" by simp
      with here False eq show ?thesis by (simp add: Let_def)
    qed
  qed
qed

lemma nodes_put_at:
  "node_at t p = Some n \<Longrightarrow> nodes (put_at t p n') + nodes n = nodes t + nodes n'"
proof (induction t p rule: node_at.induct)
  case (2 t i p)
  then have i: "i < length (n_static t)" "node_at (n_static t ! i) p = Some n" by (auto split: if_splits)
  have "nodes (n_static t ! i) \<le> sum_list (map nodes (n_static t))"
    using i(1) by (intro member_le_sum_list) auto
  then have "sum_list (map nodes ((n_static t)[i := x])) + nodes (n_static t ! i)
      = sum_list (map nodes (n_static t)) + nodes x" for x
    using i(1) by (simp add: map_update sum_list_update)
  from this [of "put_at (n_static t ! i) p n'"] 2(1) [OF i] i(1) show ?case
    by (simp add: nodes_parts [of t])
next
  case (3 t p)
  then obtain c where c: "n_parameter t = Some c" "node_at c p = Some n" by (auto split: option.splits)
  with 3(1) [OF c] show ?case by (simp add: nodes_parts [of t])
next
  case (4 t p)
  then obtain c where c: "n_catch_all t = Some c" "node_at c p = Some n" by (auto split: option.splits)
  with 4(1) [OF c] show ?case by (simp add: nodes_parts [of t])
qed simp

lemma nodes_static_at: "nodes (fst (static_at root current tx)) \<le> nodes root + 2"
proof (cases "node_at root current")
  case None
  then show ?thesis by (simp add: static_at_def)
next
  case (Some n)
  obtain n' p where "insert_static n tx = (n', p)" by fastforce
  with Some nodes_insert_static(1) [of n tx] nodes_put_at [OF Some, of n'] show ?thesis
    by (simp add: static_at_def)
qed

lemma nodes_insert_special: "nodes (fst (insert_special n ty)) \<le> nodes n + 1"
  by (auto simp: insert_special_def nodes_parts [of n] split: option.split)

lemma nodes_special_at: "nodes (fst (special_at root current ty)) \<le> nodes root + 1"
proof (cases "node_at root current")
  case None
  then show ?thesis by (simp add: special_at_def)
next
  case (Some n)
  obtain n' x where "insert_special n ty = (n', x)" by fastforce
  with Some nodes_insert_special [of n ty] nodes_put_at [OF Some, of n'] show ?thesis
    by (cases x) (simp_all add: special_at_def)
qed

text \<open>One round of the loop of \<open>insert_route\<close> adds at most two nodes for each character that it
  takes from the pattern.\<close>

lemma nodes_insert_token:
  assumes "sv_find_first_of '':*'' rest 0 = Some marker"
    and eq: "insert_token root current names rest marker = (root2, res)"
  shows "nodes root2 \<le> nodes root + 2 * (marker + 1)"
    and "res = Inr (current2, names1, rest2) \<Longrightarrow> length rest2 + marker + 1 \<le> length rest"
proof -
  obtain root1 current1 rest1 where
    lit: "insert_literal root current rest marker = (root1, current1, rest1)" by (metis prod_cases3)
  have root1: "nodes root1 \<le> nodes root + 2 * marker"
    using lit nodes_static_at [of root current "sv_substr rest 0 marker"]
    by (auto simp: insert_literal_def split: if_splits prod.splits)
  define ty where "ty = (if hd rest1 = CHR ''*'' then NCatchAll else NParameter)"
  obtain root3 x where sp: "special_at root1 current1 ty = (root3, x)" by fastforce
  from eq lit sp have "root2 = root3"
    by (cases x) (auto simp: insert_token_def ty_def Let_def)
  with root1 nodes_special_at [of root1 current1 ty] sp show "nodes root2 \<le> nodes root + 2 * (marker + 1)"
    by simp
  have r1: "rest1 = drop marker rest" using lit by (rule insert_literal_rest)
  with first_of_drop [OF assms(1)] have r1': "rest1 \<noteq> []" "0 < token_end rest1" "marker < length rest"
    by (auto intro: token_end_pos)
  assume "res = Inr (current2, names1, rest2)"
  with eq lit sp have "rest2 = drop (token_end rest1) rest1"
    by (cases x) (auto simp: insert_token_def ty_def Let_def)
  with r1 r1' show "length rest2 + marker + 1 \<le> length rest" by simp
qed

lemma nodes_insert_loop: "nodes (fst (insert_loop root current names rest)) \<le> nodes root + 2 * length rest"
proof (induction root current names rest rule: insert_loop.induct)
  case (1 root current names rest)
  show ?case
  proof (cases "rest = []")
    case True
    then show ?thesis by (simp add: insert_loop.simps)
  next
    case False
    then have pos: "1 \<le> length rest" by (simp add: Suc_leI)
    show ?thesis
    proof (cases "sv_find_first_of '':*'' rest 0")
      case None
      with False pos nodes_static_at [of root current rest] show ?thesis
        by (subst insert_loop.simps) (auto split: prod.split)
    next
      case (Some marker)
      obtain root2 res where tok: "insert_token root current names rest marker = (root2, res)" by fastforce
      note cost = nodes_insert_token [OF Some tok]
      show ?thesis
      proof (cases res)
        case (Inl e)
        with False Some tok cost(1) first_of_drop [OF Some] show ?thesis
          by (subst insert_loop.simps) simp
      next
        case (Inr y)
        obtain current2 names1 rest2 where y: "y = (current2, names1, rest2)" by (cases y)
        with Inr cost(2) have "length rest2 + marker + 1 \<le> length rest" by simp
        moreover have "nodes (fst (insert_loop root2 current2 names1 rest2)) \<le> nodes root2 + 2 * length rest2"
          using "1.IH" [OF False Some tok [symmetric] Inr] y by simp
        ultimately show ?thesis
          using False Some tok Inr y cost(1) by (subst insert_loop.simps) simp
      qed
    qed
  qed
qed

section \<open>Routers\<close>

definition tree_nodes :: "('v, 'h) router \<Rightarrow> 'v \<Rightarrow> nat" where
  "tree_nodes r v = (case roots r v of Some (Some n) \<Rightarrow> nodes n | _ \<Rightarrow> 0)"

lemma tree_nodes_store: "tree_nodes (store_root r v n) w = (if w = v then nodes n else tree_nodes r w)"
  by (simp add: tree_nodes_def store_root_def)

lemma nodes_root_for: "nodes (root_for r v) \<le> max 1 (tree_nodes r v)"
  by (auto simp: root_for_def tree_nodes_def split: option.split)

lemma tree_nodes_add:
  "tree_nodes (fst (add_route r v p h)) w \<le> (if w = v then max 1 (tree_nodes r v) + 2 * length p else tree_nodes r w)"
proof (cases "validate_pattern p")
  case (Inl e)
  then show ?thesis by (auto simp: add_route_def)
next
  case (Inr u)
  obtain root res where loop: "insert_loop (root_for r v) [] [] p = (root, res)" by fastforce
  have root: "nodes root \<le> max 1 (tree_nodes r v) + 2 * length p"
    using nodes_insert_loop [of "root_for r v" "[]" "[]" p] nodes_root_for [of r v] loop by simp
  have "\<exists>root'. fst (insert_route r v p h) = store_root r v root' \<and> nodes root' = nodes root"
  proof (cases res)
    case (Inl e)
    with loop show ?thesis by (auto simp: insert_route_def)
  next
    case (Inr y)
    obtain current names where y: "y = (current, names)" by (cases y)
    show ?thesis
    proof (cases "node_at root current")
      case None
      with loop Inr y show ?thesis by (auto simp: insert_route_def)
    next
      case (Some n)
      have "nodes (put_at root current (set_route x n)) = nodes root" for x
        using nodes_put_at [OF Some, of "set_route x n"] by simp
      with loop Inr y Some show ?thesis
        by (auto simp: insert_route_def)
    qed
  qed
  with Inr root show ?thesis by (auto simp: add_route_def tree_nodes_store)
qed

lemma tree_nodes_all:
  "tree_nodes (register_all regs) v \<le> 1 + 2 * sum_list (map (\<lambda>(w, p, h). if w = v then length p else 0) regs)"
proof (induction regs rule: rev_induct)
  case Nil
  show ?case by (simp add: register_all_def tree_nodes_def new_router_def)
next
  case (snoc a regs)
  obtain w p h where a: "a = (w, p, h)" by (cases a)
  have "register_all (regs @ [a]) = fst (add_route (register_all regs) w p h)"
    by (simp add: register_all_def a)
  with snoc tree_nodes_add [of "register_all regs" w p h v] show ?case
    by (auto simp: a split: if_splits)
qed

section \<open>Properties\<close>

text \<open>C24. A lookup is linear: however the patterns are chosen, backtracking never enters the search
  twice for a node, and the tree for a verb has at most two nodes for each character of the
  patterns registered for it, and the root; so many activations are enough for a lookup.\<close>

theorem match_cost_linear:
  "distinct (visits (register_all regs) v t)
   \<and> set (visits (register_all regs) v t) \<subseteq> tree_paths (register_all regs) v
   \<and> finite (tree_paths (register_all regs) v)
   \<and> card (tree_paths (register_all regs) v)
       \<le> 1 + 2 * sum_list (map (\<lambda>(w, p, h). if w = v then length p else 0) regs)
   \<and> length (visits (register_all regs) v t)
       \<le> 1 + 2 * sum_list (map (\<lambda>(w, p, h). if w = v then length p else 0) regs)"
proof -
  have vis: "distinct (visits r v t)" "set (visits r v t) \<subseteq> tree_paths r v" for r
    using visit_below(1) [of "strip_query t" "[]" _ 0 "[]", simplified]
    by (auto simp: visits_def tree_paths_def split: option.splits)
  have tree: "finite (tree_paths r v)" "card (tree_paths r v) \<le> tree_nodes r v" for r
    using paths_nodes by (auto simp: tree_paths_def tree_nodes_def split: option.split)
  from vis tree(1) have "length (visits (register_all regs) v t) \<le> card (tree_paths (register_all regs) v)"
    by (metis card_mono distinct_card)
  with vis tree tree_nodes_all [of regs v] show ?thesis by (meson le_trans)
qed

end
