(* ===== verification/Handler_Lifetime.thy ===== *)
theory Handler_Lifetime
  imports Router_Props
begin

text \<open>
  The lifetime of handlers.  A \<^verbatim>\<open>Route\<close> of \<^verbatim>\<open>src/HttpTypes.hpp\<close> holds a
  \<^verbatim>\<open>std::reference_wrapper<const Handler>\<close>, and \<^verbatim>\<open>Router::insert_route\<close> fills it with
  \<^verbatim>\<open>std::cref\<close> of its argument: the router does not own its handlers.  Here the
  references are addresses of an explicit store of \<^verbatim>\<open>Handler\<close> objects, which the
  caller creates and destroys; a handler itself is a value of an arbitrary type \<open>'c\<close>.  The
  router (\<open>add_route\<close>, \<open>match_route\<close>) is the program's; the store and the call through a
  reference are the caller's side, with the meaning that the language gives them.
\<close>

section \<open>The store of handlers\<close>

record ('v, 'c) process =
  p_router :: "('v, nat) router"
  p_store :: "nat \<rightharpoonup> 'c"

datatype ('v, 'c) handler_action =
    Construct nat 'c
  | Destroy nat
  | Register 'v string nat

definition new_process :: "('v, 'c) process" where
  "new_process = \<lparr>p_router = new_router, p_store = Map.empty\<rparr>"

text \<open>\<open>None\<close> is an action that no caller can take: to construct an object where one lives, to
  destroy or to bind a reference to one that does not.\<close>

fun process_exec :: "('v, 'c) process \<Rightarrow> ('v, 'c) handler_action \<Rightarrow> ('v, 'c) process option" where
  "process_exec s (Construct a c) =
     (if p_store s a = None then Some (s\<lparr>p_store := (p_store s)(a \<mapsto> c)\<rparr>) else None)"
| "process_exec s (Destroy a) =
     (if p_store s a = None then None else Some (s\<lparr>p_store := (p_store s)(a := None)\<rparr>))"
| "process_exec s (Register v p a) =
     (if p_store s a = None then None else Some (s\<lparr>p_router := fst (add_route (p_router s) v p a)\<rparr>))"

fun process_execs :: "('v, 'c) process \<Rightarrow> ('v, 'c) handler_action list \<Rightarrow> ('v, 'c) process option" where
  "process_execs s [] = Some s"
| "process_execs s (x # xs) = (case process_exec s x of None \<Rightarrow> None | Some s' \<Rightarrow> process_execs s' xs)"

text \<open>A call of \<^verbatim>\<open>add_route\<close> with a lambda: a temporary \<^verbatim>\<open>Handler\<close> at the address \<open>a\<close>, which
  lives until the end of the expression.\<close>

definition register_temporary :: "'v \<Rightarrow> string \<Rightarrow> nat \<Rightarrow> 'c \<Rightarrow> ('v, 'c) handler_action list" where
  "register_temporary v p a c = [Construct a c, Register v p a, Destroy a]"

text \<open>Looking up a route and calling \<^verbatim>\<open>handler_.get()\<close>.\<close>

datatype 'c invocation = NoRoute | Invoked 'c "string list" | Dangling | Failed exn

definition invoke :: "('v, 'c) process \<Rightarrow> 'v \<Rightarrow> string \<Rightarrow> 'c invocation" where
  "invoke s v t =
     (case match_route (p_router s) v t of
        Inl e \<Rightarrow> Failed e
      | Inr None \<Rightarrow> NoRoute
      | Inr (Some mr) \<Rightarrow>
          (case p_store s (r_handler (mr_route mr)) of
             None \<Rightarrow> Dangling
           | Some c \<Rightarrow> Invoked c (mr_parameter_values mr)))"

section \<open>Lemmas\<close>

text \<open>The router of a process holds the registrations in its history, and an object is in the
  store when its last construction is not followed by a destruction.\<close>

definition registrations :: "('v, 'c) handler_action list \<Rightarrow> ('v \<times> string \<times> nat) list" where
  "registrations xs = concat (map (\<lambda>x. case x of Register v p a \<Rightarrow> [(v, p, a)] | _ \<Rightarrow> []) xs)"

fun object :: "nat \<Rightarrow> 'c option \<Rightarrow> ('v, 'c) handler_action list \<Rightarrow> 'c option" where
  "object a x [] = x"
| "object a x (Construct b c # xs) = object a (if a = b then Some c else x) xs"
| "object a x (Destroy b # xs) = object a (if a = b then None else x) xs"
| "object a x (Register v p b # xs) = object a x xs"

lemma process_execs_parts:
  "process_execs s xs = Some s' \<Longrightarrow>
     p_router s' = foldl (\<lambda>r (v, p, a). fst (add_route r v p a)) (p_router s) (registrations xs)
     \<and> p_store s' a = object a (p_store s a) xs"
proof (induction xs arbitrary: s)
  case (Cons x xs)
  then obtain s1 where s1: "process_exec s x = Some s1" "process_execs s1 xs = Some s'"
    by (auto split: option.splits)
  from Cons.IH [OF s1(2)] s1(1) show ?case
    by (cases x) (auto simp: registrations_def split: if_splits)
qed (simp add: registrations_def)

lemma process_router:
  assumes "process_execs new_process xs = Some s"
  shows "p_router s = register_all (registrations xs)" "p_store s a = object a None xs"
  using process_execs_parts [OF assms] by (simp_all add: new_process_def register_all_def)

lemma object_append: "object a x (xs @ ys) = object a (object a x xs) ys"
  by (induction a x xs rule: object.induct) auto

lemma registrations_append: "registrations (xs @ ys) = registrations xs @ registrations ys"
  by (simp add: registrations_def)

lemma object_keep:
  "(\<And>c. Construct a c \<notin> set xs) \<Longrightarrow> object a None xs = None"
proof (induction xs)
  case (Cons x xs)
  then show ?case by (cases x) auto
qed simp

lemma accepted_later: "accepted xs v ts = Some r \<Longrightarrow> accepted (xs @ ys) v ts = Some r"
  by (induction ys rule: rev_induct) (auto simp: accepted_def)

lemma object_alive: "Destroy a \<notin> set xs \<Longrightarrow> x \<noteq> None \<Longrightarrow> object a x xs \<noteq> None"
  by (induction a x xs rule: object.induct) auto

lemma object_from: "object a x xs = Some c \<Longrightarrow> x = Some c \<or> Construct a c \<in> set xs"
  by (induction a x xs rule: object.induct) (auto split: if_splits)

lemma registrations_iff: "(v, p, a) \<in> set (registrations xs) \<longleftrightarrow> Register v p a \<in> set xs"
  by (auto simp: registrations_def split: handler_action.splits)

text \<open>A reference is bound to an object that lives.\<close>

lemma register_alive:
  assumes "process_execs s xs = Some s'" "Register v p a \<in> set xs" "Destroy a \<notin> set xs"
  shows "object a (p_store s a) xs \<noteq> None"
  using assms
proof (induction xs arbitrary: s)
  case (Cons x xs)
  then obtain s1 where s1: "process_exec s x = Some s1" "process_execs s1 xs = Some s'"
    by (auto split: option.splits)
  have head: "object a (p_store s a) (x # xs) = object a (p_store s1 a) xs"
    using s1(1) by (cases x) (auto split: if_splits)
  show ?case
  proof (cases "Register v p a \<in> set xs")
    case True
    with Cons.IH [OF s1(2)] Cons.prems(3) head show ?thesis by simp
  next
    case False
    with Cons.prems(2) s1(1) have "p_store s1 a \<noteq> None" by (auto split: if_splits)
    with Cons.prems(3) object_alive [of a xs] head show ?thesis by simp
  qed
qed simp

section \<open>Properties\<close>

text \<open>C26. Handlers that outlive their registrations are safe: when no registered object is ever
  destroyed, a lookup never calls through a dangling reference, and a match calls an object
  that the caller constructed and registered, with the captured values.\<close>

theorem live_handler_invoked:
  assumes "process_execs new_process xs = Some s"
    and "\<And>v p a. Register v p a \<in> set xs \<Longrightarrow> Destroy a \<notin> set xs"
  shows "(\<exists>mr. match_route (p_router s) v t = Inr (Some mr)
      \<and> (\<exists>p a c. Register v p a \<in> set xs \<and> mr_route mr = route_of p a \<and> Construct a c \<in> set xs
           \<and> invoke s v t = Invoked c (mr_parameter_values mr)))
    \<or> match_route (p_router s) v t = Inr None \<and> invoke s v t = NoRoute"
proof -
  obtain x where x: "match_route (p_router s) v t = Inr x"
    "optimal {(ts, r). accepted (registrations xs) v ts = Some r} (strip_query t) (map_option match_pair x)"
    unfolding process_router(1) [OF assms(1)] using match_all_optimal [of "registrations xs" v t] by blast
  show ?thesis
  proof (cases x)
    case None
    with x(1) show ?thesis by (simp add: invoke_def)
  next
    case (Some mr)
    with x(2) have "optimal {(ts, r). accepted (registrations xs) v ts = Some r} (strip_query t)
        (Some (mr_route mr, mr_parameter_values mr))" by simp
    then obtain ts where "accepted (registrations xs) v ts = Some (mr_route mr)"
      by (rule optimal_SomeE) auto
    then obtain p a where p: "(v, p, a) \<in> set (registrations xs)" "mr_route mr = route_of p a"
      by (rule accepted_from)
    then have reg: "Register v p a \<in> set xs" by (simp add: registrations_iff)
    with register_alive [OF assms(1)] assms(2) process_router(2) [OF assms(1), of a]
    obtain c where c: "p_store s a = Some c" "object a None xs = Some c"
      by (fastforce simp: new_process_def)
    with object_from [of a None xs c] have "Construct a c \<in> set xs" by simp
    moreover have "invoke s v t = Invoked c (mr_parameter_values mr)"
      using x(1) Some p(2) c(1) by (simp add: invoke_def route_of_def)
    ultimately show ?thesis using x(1) Some p(2) reg by blast
  qed
qed

text \<open>One handler for two routes, and a third route with a temporary.\<close>

definition shared :: "(string, string) handler_action list" where
  "shared = [Construct 1 ''users'', Register ''GET'' ''/users/:id'' 1, Register ''GET'' ''/users'' 1]"

definition with_temporary :: "(string, string) handler_action list" where
  "with_temporary = shared @ register_temporary ''GET'' ''/users/me'' 2 ''me'' @ [Register ''GET'' ''/users/m'' 1]"

lemma shared_runs:
  "process_execs new_process shared = Some (the (process_execs new_process shared))"
  "process_execs new_process with_temporary = Some (the (process_execs new_process with_temporary))"
proof -
  have "(case process_execs new_process shared of None \<Rightarrow> False | Some _ \<Rightarrow> True)"
    "(case process_execs new_process with_temporary of None \<Rightarrow> False | Some _ \<Rightarrow> True)" by code_simp+
  then show "process_execs new_process shared = Some (the (process_execs new_process shared))"
    "process_execs new_process with_temporary = Some (the (process_execs new_process with_temporary))"
    by (auto split: option.splits)
qed

theorem live_handler_invoked_witness:
  "\<exists>c vs. invoke (the (process_execs new_process shared)) ''GET'' ''/users/7?x'' = Invoked c vs"
proof -
  have "Destroy a \<notin> set shared" for a by (simp add: shared_def)
  from live_handler_invoked [OF shared_runs(1) this, of "''GET''" "''/users/7?x''"]
  have "(\<exists>c vs. invoke (the (process_execs new_process shared)) ''GET'' ''/users/7?x'' = Invoked c vs)
    \<or> match_route (p_router (the (process_execs new_process shared))) ''GET'' ''/users/7?x'' = Inr None" by blast
  moreover have "(case match_route (p_router (the (process_execs new_process shared))) ''GET'' ''/users/7?x'' of
      Inr None \<Rightarrow> False | _ \<Rightarrow> True)" by code_simp
  ultimately show ?thesis by auto
qed

text \<open>C25. A handler registered as a temporary dangles: after \<open>add_route\<close> with a lambda for a literal
  pattern whose shape is free, whatever is done later, a request for that path calls through
  a dangling reference, unless an object is constructed at the same address.\<close>

theorem temporary_handler_dangles:
  assumes "process_execs new_process (xs @ register_temporary v p a c @ ys) = Some s"
    and "well_formed p" "plain p" "accepted (registrations xs) v (tokens p) = None"
    and "\<And>c'. Construct a c' \<notin> set ys" "strip_query t = p"
  shows "invoke s v t = Dangling"
proof -
  have lit: "tokens p = map Lit p" using tokens_plain_append [OF assms(3), of "[]"] by simp
  have "accepted (registrations (xs @ register_temporary v p a c @ ys)) v (tokens p) = Some (route_of p a)"
    using accepted_later [of "registrations xs @ [(v, p, a)]" v "tokens p" "route_of p a" "registrations ys"] assms(2,4)
    by (simp add: registrations_append register_temporary_def accepted_def) (simp add: registrations_def)
  then have "match_route (p_router s) v t = Inr (Some \<lparr>mr_route = route_of p a, mr_parameter_values = []\<rparr>)"
    unfolding process_router(1) [OF assms(1)] using lit assms(6) by (auto intro!: match_literal_wins)
  moreover have "p_store s a = None"
    unfolding process_router(2) [OF assms(1)]
    using object_keep [OF assms(5)] by (simp add: object_append register_temporary_def)
  ultimately show ?thesis by (simp add: invoke_def route_of_def)
qed

theorem temporary_handler_dangles_witness:
  "invoke (the (process_execs new_process with_temporary)) ''GET'' ''/users/me?x'' = Dangling"
proof (rule temporary_handler_dangles)
  show "process_execs new_process (shared @ register_temporary ''GET'' ''/users/me'' 2 ''me''
      @ [Register ''GET'' ''/users/m'' 1]) = Some (the (process_execs new_process with_temporary))"
    using shared_runs(2) by (simp add: with_temporary_def)
  show "well_formed ''/users/me''" "plain ''/users/me''" "strip_query ''/users/me?x'' = ''/users/me''"
    "accepted (registrations shared) ''GET'' (tokens ''/users/me'') = None" by code_simp+
  show "Construct 2 c' \<notin> set [Register ''GET'' ''/users/m'' 1]" for c' by simp
qed

end
