(* ===== verification/Mime.thy ===== *)
theory Mime
  imports Prelude
begin

text \<open>
  MIME types: \<^verbatim>\<open>src/MimeTypes.cpp\<close> and \<^verbatim>\<open>HttpServer::mime_type\<close> of
  \<^verbatim>\<open>src/HttpServer.hpp\<close>, which both look an extension up in a
  \<^verbatim>\<open>std::unordered_map\<close>.  The map is a list of buckets; what its hash and equality must
  satisfy is the locale \<open>hash_map\<close>, interpreted for the case-insensitive pair of
  \<^verbatim>\<open>MimeTypes.cpp\<close> and for \<^verbatim>\<open>StringHash\<close> with \<^verbatim>\<open>std::equal_to\<close>.  The number of
  buckets and \<^verbatim>\<open>std::hash\<close> belong to the library's implementation and are parameters.
\<close>

section \<open>Unordered maps\<close>

type_synonym 'k hash = "'k \<Rightarrow> 64 word"

definition bucket_of :: "'k hash \<Rightarrow> nat \<Rightarrow> 'k \<Rightarrow> nat" where
  "bucket_of hash n k = unat (hash k) mod n"

definition um_emplace ::
  "'k hash \<Rightarrow> ('k \<Rightarrow> 'k \<Rightarrow> bool) \<Rightarrow> ('k \<times> 'v) list list \<Rightarrow> 'k \<times> 'v \<Rightarrow> ('k \<times> 'v) list list" where
  "um_emplace hash eq bs kv =
     (let i = bucket_of hash (length bs) (fst kv)
      in if \<exists>x\<in>set (bs ! i). eq (fst x) (fst kv) then bs else bs[i := bs ! i @ [kv]])"

text \<open>The constructor from an initializer list, with \<open>n\<close> buckets.\<close>

definition um_of_list ::
  "'k hash \<Rightarrow> ('k \<Rightarrow> 'k \<Rightarrow> bool) \<Rightarrow> nat \<Rightarrow> ('k \<times> 'v) list \<Rightarrow> ('k \<times> 'v) list list" where
  "um_of_list hash eq n kvs = foldl (um_emplace hash eq) (replicate n []) kvs"

definition um_find ::
  "'k hash \<Rightarrow> ('k \<Rightarrow> 'k \<Rightarrow> bool) \<Rightarrow> ('k \<times> 'v) list list \<Rightarrow> 'k \<Rightarrow> 'v option" where
  "um_find hash eq bs k =
     map_option snd (List.find (\<lambda>x. eq (fst x) k) (bs ! bucket_of hash (length bs) k))"

lemma find_append: "List.find P (xs @ ys) = (case List.find P xs of None \<Rightarrow> List.find P ys | Some x \<Rightarrow> Some x)"
  by (induction xs) auto

locale hash_map =
  fixes hash :: "'k hash" and eq :: "'k \<Rightarrow> 'k \<Rightarrow> bool"
  assumes eq_sym: "eq a b \<Longrightarrow> eq b a"
    and eq_trans: "eq a b \<Longrightarrow> eq b c \<Longrightarrow> eq a c"
    and eq_hash: "eq a b \<Longrightarrow> hash a = hash b"
begin

text \<open>A bucket holds, for its keys, what a linear search of the whole list finds.\<close>

lemma bucket_find:
  assumes "0 < n"
  shows "length (um_of_list hash eq n kvs) = n"
    and "List.find (\<lambda>x. eq (fst x) q) (um_of_list hash eq n kvs ! bucket_of hash n q)
      = List.find (\<lambda>x. eq (fst x) q) kvs"
proof (induction kvs arbitrary: q rule: rev_induct)
  case Nil
  from assms show "length (um_of_list hash eq n []) = n"
    and "List.find (\<lambda>x. eq (fst x) q) (um_of_list hash eq n [] ! bucket_of hash n q)
      = List.find (\<lambda>x. eq (fst x) q) []" for q
    by (simp_all add: um_of_list_def bucket_of_def)
next
  case (snoc kv kvs)
  let ?bs = "um_of_list hash eq n kvs"
  have step: "um_of_list hash eq n (kvs @ [kv]) = um_emplace hash eq ?bs kv"
    by (simp add: um_of_list_def)
  show len: "length (um_of_list hash eq n (kvs @ [kv])) = n"
    using snoc.IH(1) by (simp add: step um_emplace_def Let_def)
  let ?i = "bucket_of hash n (fst kv)"
  have i: "?i < n" using assms by (simp add: bucket_of_def)
  have present: "(\<exists>x\<in>set (?bs ! ?i). eq (fst x) (fst kv)) \<longleftrightarrow> (\<exists>x\<in>set kvs. eq (fst x) (fst kv))"
    using snoc.IH(2) [of "fst kv"] by (metis (mono_tags, lifting) find_None_iff)
  show "List.find (\<lambda>x. eq (fst x) q) (um_of_list hash eq n (kvs @ [kv]) ! bucket_of hash n q)
      = List.find (\<lambda>x. eq (fst x) q) (kvs @ [kv])" for q
  proof (cases "eq (fst kv) q")
    case True
    then have b: "bucket_of hash n q = ?i" using eq_hash by (simp add: bucket_of_def)
    show ?thesis
    proof (cases "\<exists>x\<in>set kvs. eq (fst x) (fst kv)")
      case dup: True
      then have "List.find (\<lambda>x. eq (fst x) q) kvs \<noteq> None"
        using True eq_trans by (metis (mono_tags, lifting) find_None_iff)
      with dup present snoc.IH(2) [of q] snoc.IH(1) show ?thesis
        by (auto simp: step um_emplace_def Let_def find_append)
    next
      case False
      with present snoc.IH(2) [of q] snoc.IH(1) b i show ?thesis
        by (simp add: step um_emplace_def Let_def find_append)
    qed
  next
    case False
    with snoc.IH(2) [of q] snoc.IH(1) i show ?thesis
      by (cases "bucket_of hash n q = ?i")
        (auto simp: step um_emplace_def Let_def find_append split: option.splits)
  qed
qed

lemma find_linear:
  "0 < n \<Longrightarrow> um_find hash eq (um_of_list hash eq n kvs) q = map_option snd (List.find (\<lambda>x. eq (fst x) q) kvs)"
  by (simp add: um_find_def bucket_find)

end

section \<open>Case-insensitive extensions\<close>

text \<open>\<^verbatim>\<open>static_cast<unsigned char>\<close> of a byte of the text.\<close>

definition byte :: "char \<Rightarrow> 8 word" where
  "byte c = of_nat (of_char c)"

definition ascii_lower :: "8 word \<Rightarrow> 8 word" where
  "ascii_lower ch =
     (if byte (CHR ''A'') \<le> ch \<and> ch \<le> byte (CHR ''Z'')
      then ch + (byte (CHR ''a'') - byte (CHR ''A'')) else ch)"

fun ExtensionHash_loop :: "64 word \<Rightarrow> string \<Rightarrow> 64 word" where
  "ExtensionHash_loop hash [] = hash"
| "ExtensionHash_loop hash (ch # text) =
     ExtensionHash_loop (hash * 131 + ucast (ascii_lower (byte ch))) text"

definition ExtensionHash :: "string \<Rightarrow> 64 word" where
  "ExtensionHash text = ExtensionHash_loop 0 text"

function ExtensionEqual_loop :: "string \<Rightarrow> string \<Rightarrow> nat \<Rightarrow> bool" where
  "ExtensionEqual_loop lhs rhs i =
     (if i < length lhs
      then if ascii_lower (byte (lhs ! i)) \<noteq> ascii_lower (byte (rhs ! i)) then False
           else ExtensionEqual_loop lhs rhs (i + 1)
      else True)"
  by pat_completeness auto
termination
  by (relation "measure (\<lambda>(lhs, rhs, i). length lhs - i)") auto

declare ExtensionEqual_loop.simps [simp del]

definition ExtensionEqual :: "string \<Rightarrow> string \<Rightarrow> bool" where
  "ExtensionEqual lhs rhs =
     (if length lhs \<noteq> length rhs then False else ExtensionEqual_loop lhs rhs 0)"

abbreviation folded :: "string \<Rightarrow> 8 word list" where
  "folded s \<equiv> map (\<lambda>c. ascii_lower (byte c)) s"

lemma ExtensionEqual_loop_folded:
  "length lhs = length rhs \<Longrightarrow>
   ExtensionEqual_loop lhs rhs i \<longleftrightarrow> drop i (folded lhs) = drop i (folded rhs)"
proof (induction lhs rhs i rule: ExtensionEqual_loop.induct)
  case (1 lhs rhs i)
  show ?case
  proof (cases "i < length lhs")
    case True
    then have "drop i (folded lhs) = ascii_lower (byte (lhs ! i)) # drop (i + 1) (folded lhs)"
      "drop i (folded rhs) = ascii_lower (byte (rhs ! i)) # drop (i + 1) (folded rhs)"
      using "1.prems" Cons_nth_drop_Suc [of i "folded lhs"] Cons_nth_drop_Suc [of i "folded rhs"] by simp_all
    with True 1 show ?thesis by (subst ExtensionEqual_loop.simps) simp
  next
    case False
    with "1.prems" show ?thesis by (subst ExtensionEqual_loop.simps) simp
  qed
qed

lemma ExtensionEqual_folded: "ExtensionEqual lhs rhs \<longleftrightarrow> folded lhs = folded rhs"
  using ExtensionEqual_loop_folded [of lhs rhs 0] map_eq_imp_length_eq [of _ lhs _ rhs]
  by (auto simp: ExtensionEqual_def)

lemma ExtensionHash_loop_folded:
  "ExtensionHash_loop h s = foldl (\<lambda>h b. h * 131 + ucast b) h (folded s)"
  by (induction s arbitrary: h) auto

interpretation extension_map: hash_map ExtensionHash ExtensionEqual
  by unfold_locales (simp_all add: ExtensionEqual_folded ExtensionHash_def ExtensionHash_loop_folded)

text \<open>\<^verbatim>\<open>StringHash\<close> calls \<^verbatim>\<open>std::hash\<close>, any function of the text.\<close>

definition StringHash :: "string hash \<Rightarrow> string hash" where
  "StringHash std_hash txt = std_hash txt"

interpretation string_map: hash_map "StringHash std_hash" "(=)" for std_hash
  by unfold_locales auto

section \<open>The lookups\<close>

definition DEFAULT_MIME_TYPE :: string where
  "DEFAULT_MIME_TYPE = ''application/octet-stream''"

definition MIME_TYPES :: "(string \<times> string) list" where
  "MIME_TYPES =
     [(''.htm'', ''text/html''), (''.html'', ''text/html''), (''.php'', ''text/html''),
      (''.css'', ''text/css''), (''.txt'', ''text/plain''), (''.js'', ''application/javascript''),
      (''.json'', ''application/json''), (''.png'', ''image/png''), (''.jpe'', ''image/jpeg''),
      (''.jpeg'', ''image/jpeg''), (''.jpg'', ''image/jpeg''), (''.gif'', ''image/gif''),
      (''.bmp'', ''image/bmp''), (''.ico'', ''image/vnd.microsoft.icon''),
      (''.svg'', ''image/svg+xml''), (''.svgz'', ''image/svg+xml'')]"

definition find_extension :: "nat \<Rightarrow> string \<Rightarrow> string option" where
  "find_extension n ext =
     um_find ExtensionHash ExtensionEqual (um_of_list ExtensionHash ExtensionEqual n MIME_TYPES) ext"

fun from_path_loop :: "nat \<Rightarrow> string \<Rightarrow> nat \<Rightarrow> string" where
  "from_path_loop n path 0 = DEFAULT_MIME_TYPE"
| "from_path_loop n path (Suc i) =
     (let ch = path ! i
      in if ch = CHR ''/'' then DEFAULT_MIME_TYPE
         else if ch = CHR ''.''
         then (case find_extension n (drop i path) of
                 Some type \<Rightarrow> type
               | None \<Rightarrow> from_path_loop n path i)
         else from_path_loop n path i)"

definition from_path :: "nat \<Rightarrow> string \<Rightarrow> string" where
  "from_path n path = from_path_loop n path (length path)"

text \<open>The table of the server is spelled out a second time, as \<^verbatim>\<open>mime_types\<close>.\<close>

definition mime_types :: "(string \<times> string) list" where
  "mime_types =
     [(''.htm'', ''text/html''), (''.html'', ''text/html''), (''.php'', ''text/html''),
      (''.css'', ''text/css''), (''.txt'', ''text/plain''), (''.js'', ''application/javascript''),
      (''.json'', ''application/json''), (''.png'', ''image/png''), (''.jpe'', ''image/jpeg''),
      (''.jpeg'', ''image/jpeg''), (''.jpg'', ''image/jpeg''), (''.gif'', ''image/gif''),
      (''.bmp'', ''image/bmp''), (''.ico'', ''image/vnd.microsoft.icon''),
      (''.svg'', ''image/svg+xml''), (''.svgz'', ''image/svg+xml'')]"

definition mime_type :: "string hash \<Rightarrow> nat \<Rightarrow> string \<Rightarrow> string" where
  "mime_type std_hash n path =
     (case sv_rfind (CHR ''.'') path of
        None \<Rightarrow> ''application/octet-stream''
      | Some pos \<Rightarrow>
          (let ext = drop pos path
           in case um_find (StringHash std_hash) (=) (um_of_list (StringHash std_hash) (=) n mime_types) ext of
                Some m \<Rightarrow> m
              | None \<Rightarrow> ''application/octet-stream''))"

section \<open>What the lookups compute\<close>

lemma find_extension_linear:
  "0 < n \<Longrightarrow> find_extension n ext = map_option snd (List.find (\<lambda>x. folded (fst x) = folded ext) MIME_TYPES)"
  unfolding find_extension_def by (simp add: extension_map.find_linear ExtensionEqual_folded)

lemma mime_type_linear:
  assumes "0 < n"
  shows "mime_type std_hash n path =
    (case sv_rfind (CHR ''.'') path of
       None \<Rightarrow> DEFAULT_MIME_TYPE
     | Some pos \<Rightarrow> case_option DEFAULT_MIME_TYPE id (map_of MIME_TYPES (drop pos path)))"
proof -
  have "map_option snd (List.find (\<lambda>x. fst x = k) kvs) = map_of kvs k" for k :: string and kvs :: "(string \<times> string) list"
    by (induction kvs) auto
  moreover have "mime_types = MIME_TYPES" by (simp add: mime_types_def MIME_TYPES_def)
  ultimately show ?thesis
    by (auto simp: mime_type_def string_map.find_linear [OF assms] DEFAULT_MIME_TYPE_def split: option.splits)
qed

lemma unat_byte: "unat (byte c) = of_char c"
proof -
  have "of_char c = (of_char c :: nat) mod 256" by (metis of_char_of char_of_char)
  then have "(of_char c :: nat) < 256" by (metis mod_less_divisor zero_less_numeral)
  then show ?thesis by (simp add: byte_def unat_of_nat take_bit_eq_mod)
qed

lemma byte_inject [simp]: "byte a = byte b \<longleftrightarrow> a = b"
  by (metis unat_byte of_char_eq_iff)

definition lower_char :: "char \<Rightarrow> char" where
  "lower_char c = char_of (unat (ascii_lower (byte c)))"

lemma byte_lower_char: "byte (lower_char c) = ascii_lower (byte c)"
proof -
  have "unat (ascii_lower (byte c)) < 256" using unsigned_less [of "ascii_lower (byte c)"] by simp
  then show ?thesis by (simp add: byte_def lower_char_def)
qed

lemma ascii_lower_idem: "ascii_lower (ascii_lower w) = ascii_lower w"
  by (auto simp: ascii_lower_def byte_def word_le_nat_alt unat_word_ariths)

lemma ascii_lower_other:
  "unat x < 65 \<Longrightarrow> ascii_lower w = x \<longleftrightarrow> w = x"
  by (auto simp: ascii_lower_def byte_def word_le_nat_alt word_unat_eq_iff unat_word_ariths)

lemma ascii_lower_punct:
  "ascii_lower (byte c) = byte (CHR ''.'') \<longleftrightarrow> c = CHR ''.''"
  "ascii_lower (byte c) = byte (CHR ''/'') \<longleftrightarrow> c = CHR ''/''"
  by (subst ascii_lower_other; simp add: unat_byte)+

lemma lower_char_punct:
  "lower_char c = CHR ''.'' \<longleftrightarrow> c = CHR ''.''" "lower_char c = CHR ''/'' \<longleftrightarrow> c = CHR ''/''"
  using ascii_lower_punct [of c] byte_lower_char [of c] by (metis byte_inject)+

lemma folded_lower: "folded (map lower_char s) = folded s"
  by (simp add: byte_lower_char ascii_lower_idem)

lemma lower_idem: "map lower_char (map lower_char s) = map lower_char s"
  by (simp add: lower_char_def [of "lower_char _"] byte_lower_char ascii_lower_idem comp_def)
    (simp add: lower_char_def)

lemma sv_rfind_lower: "sv_rfind (CHR ''.'') (map lower_char s) = sv_rfind (CHR ''.'') s"
  by (induction s) (simp_all add: lower_char_punct split: option.splits)

lemma folded_eq: "folded k = folded e \<longleftrightarrow> map lower_char k = map lower_char e"
proof
  assume "folded k = folded e"
  then have "map byte (map lower_char k) = map byte (map lower_char e)"
    by (simp add: byte_lower_char comp_def)
  then show "map lower_char k = map lower_char e"
    by (metis byte_inject injI map_injective)
next
  assume "map lower_char k = map lower_char e"
  then show "folded k = folded e" by (metis folded_lower)
qed

text \<open>The keys of the table are lower case, start with a dot and have no other dot and no slash.\<close>

definition key_ok :: "string \<Rightarrow> bool" where
  "key_ok k \<longleftrightarrow> map lower_char k = k \<and> k \<noteq> [] \<and> CHR ''.'' \<notin> set (tl k) \<and> CHR ''/'' \<notin> set k"

lemma lower_char_id: "\<not> ((65 :: nat) \<le> of_char c \<and> of_char c \<le> (90 :: nat)) \<Longrightarrow> lower_char c = c"
  by (auto simp: lower_char_def ascii_lower_def word_le_nat_alt unat_byte)

lemma keys_ok: "\<forall>x\<in>set MIME_TYPES. key_ok (fst x)"
  by (simp add: MIME_TYPES_def key_ok_def lower_char_id)

lemma find_extension_map_of:
  assumes "0 < n"
  shows "find_extension n ext = map_of MIME_TYPES (map lower_char ext)"
proof -
  have "map_option snd (List.find (\<lambda>x. folded (fst x) = folded ext) kvs) = map_of kvs (map lower_char ext)"
    if "\<forall>x\<in>set kvs. key_ok (fst x)" for kvs :: "(string \<times> string) list"
    using that by (induction kvs) (auto simp: folded_eq key_ok_def)
  with find_extension_linear [OF assms] keys_ok show ?thesis by simp
qed

lemma find_extension_odd:
  assumes "0 < n" "CHR ''.'' \<in> set (tl ext) \<or> CHR ''/'' \<in> set ext"
  shows "find_extension n ext = None"
proof (rule ccontr)
  assume "find_extension n ext \<noteq> None"
  then obtain v where "(map lower_char ext, v) \<in> set MIME_TYPES"
    using find_extension_map_of [OF assms(1)] by (auto dest: map_of_SomeD)
  with keys_ok have "key_ok (map lower_char ext)" by force
  then have "CHR ''.'' \<notin> set (map lower_char (tl ext))" "CHR ''/'' \<notin> set (map lower_char ext)"
    by (simp_all add: key_ok_def map_tl)
  with assms(2) show False using lower_char_punct by (metis image_eqI set_map)
qed

text \<open>Past a dot whose extension is unknown, the loop only finds the default type.\<close>

lemma from_path_loop_default:
  assumes "0 < n"
  shows "i \<le> length path \<Longrightarrow> CHR ''.'' \<in> set (drop i path) \<Longrightarrow> from_path_loop n path i = DEFAULT_MIME_TYPE"
proof (induction i)
  case (Suc i)
  then have "drop i path = path ! i # drop (Suc i) path" by (simp add: Cons_nth_drop_Suc)
  with Suc find_extension_odd [OF assms, of "drop i path"] show ?case by (auto simp: Let_def)
qed simp

lemma from_path_loop_eq:
  assumes "0 < n"
  shows "i \<le> length path \<Longrightarrow> CHR ''.'' \<notin> set (drop i path) \<Longrightarrow> from_path_loop n path i =
    (case sv_rfind (CHR ''.'') path of
       None \<Rightarrow> DEFAULT_MIME_TYPE
     | Some pos \<Rightarrow> case_option DEFAULT_MIME_TYPE id (find_extension n (drop pos path)))"
proof (induction i)
  case 0
  then have "sv_rfind (CHR ''.'') path = None" by (simp add: sv_rfind_None)
  then show ?case by simp
next
  case (Suc i)
  then have d: "drop i path = path ! i # drop (Suc i) path" "i < length path"
    by (simp_all add: Cons_nth_drop_Suc)
  consider (slash) "path ! i = CHR ''/''" | (dot) "path ! i = CHR ''.''"
    | (other) "path ! i \<noteq> CHR ''/''" "path ! i \<noteq> CHR ''.''" by blast
  then show ?case
  proof cases
    case slash
    show ?thesis
    proof (cases "sv_rfind (CHR ''.'') path")
      case (Some pos)
      have "pos \<le> i"
      proof (rule ccontr)
        assume "\<not> pos \<le> i"
        with sv_rfind_Some [OF Some] Suc.prems(2) nth_mem_drop [of "Suc i" pos path] show False by simp
      qed
      then have "path ! i \<in> set (drop pos path)" using d(2) by (rule nth_mem_drop)
      with slash find_extension_odd [OF assms, of "drop pos path"] have "find_extension n (drop pos path) = None"
        by simp
      with slash Some show ?thesis by simp
    qed (simp add: slash)
  next
    case dot
    have "sv_rfind (CHR ''.'') path = Some i"
      using d(2) dot Suc.prems(2) by (rule sv_rfind_eqI)
    moreover have "from_path_loop n path i = DEFAULT_MIME_TYPE"
      using from_path_loop_default [OF assms, of i path] d dot by simp
    ultimately show ?thesis using dot by (simp split: option.splits)
  next
    case other
    with Suc d show ?thesis by simp
  qed
qed

section \<open>Properties\<close>

text \<open>C33. \<open>MimeTypes::from_path\<close> is the table entry of the lower-cased text from the last dot on,
  whatever the number of buckets; although its loop goes on to earlier dots, and stops at a
  slash, neither changes the result.\<close>

theorem from_path_reference:
  assumes "0 < n"
  shows "from_path n path =
    (case sv_rfind (CHR ''.'') path of
       None \<Rightarrow> DEFAULT_MIME_TYPE
     | Some pos \<Rightarrow> case_option DEFAULT_MIME_TYPE id (map_of MIME_TYPES (map lower_char (drop pos path))))"
  using from_path_loop_eq [OF assms, of "length path" path]
  by (simp add: from_path_def find_extension_map_of [OF assms] split: option.splits)

theorem from_path_reference_witness:
  "from_path 17 ''/images/logo.PnG'' = ''image/png'' \<and> from_path 17 ''/logo.png/image'' = DEFAULT_MIME_TYPE"
proof -
  have "sv_rfind (CHR ''.'') ''/images/logo.PnG'' = Some 12" "sv_rfind (CHR ''.'') ''/logo.png/image'' = Some 5"
    by code_simp+
  moreover have "map_of MIME_TYPES (map lower_char (drop 12 ''/images/logo.PnG'')) = Some ''image/png''"
    "map_of MIME_TYPES (map lower_char (drop 5 ''/logo.png/image'')) = None"
    by code_simp+
  ultimately show ?thesis
    using from_path_reference [of 17 "''/images/logo.PnG''"] from_path_reference [of 17 "''/logo.png/image''"]
    by simp
qed

text \<open>C37. The server's own case-sensitive \<open>mime_type\<close>, with any \<^verbatim>\<open>std::hash\<close>, is
  \<open>MimeTypes::from_path\<close> on lower-case paths, and whenever it knows a type the two agree.\<close>

theorem mime_type_from_path:
  assumes "0 < n" "0 < m"
  shows "from_path n path = mime_type std_hash m (map lower_char path)
    \<and> (mime_type std_hash m path \<noteq> DEFAULT_MIME_TYPE \<longrightarrow> from_path n path = mime_type std_hash m path)"
proof -
  note ref = from_path_loop_eq [OF assms(1), of "length path" path, folded from_path_def, simplified]
  note find = find_extension_map_of [OF assms(1)] and type = mime_type_linear [OF assms(2)]
  have "from_path n path = mime_type std_hash m (map lower_char path)"
    by (simp add: ref find type sv_rfind_lower drop_map lower_idem split: option.splits)
  moreover have "from_path n path = mime_type std_hash m path"
    if known: "mime_type std_hash m path \<noteq> DEFAULT_MIME_TYPE"
  proof -
    obtain pos v where pos: "sv_rfind (CHR ''.'') path = Some pos" "map_of MIME_TYPES (drop pos path) = Some v"
      using known by (auto simp: type split: option.splits)
    from map_of_SomeD [OF pos(2)] keys_ok have "map lower_char (drop pos path) = drop pos path"
      by (force simp: key_ok_def)
    with pos show ?thesis by (simp add: ref find type)
  qed
  ultimately show ?thesis by blast
qed

theorem mime_type_from_path_witness:
  "from_path 17 ''/index.html'' = ''text/html'' \<and> mime_type (\<lambda>s. of_nat (length s)) 13 ''/index.html'' = ''text/html''"
proof -
  have "sv_rfind (CHR ''.'') ''/index.html'' = Some 6"
    "map_of MIME_TYPES (drop 6 ''/index.html'') = Some ''text/html''" by code_simp+
  then have "mime_type (\<lambda>s. of_nat (length s)) 13 ''/index.html'' = ''text/html''"
    by (simp add: mime_type_linear)
  moreover have "''text/html'' \<noteq> DEFAULT_MIME_TYPE" by (simp add: DEFAULT_MIME_TYPE_def)
  ultimately show ?thesis
    using mime_type_from_path [of 17 13 "''/index.html''" "\<lambda>s. of_nat (length s)"]
    by (metis zero_less_numeral)
qed

text \<open>The hash and the equality of the extension table fit together: equality is equality up
  to ASCII case, and equal extensions have the same 64-bit hash, wrap-around included.\<close>

lemma extension_hash_equal:
  "(ExtensionEqual lhs rhs \<longleftrightarrow> map lower_char lhs = map lower_char rhs)
   \<and> (ExtensionEqual lhs rhs \<longrightarrow> ExtensionHash lhs = ExtensionHash rhs)"
  using extension_map.eq_hash [of lhs rhs] by (simp add: ExtensionEqual_folded folded_eq)

end
