(* ===== verification/Config.thy ===== *)
theory Config
  imports Prelude
begin

text \<open>
  The configuration: the structures and \<^verbatim>\<open>ConfigLoader\<close> of \<^verbatim>\<open>src/ConfigLoader.hpp\<close> and
  \<^verbatim>\<open>src/ConfigLoader.cpp\<close>, the diagnostics, \<^verbatim>\<open>src/ConfigException.cpp\<close> and
  \<^verbatim>\<open>src/ConfigValidator.cpp\<close>.  Integers have the width of the code: \<^verbatim>\<open>int\<close> and
  \<^verbatim>\<open>unsigned int\<close> are 32-bit words, \<^verbatim>\<open>size_t\<close> is a 64-bit word; signed comparisons
  read a word with \<open>sint\<close>.

  The TOML library is not part of the repository: the record \<open>toml_api\<close> names the calls the
  loader makes.  \<^verbatim>\<open>make_address\<close> (Boost.Asio) and the state of the file system are
  parameters too.  Log messages do not influence any result and are left out.
\<close>

section \<open>Structures\<close>

datatype route_type = Static | Proxy

record route_config =
  rc_path :: string
  rc_type :: route_type
  rc_root :: string
  rc_index :: string
  rc_upstream :: string

record logging_config =
  console_output :: bool
  file_output :: bool
  log_file :: string
  max_file_size :: "64 word"
  max_files :: "32 word"

record server_config =
  sc_name :: string
  sc_host :: string
  sc_port :: "32 word"
  timeout_seconds :: "32 word"
  max_connections :: "32 word"
  sc_routes :: "route_config list"
  sc_logging :: logging_config

text \<open>The literal operator \<^verbatim>\<open>_MB\<close>.\<close>

definition MB :: "64 word \<Rightarrow> 64 word" where
  "MB mb = mb * 1024 * 1024"

definition default_logging :: logging_config where
  "default_logging =
     \<lparr>console_output = True, file_output = True, log_file = ''logs/serv.log'',
      max_file_size = MB 10, max_files = 3\<rparr>"

definition default_config :: server_config where
  "default_config =
     \<lparr>sc_name = ''VeloxServ'', sc_host = ''127.0.0.1'', sc_port = 8080, timeout_seconds = 30,
      max_connections = 10000, sc_routes = [], sc_logging = default_logging\<rparr>"

section \<open>Diagnostics and exceptions\<close>

record diagnostic =
  d_field :: string
  d_message :: string

fun format_message_loop :: "string \<Rightarrow> diagnostic list \<Rightarrow> string" where
  "format_message_loop message [] = message"
| "format_message_loop message (d # ds) =
     format_message_loop
       (message @ ''  - Field: '' @ d_field d @ '', Message: '' @ d_message d @ [CHR 0x0A]) ds"

definition format_message :: "diagnostic list \<Rightarrow> string" where
  "format_message ds =
     format_message_loop (''Configuration validation failed with the following errors:'' @ [CHR 0x0A]) ds"

text \<open>The exceptions that reach or leave \<^verbatim>\<open>load_file\<close>, and \<^verbatim>\<open>what()\<close>.\<close>

datatype cpp_exn =
    ParseError (description: string) (line: nat)
  | ConfigException (diagnostics: "diagnostic list")
  | FilesystemError string
  | RuntimeError string

fun what :: "cpp_exn \<Rightarrow> string" where
  "what (ParseError d l) = d"
| "what (ConfigException ds) = format_message ds"
| "what (FilesystemError m) = m"
| "what (RuntimeError m) = m"

text \<open>
  A computation ends with a value, an exception, or the dereference of a null pointer, which
  is undefined behaviour and not caught by any handler.
\<close>

datatype failure = NullPointer | Thrown cpp_exn

section \<open>Validation\<close>

definition add_error :: "diagnostic list \<Rightarrow> string \<Rightarrow> string \<Rightarrow> diagnostic list" where
  "add_error errors field message = errors @ [\<lparr>d_field = field, d_message = message\<rparr>]"

text \<open>\<open>address_ok\<close>: \<^verbatim>\<open>make_address(host, error)\<close> leaves no error.\<close>

definition is_valid_ip_address :: "(string \<Rightarrow> bool) \<Rightarrow> string \<Rightarrow> bool" where
  "is_valid_ip_address address_ok host = (if host = [] then False else address_ok host)"

definition validate_server :: "(string \<Rightarrow> bool) \<Rightarrow> server_config \<Rightarrow> diagnostic list" where
  "validate_server address_ok config =
     (let errors = [];
          errors = (if sc_host config = []
                    then add_error errors ''server.host'' ''must not be empty'' else errors);
          errors = (if \<not> is_valid_ip_address address_ok (sc_host config)
                    then add_error errors ''server.host'' ''must be a valid IP address'' else errors);
          errors = (if sc_port config < 1 \<or> sc_port config > 65535
                    then add_error errors ''server.port'' ''must be between 1 and 65535'' else errors);
          errors = (if sint (timeout_seconds config) \<le> 0
                    then add_error errors ''server.timeout'' ''must be greater than 0'' else errors);
          errors = (if sint (max_connections config) \<le> 0
                    then add_error errors ''server.max_connections'' ''must be greater than 0'' else errors)
      in errors)"

text \<open>
  One round of the loop over the routes.  \<open>is_directory\<close> is
  \<^verbatim>\<open>std::filesystem::is_directory\<close>, which throws when the status of the path cannot be
  determined; \<open>Inl\<close> is the message of the exception.
\<close>

definition validate_path :: "string \<Rightarrow> route_config \<Rightarrow> diagnostic list \<Rightarrow> diagnostic list" where
  "validate_path name r errors =
     (if rc_path r = [] then add_error errors (name @ ''.path'') ''must not be empty''
      else if \<not> sv_starts_with (rc_path r) (CHR ''/'')
      then add_error errors (name @ ''.path'') (''must start with '' @ [CHR 0x27, CHR ''/'', CHR 0x27])
      else errors)"

definition validate_route ::
  "(string \<Rightarrow> bool) \<Rightarrow> (string \<Rightarrow> string + bool) \<Rightarrow> nat \<Rightarrow> route_config \<Rightarrow> diagnostic list \<Rightarrow>
   string + diagnostic list" where
  "validate_route address_ok is_directory index r errors =
     (let name = ''routes['' @ to_string index @ '']'';
          errors = validate_path name r errors
      in case rc_type r of
           Static \<Rightarrow>
             if rc_root r = []
             then Inr (add_error errors (name @ ''.root'') ''must not be empty for static routes'')
             else (case is_directory (rc_root r) of
                     Inl m \<Rightarrow> Inl m
                   | Inr False \<Rightarrow> Inr (add_error errors (name @ ''.root'') ''must refer to an existing directory'')
                   | Inr True \<Rightarrow> Inr errors)
         | Proxy \<Rightarrow>
             (let errors = add_error errors (name @ ''.type'')
                    (''route type '' @ [CHR 0x22] @ ''proxy'' @ [CHR 0x22] @ '' is not implemented'');
                  errors = (if rc_upstream r = []
                            then add_error errors (name @ ''.upstream'') ''must not be empty for proxy routes''
                            else errors);
                  errors = (if \<not> is_valid_ip_address address_ok (rc_upstream r)
                            then add_error errors (name @ ''.upstream'') ''must be a valid IP address''
                            else errors)
              in Inr errors))"

fun validate_routes ::
  "(string \<Rightarrow> bool) \<Rightarrow> (string \<Rightarrow> string + bool) \<Rightarrow> nat \<Rightarrow> route_config list \<Rightarrow> diagnostic list \<Rightarrow>
   string + diagnostic list" where
  "validate_routes address_ok is_directory index [] errors = Inr errors"
| "validate_routes address_ok is_directory index (r # rs) errors =
     (case validate_route address_ok is_directory index r errors of
        Inl m \<Rightarrow> Inl m
      | Inr errors' \<Rightarrow> validate_routes address_ok is_directory (index + 1) rs errors')"

definition validate ::
  "(string \<Rightarrow> bool) \<Rightarrow> (string \<Rightarrow> string + bool) \<Rightarrow> server_config \<Rightarrow> string + diagnostic list" where
  "validate address_ok is_directory config =
     validate_routes address_ok is_directory 0 (sc_routes config) (validate_server address_ok config)"

section \<open>Route types\<close>

definition route_type_from_string :: "string \<Rightarrow> route_type option" where
  "route_type_from_string value =
     (if value = ''static'' then Some Static
      else if value = ''proxy'' then Some Proxy
      else None)"

fun route_type_to_string :: "route_type \<Rightarrow> string" where
  "route_type_to_string Static = ''static''"
| "route_type_to_string Proxy = ''proxy''"

section \<open>Loading\<close>

text \<open>
  The calls into toml++: \<^verbatim>\<open>parse_file\<close> (or its parse error), \<^verbatim>\<open>table::get\<close> (a null
  pointer when the key is missing), whether a node is a table, its elements when it is an
  array, its string when it is one, and the conversions \<^verbatim>\<open>value<T>\<close> behind
  \<^verbatim>\<open>value_or\<close> for strings, \<^verbatim>\<open>int\<close> and \<^verbatim>\<open>bool\<close>.
\<close>

record 'n toml_api =
  parse_file :: "string \<Rightarrow> (string \<times> nat) + 'n"
  get :: "'n \<Rightarrow> string \<Rightarrow> 'n option"
  is_table :: "'n \<Rightarrow> bool"
  as_array :: "'n \<Rightarrow> 'n list option"
  as_string :: "'n \<Rightarrow> string option"
  value_string :: "'n \<Rightarrow> string option"
  value_int :: "'n \<Rightarrow> 32 word option"
  value_bool :: "'n \<Rightarrow> bool option"

definition value_or :: "('n \<Rightarrow> 'a option) \<Rightarrow> 'n \<Rightarrow> 'a \<Rightarrow> 'a" where
  "value_or value n d = (case value n of None \<Rightarrow> d | Some x \<Rightarrow> x)"

text \<open>\<^verbatim>\<open>tbl->get(key)->value_or(d)\<close>, which dereferences the result of \<^verbatim>\<open>get\<close> unchecked,
  and \<^verbatim>\<open>tbl[key].value_or(d)\<close> on a node view, which does not.\<close>

definition get_value_or ::
  "'n toml_api \<Rightarrow> ('n \<Rightarrow> 'a option) \<Rightarrow> 'n \<Rightarrow> string \<Rightarrow> 'a \<Rightarrow> ('a \<Rightarrow> failure + 'b) \<Rightarrow> failure + 'b" where
  "get_value_or api value tbl key d rest =
     (case get api tbl key of None \<Rightarrow> Inl NullPointer | Some n \<Rightarrow> rest (value_or value n d))"

definition view_value_or :: "'n toml_api \<Rightarrow> ('n \<Rightarrow> 'a option) \<Rightarrow> 'n \<Rightarrow> string \<Rightarrow> 'a \<Rightarrow> 'a" where
  "view_value_or api value tbl key d =
     (case get api tbl key of None \<Rightarrow> d | Some n \<Rightarrow> value_or value n d)"

text \<open>\<^verbatim>\<open>tbl[key].as_table()\<close>.\<close>

definition view_table :: "'n toml_api \<Rightarrow> 'n \<Rightarrow> string \<Rightarrow> 'n option" where
  "view_table api tbl key =
     (case get api tbl key of None \<Rightarrow> None | Some n \<Rightarrow> if is_table api n then Some n else None)"

definition view_array :: "'n toml_api \<Rightarrow> 'n \<Rightarrow> string \<Rightarrow> 'n list option" where
  "view_array api tbl key = (case get api tbl key of None \<Rightarrow> None | Some n \<Rightarrow> as_array api n)"

definition load_server :: "'n toml_api \<Rightarrow> 'n \<Rightarrow> server_config \<Rightarrow> failure + server_config" where
  "load_server api tbl config =
     (case view_table api tbl ''server'' of
        None \<Rightarrow> Inr config
      | Some server \<Rightarrow>
          get_value_or api (value_string api) server ''name'' ''VeloxServ'' (\<lambda>name.
          get_value_or api (value_string api) server ''host'' ''127.0.0.1'' (\<lambda>host.
          get_value_or api (value_int api) server ''port'' 8080 (\<lambda>port.
          get_value_or api (value_int api) server ''timeout_seconds'' 30 (\<lambda>timeout.
          get_value_or api (value_int api) server ''max_connections'' 10000 (\<lambda>connections.
          Inr (config\<lparr>sc_name := name, sc_host := host, sc_port := port,
                 timeout_seconds := timeout, max_connections := connections\<rparr>)))))))"

text \<open>\<^verbatim>\<open>static_cast<size_t>\<close> of an \<^verbatim>\<open>int\<close> is a sign extension.\<close>

definition load_logging :: "'n toml_api \<Rightarrow> 'n \<Rightarrow> server_config \<Rightarrow> failure + server_config" where
  "load_logging api tbl config =
     (case view_table api tbl ''logging'' of
        None \<Rightarrow> Inr config
      | Some logging \<Rightarrow>
          get_value_or api (value_bool api) logging ''console_output'' True (\<lambda>console.
          get_value_or api (value_bool api) logging ''file_output'' True (\<lambda>file.
          get_value_or api (value_string api) logging ''log_file'' ''logs/serv.log'' (\<lambda>path.
          get_value_or api (value_int api) logging ''max_file_size'' 10 (\<lambda>size.
          get_value_or api (value_int api) logging ''max_files'' 3 (\<lambda>files.
          Inr (config\<lparr>sc_logging := (sc_logging config)
                 \<lparr>console_output := console, file_output := file, log_file := path,
                  max_file_size := scast size * MB 1, max_files := files\<rparr>\<rparr>)))))))"

definition load_route :: "'n toml_api \<Rightarrow> 'n \<Rightarrow> route_config" where
  "load_route api tbl =
     (let type_str = (case get api tbl ''type'' of
                        None \<Rightarrow> ''static''
                      | Some n \<Rightarrow> (case as_string api n of None \<Rightarrow> ''static'' | Some s \<Rightarrow> s))
      in \<lparr>rc_path = view_value_or api (value_string api) tbl ''path'' '''',
          rc_type = (case route_type_from_string type_str of None \<Rightarrow> Static | Some t \<Rightarrow> t),
          rc_root = view_value_or api (value_string api) tbl ''root'' ''./public'',
          rc_index = view_value_or api (value_string api) tbl ''index'' ''index.html'',
          rc_upstream = view_value_or api (value_string api) tbl ''upstream'' ''''\<rparr>)"

fun load_routes_loop :: "'n toml_api \<Rightarrow> 'n list \<Rightarrow> route_config list \<Rightarrow> route_config list" where
  "load_routes_loop api [] routes = routes"
| "load_routes_loop api (elem # elems) routes =
     (if is_table api elem
      then (let r = load_route api elem
            in load_routes_loop api elems (if rc_path r \<noteq> [] then routes @ [r] else routes))
      else load_routes_loop api elems routes)"

definition load_routes :: "'n toml_api \<Rightarrow> 'n \<Rightarrow> server_config \<Rightarrow> server_config" where
  "load_routes api tbl config =
     (case view_array api tbl ''routes'' of
        None \<Rightarrow> config
      | Some elems \<Rightarrow> config\<lparr>sc_routes := load_routes_loop api elems []\<rparr>)"

text \<open>The body of the \<^verbatim>\<open>try\<close> block, and the handlers around it.\<close>

definition load_file_body ::
  "'n toml_api \<Rightarrow> (string \<Rightarrow> bool) \<Rightarrow> (string \<Rightarrow> string + bool) \<Rightarrow> string \<Rightarrow> failure + server_config" where
  "load_file_body api address_ok is_directory file_path =
     (case parse_file api file_path of
        Inl (d, l) \<Rightarrow> Inl (Thrown (ParseError d l))
      | Inr tbl \<Rightarrow>
          (case load_server api tbl default_config of
             Inl e \<Rightarrow> Inl e
           | Inr config1 \<Rightarrow>
               (case load_logging api tbl config1 of
                  Inl e \<Rightarrow> Inl e
                | Inr config2 \<Rightarrow>
                    (let config = load_routes api tbl config2
                     in case validate address_ok is_directory config of
                          Inl m \<Rightarrow> Inl (Thrown (FilesystemError m))
                        | Inr ds \<Rightarrow> if ds \<noteq> [] then Inl (Thrown (ConfigException ds)) else Inr config))))"

definition load_file ::
  "'n toml_api \<Rightarrow> (string \<Rightarrow> bool) \<Rightarrow> (string \<Rightarrow> string + bool) \<Rightarrow> string \<Rightarrow> failure + server_config" where
  "load_file api address_ok is_directory file_path =
     (case load_file_body api address_ok is_directory file_path of
        Inr config \<Rightarrow> Inr config
      | Inl NullPointer \<Rightarrow> Inl NullPointer
      | Inl (Thrown (ParseError d l)) \<Rightarrow>
          Inl (Thrown (RuntimeError (''TOML Parse Error: '' @ d @ '' at line '' @ to_string l)))
      | Inl (Thrown e) \<Rightarrow> Inl (Thrown (RuntimeError (''Config Load Failed: '' @ what e))))"

end
