(* ===== verification/Config_Props.thy ===== *)
theory Config_Props
  imports Config
begin

text \<open>
  What a validated and a loaded configuration promises: the lemmas split the validator's
  output by route, and the properties relate the loader's result to the tables of the file.
\<close>

section \<open>The validator\<close>

definition route_valid :: "(string \<Rightarrow> string + bool) \<Rightarrow> route_config \<Rightarrow> bool" where
  "route_valid is_directory r \<longleftrightarrow>
     rc_path r \<noteq> [] \<and> hd (rc_path r) = CHR ''/'' \<and> rc_type r = Static
     \<and> rc_root r \<noteq> [] \<and> is_directory (rc_root r) = Inr True"

definition config_valid ::
  "(string \<Rightarrow> bool) \<Rightarrow> (string \<Rightarrow> string + bool) \<Rightarrow> server_config \<Rightarrow> bool" where
  "config_valid address_ok is_directory c \<longleftrightarrow>
     sc_host c \<noteq> [] \<and> address_ok (sc_host c)
     \<and> 1 \<le> unat (sc_port c) \<and> unat (sc_port c) \<le> 65535
     \<and> 0 < sint (timeout_seconds c) \<and> 0 < sint (max_connections c)
     \<and> (\<forall>r\<in>set (sc_routes c). route_valid is_directory r)"

definition route_diags ::
  "(string \<Rightarrow> bool) \<Rightarrow> (string \<Rightarrow> string + bool) \<Rightarrow> nat \<Rightarrow> route_config \<Rightarrow> diagnostic list" where
  "route_diags address_ok is_directory i r =
     (case validate_route address_ok is_directory i r [] of Inl m \<Rightarrow> [] | Inr ds \<Rightarrow> ds)"

lemma validate_path_append: "validate_path name r errors = errors @ validate_path name r []"
  by (simp add: validate_path_def add_error_def)

lemma validate_route_split:
  "validate_route address_ok is_directory i r errors =
     map_sum id (\<lambda>ds. errors @ ds) (validate_route address_ok is_directory i r [])"
  by (cases "rc_type r")
    (simp_all add: validate_route_def add_error_def Let_def validate_path_append [of _ _ errors]
      split: sum.splits bool.splits)

lemma validate_route_append:
  "validate_route address_ok is_directory i r errors = Inr ds \<Longrightarrow>
     ds = errors @ route_diags address_ok is_directory i r"
  by (subst (asm) validate_route_split)
    (cases "validate_route address_ok is_directory i r []"; simp add: route_diags_def)

lemma validate_routes_append:
  "validate_routes address_ok is_directory i rs errors = Inr ds \<Longrightarrow>
     ds = errors @ concat (map (\<lambda>(j, r). route_diags address_ok is_directory j r) (enumerate i rs))"
proof (induction rs arbitrary: i errors)
  case (Cons r rs)
  from Cons.prems obtain e where e: "validate_route address_ok is_directory i r errors = Inr e"
    "validate_routes address_ok is_directory (i + 1) rs e = Inr ds"
    by (auto split: sum.splits)
  from Cons.IH [OF e(2)] validate_route_append [OF e(1)] show ?case by simp
qed simp

lemma route_diags_Nil:
  "validate_route address_ok is_directory i r errors = Inr errors \<longleftrightarrow> route_valid is_directory r"
  by (auto simp: validate_route_def validate_path_def add_error_def Let_def route_valid_def
      sv_starts_with_def split: route_type.splits sum.splits bool.splits if_splits)

lemma validate_routes_Nil:
  "validate_routes address_ok is_directory i rs [] = Inr [] \<longleftrightarrow> (\<forall>r\<in>set rs. route_valid is_directory r)"
proof (induction rs arbitrary: i)
  case (Cons r rs)
  show ?case
  proof (cases "validate_route address_ok is_directory i r []")
    case (Inl m)
    then have "\<not> route_valid is_directory r" using route_diags_Nil [of address_ok is_directory i r "[]"] by auto
    with Inl show ?thesis by simp
  next
    case (Inr ds)
    show ?thesis
    proof (cases "ds = []")
      case True
      with Inr Cons.IH route_diags_Nil [of address_ok is_directory i r "[]"] show ?thesis by simp
    next
      case False
      with Inr have "\<not> route_valid is_directory r"
        using route_diags_Nil [of address_ok is_directory i r "[]"] by auto
      moreover have "validate_routes address_ok is_directory (i + 1) rs ds \<noteq> Inr []"
        using validate_routes_append [of address_ok is_directory "i + 1" rs ds "[]"] False by auto
      ultimately show ?thesis using Inr by simp
    qed
  qed
qed simp

lemma validate_server_Nil:
  "validate_server address_ok c = [] \<longleftrightarrow>
     sc_host c \<noteq> [] \<and> address_ok (sc_host c)
     \<and> 1 \<le> unat (sc_port c) \<and> unat (sc_port c) \<le> 65535
     \<and> 0 < sint (timeout_seconds c) \<and> 0 < sint (max_connections c)"
  by (auto simp: validate_server_def add_error_def Let_def is_valid_ip_address_def
      word_less_nat_alt word_le_nat_alt)

lemma validate_Nil: "validate address_ok is_directory c = Inr [] \<longleftrightarrow> config_valid address_ok is_directory c"
proof (cases "validate_server address_ok c = []")
  case True
  with validate_server_Nil [of address_ok c] show ?thesis
    by (simp add: validate_def validate_routes_Nil config_valid_def)
next
  case False
  then have "validate address_ok is_directory c \<noteq> Inr []"
    using validate_routes_append [of address_ok is_directory 0 "sc_routes c" "validate_server address_ok c" "[]"]
    by (auto simp: validate_def)
  with False validate_server_Nil [of address_ok c] show ?thesis by (auto simp: config_valid_def)
qed

lemma validate_append:
  "validate address_ok is_directory c = Inr ds \<Longrightarrow>
     ds = validate_server address_ok c
       @ concat (map (\<lambda>(j, r). route_diags address_ok is_directory j r) (enumerate 0 (sc_routes c)))"
  unfolding validate_def by (rule validate_routes_append)

text \<open>The field names tell the routes apart.\<close>

lemma to_string_digits: "set (to_string n) \<subseteq> digit_char ` {..<10}"
proof (induction n rule: to_string.induct)
  case (1 n)
  then show ?case by (subst to_string.simps) auto
qed

lemma bracket_no_digit: "CHR '']'' \<notin> set (to_string n)"
proof
  assume "CHR '']'' \<in> set (to_string n)"
  then obtain d where "d < 10" "CHR '']'' = digit_char d" using to_string_digits by blast
  then have "of_char (CHR '']'') = (48 + d) mod 256" by (simp add: digit_char_def)
  with \<open>d < 10\<close> show False by simp
qed

definition route_field :: "nat \<Rightarrow> string \<Rightarrow> string" where
  "route_field i key = ''routes['' @ to_string i @ '']'' @ key"

lemma route_field_inject: "route_field i k = route_field j l \<longleftrightarrow> i = j \<and> k = l"
proof
  assume eq: "route_field i k = route_field j l"
  have *: "takeWhile (\<lambda>c. c \<noteq> CHR '']'') (to_string n @ '']'' @ m) = to_string n" for n m
    using bracket_no_digit [of n] by (subst takeWhile_append2) auto
  from eq have eq: "to_string i @ '']'' @ k = to_string j @ '']'' @ l" by (simp add: route_field_def)
  then have "to_string i = to_string j" using * by metis
  with eq show "i = j \<and> k = l" by (simp add: to_string_inject)
qed simp

lemma route_diags_fields:
  "\<exists>e\<in>set (route_diags address_ok is_directory i r). d_field e = f \<Longrightarrow>
     f \<in> route_field i ` {''.path'', ''.root'', ''.type'', ''.upstream''}"
  by (auto simp: validate_route_def route_diags_def validate_path_def add_error_def Let_def route_field_def
      split: route_type.splits sum.splits bool.splits if_splits)

lemma server_fields:
  "e \<in> set (validate_server address_ok c) \<Longrightarrow> d_field e \<noteq> route_field i k"
  by (auto simp: validate_server_def add_error_def Let_def route_field_def split: if_splits)

lemma field_of_route:
  assumes "validate address_ok is_directory c = Inr ds"
  shows "(\<exists>e\<in>set ds. d_field e = route_field i k) \<longleftrightarrow>
    i < length (sc_routes c)
    \<and> (\<exists>e\<in>set (route_diags address_ok is_directory i (sc_routes c ! i)). d_field e = route_field i k)"
    (is "?L \<longleftrightarrow> ?R")
proof
  assume ?L
  then obtain e where e: "e \<in> set ds" "d_field e = route_field i k" by blast
  then obtain j r where j: "(j, r) \<in> set (enumerate 0 (sc_routes c))"
    "e \<in> set (route_diags address_ok is_directory j r)"
    unfolding validate_append [OF assms] using server_fields [of e address_ok c i k] by auto
  with e(2) route_diags_fields [of address_ok is_directory j r "d_field e"] have "j = i"
    by (auto simp: route_field_inject)
  with j e(2) show ?R by (auto simp: in_set_enumerate_eq)
next
  assume ?R
  moreover from this have "(i, sc_routes c ! i) \<in> set (enumerate 0 (sc_routes c))"
    by (simp add: in_set_enumerate_eq)
  ultimately show ?L unfolding validate_append [OF assms] by fastforce
qed

lemma validate_routes_no_throw:
  "validate_routes address_ok is_directory i rs errors = Inr ds \<Longrightarrow> r \<in> set rs \<Longrightarrow>
     rc_type r = Static \<Longrightarrow> rc_root r \<noteq> [] \<Longrightarrow> \<exists>b. is_directory (rc_root r) = Inr b"
proof (induction rs arbitrary: i errors)
  case (Cons a rs)
  then show ?case
    by (auto simp: validate_route_def Let_def split: sum.splits bool.splits if_splits)
qed simp

lemma validate_no_throw:
  assumes "validate address_ok is_directory c = Inr ds" "i < length (sc_routes c)"
    and "rc_type (sc_routes c ! i) = Static" "rc_root (sc_routes c ! i) \<noteq> []"
  shows "\<exists>b. is_directory (rc_root (sc_routes c ! i)) = Inr b"
  using validate_routes_no_throw [OF assms(1) [unfolded validate_def] nth_mem [OF assms(2)] assms(3,4)] .

text \<open>Which fields one route contributes.\<close>

lemma route_diags_eq:
  assumes "rc_type r = Static \<Longrightarrow> rc_root r \<noteq> [] \<Longrightarrow> \<exists>b. is_directory (rc_root r) = Inr b"
  shows "(\<exists>e\<in>set (route_diags address_ok is_directory i r). d_field e = route_field i k) \<longleftrightarrow>
     k = ''.path'' \<and> \<not> sv_starts_with (rc_path r) (CHR ''/'')
     \<or> k = ''.root'' \<and> rc_type r = Static \<and> (rc_root r = [] \<or> is_directory (rc_root r) = Inr False)
     \<or> k = ''.type'' \<and> rc_type r = Proxy
     \<or> k = ''.upstream'' \<and> rc_type r = Proxy \<and> \<not> is_valid_ip_address address_ok (rc_upstream r)"
proof -
  have fields: "''routes['' @ to_string i @ '']'' @ key = route_field i key" for key
    by (simp add: route_field_def)
  have path: "\<exists>m. validate_path (''routes['' @ to_string i @ '']'') r [] =
      (if sv_starts_with (rc_path r) (CHR ''/'') then [] else [\<lparr>d_field = route_field i ''.path'', d_message = m\<rparr>])"
    by (auto simp: validate_path_def add_error_def route_field_def sv_starts_with_def)
  then obtain m where path: "validate_path (''routes['' @ to_string i @ '']'') r [] =
      (if sv_starts_with (rc_path r) (CHR ''/'') then [] else [\<lparr>d_field = route_field i ''.path'', d_message = m\<rparr>])" ..
  note unfold = route_diags_def validate_route_def Let_def path add_error_def append_assoc fields
  show ?thesis
  proof (cases "rc_type r")
    case Proxy
    then show ?thesis
      unfolding unfold by (auto simp: route_field_inject is_valid_ip_address_def)
  next
    case Static
    show ?thesis
    proof (cases "rc_root r = []")
      case True
      with Static show ?thesis unfolding unfold by (auto simp: route_field_inject)
    next
      case False
      with assms Static obtain b where "is_directory (rc_root r) = Inr b" by blast
      with Static False show ?thesis
        unfolding unfold by (cases b) (auto simp: route_field_inject)
    qed
  qed
qed

lemma validate_routes_throws:
  "validate_routes address_ok is_directory i rs errors = Inl m \<Longrightarrow> \<exists>p. is_directory p = Inl m"
proof (induction rs arbitrary: i errors)
  case (Cons r rs)
  then show ?case
    by (cases "rc_type r") (auto simp: validate_route_def Let_def split: sum.splits bool.splits if_splits)
qed simp

lemma validate_throws:
  "validate address_ok is_directory c = Inl m \<Longrightarrow> \<exists>p. is_directory p = Inl m"
  unfolding validate_def by (rule validate_routes_throws)

section \<open>The loader\<close>

text \<open>A section of the file that is a table but lacks one of the keys.\<close>

definition missing_key :: "'n toml_api \<Rightarrow> 'n \<Rightarrow> string \<Rightarrow> string list \<Rightarrow> bool" where
  "missing_key api tbl section_name keys \<longleftrightarrow>
     (case view_table api tbl section_name of
        None \<Rightarrow> False
      | Some n \<Rightarrow> \<exists>k\<in>set keys. get api n k = None)"

abbreviation server_keys :: "string list" where
  "server_keys \<equiv> [''name'', ''host'', ''port'', ''timeout_seconds'', ''max_connections'']"

abbreviation logging_keys :: "string list" where
  "logging_keys \<equiv> [''console_output'', ''file_output'', ''log_file'', ''max_file_size'', ''max_files'']"

lemma get_value_or_cases:
  "get_value_or api value tbl key d rest =
     (if get api tbl key = None then Inl NullPointer else rest (view_value_or api value tbl key d))"
  by (auto simp: get_value_or_def view_value_or_def split: option.splits)

lemma load_server_outcome:
  "load_server api tbl c =
     (if missing_key api tbl ''server'' server_keys then Inl NullPointer
      else Inr (case view_table api tbl ''server'' of
        None \<Rightarrow> c
      | Some n \<Rightarrow> c\<lparr>sc_name := view_value_or api (value_string api) n ''name'' ''VeloxServ'',
          sc_host := view_value_or api (value_string api) n ''host'' ''127.0.0.1'',
          sc_port := view_value_or api (value_int api) n ''port'' 8080,
          timeout_seconds := view_value_or api (value_int api) n ''timeout_seconds'' 30,
          max_connections := view_value_or api (value_int api) n ''max_connections'' 10000\<rparr>))"
  by (cases "view_table api tbl ''server''") (simp_all add: load_server_def missing_key_def get_value_or_cases)

lemma load_logging_outcome:
  "load_logging api tbl c =
     (if missing_key api tbl ''logging'' logging_keys then Inl NullPointer
      else Inr (case view_table api tbl ''logging'' of
        None \<Rightarrow> c
      | Some n \<Rightarrow> c\<lparr>sc_logging := (sc_logging c)
          \<lparr>console_output := view_value_or api (value_bool api) n ''console_output'' True,
           file_output := view_value_or api (value_bool api) n ''file_output'' True,
           log_file := view_value_or api (value_string api) n ''log_file'' ''logs/serv.log'',
           max_file_size := scast (view_value_or api (value_int api) n ''max_file_size'' 10) * MB 1,
           max_files := view_value_or api (value_int api) n ''max_files'' 3\<rparr>\<rparr>))"
  by (cases "view_table api tbl ''logging''") (simp_all add: load_logging_def missing_key_def get_value_or_cases)

lemma load_routes_loop_eq:
  "load_routes_loop api elems routes =
     routes @ filter (\<lambda>r. rc_path r \<noteq> []) (map (load_route api) (filter (is_table api) elems))"
  by (induction elems arbitrary: routes) (auto simp: Let_def)

text \<open>The outcomes of the body, one by one.\<close>

lemma load_file_body_cases:
  obtains (parse) d l where "parse_file api f = Inl (d, l)"
      "load_file_body api address_ok is_directory f = Inl (Thrown (ParseError d l))"
  | (null) tbl where "parse_file api f = Inr tbl"
      "missing_key api tbl ''server'' server_keys \<or> missing_key api tbl ''logging'' logging_keys"
      "load_file_body api address_ok is_directory f = Inl NullPointer"
  | (loaded) tbl c1 c2 where "parse_file api f = Inr tbl"
      "\<not> missing_key api tbl ''server'' server_keys" "\<not> missing_key api tbl ''logging'' logging_keys"
      "load_server api tbl default_config = Inr c1" "load_logging api tbl c1 = Inr c2"
      "load_file_body api address_ok is_directory f =
        (case validate address_ok is_directory (load_routes api tbl c2) of
           Inl m \<Rightarrow> Inl (Thrown (FilesystemError m))
         | Inr ds \<Rightarrow> if ds \<noteq> [] then Inl (Thrown (ConfigException ds)) else Inr (load_routes api tbl c2))"
proof (cases "parse_file api f")
  case (Inl x)
  then show ?thesis by (cases x) (auto simp: load_file_body_def intro: parse)
next
  case (Inr tbl)
  show ?thesis
  proof (cases "missing_key api tbl ''server'' server_keys \<or> missing_key api tbl ''logging'' logging_keys")
    case True
    then have "load_file_body api address_ok is_directory f = Inl NullPointer"
      using Inr by (auto simp: load_file_body_def load_server_outcome load_logging_outcome)
    with Inr True show ?thesis by (rule null)
  next
    case False
    then obtain c1 where c1: "load_server api tbl default_config = Inr c1"
      by (simp add: load_server_outcome)
    from False obtain c2 where c2: "load_logging api tbl c1 = Inr c2"
      by (simp add: load_logging_outcome)
    from Inr False c1 c2 show ?thesis
      by (intro loaded) (simp_all add: load_file_body_def Let_def)
  qed
qed

lemma load_file_Inr:
  "load_file api address_ok is_directory f = Inr c \<longleftrightarrow> load_file_body api address_ok is_directory f = Inr c"
  by (simp add: load_file_def split: sum.split failure.split cpp_exn.split prod.split)

lemma load_file_Null:
  "load_file api address_ok is_directory f = Inl NullPointer \<longleftrightarrow>
     load_file_body api address_ok is_directory f = Inl NullPointer"
  by (simp add: load_file_def split: sum.split failure.split cpp_exn.split prod.split)

lemma load_file_Thrown:
  "load_file api address_ok is_directory f = Inl (Thrown e) \<longleftrightarrow>
     (\<exists>x. load_file_body api address_ok is_directory f = Inl (Thrown x)
        \<and> e = RuntimeError (case x of ParseError d l \<Rightarrow> ''TOML Parse Error: '' @ d @ '' at line '' @ to_string l
              | _ \<Rightarrow> ''Config Load Failed: '' @ what x))"
  by (auto simp: load_file_def split: sum.splits failure.splits cpp_exn.splits)

lemma load_file_loaded:
  assumes "load_file api address_ok is_directory f = Inr c"
  obtains tbl c1 c2 where "parse_file api f = Inr tbl" "load_server api tbl default_config = Inr c1"
    "load_logging api tbl c1 = Inr c2" "c = load_routes api tbl c2"
    "validate address_ok is_directory c = Inr []"
proof -
  from assms have body: "load_file_body api address_ok is_directory f = Inr c" by (simp add: load_file_Inr)
  show ?thesis
  proof (rule load_file_body_cases [of api f address_ok is_directory], goal_cases)
    case (1 d l)
    with body show ?thesis by simp
  next
    case (2 tbl)
    with body show ?thesis by simp
  next
    case (3 tbl c1 c2)
    with body have "c = load_routes api tbl c2" "validate address_ok is_directory c = Inr []"
      by (simp_all split: sum.splits if_splits)
    with 3 show ?thesis by (intro that)
  qed
qed

text \<open>The conversion of a possibly negative number to 64 unsigned bits.\<close>

lemma wrap_negative:
  assumes "- (2 ^ 64) \<le> k" "k < (2 ^ 64 :: int)"
  shows "k mod 2 ^ 64 = (if 0 \<le> k then k else 2 ^ 64 + k)"
proof (cases "0 \<le> k")
  case True
  with assms show ?thesis by simp
next
  case False
  have "k mod 2 ^ 64 = (k + 2 ^ 64) mod 2 ^ 64" by (rule mod_add_self2 [symmetric])
  also have "\<dots> = k + 2 ^ 64" using assms False by (intro mod_pos_pos_trivial) simp_all
  finally show ?thesis using False by simp
qed

lemma uint_megabytes: "uint (scast (s :: 32 word) * 1048576 :: 64 word) = (sint s * 2 ^ 20) mod 2 ^ 64"
proof -
  have p: "(2 :: int) ^ 20 = 1048576" by simp
  have l: "LENGTH(64) = 64" by simp
  have "scast s * 1048576 = (word_of_int (sint s * 1048576) :: 64 word)"
    by (simp only: scast_eq of_int_mult of_int_numeral)
  then show ?thesis by (simp only: uint_word_of_int p l)
qed

lemma null_iff:
  "load_file api address_ok is_directory f = Inl NullPointer \<longleftrightarrow>
     (\<exists>tbl. parse_file api f = Inr tbl
        \<and> (missing_key api tbl ''server'' server_keys \<or> missing_key api tbl ''logging'' logging_keys))"
  unfolding load_file_Null
  by (rule load_file_body_cases [of api f address_ok is_directory]) (simp_all split: sum.split)

lemma load_file_config_valid:
  "load_file api address_ok is_directory f = Inr c \<Longrightarrow> config_valid address_ok is_directory c"
  by (erule load_file_loaded) (simp add: validate_Nil)

section \<open>Sample files\<close>

text \<open>A reading of the library calls on a small TOML syntax tree, to run the loader on.\<close>

datatype toml = TTable "(string \<times> toml) list" | TArray "toml list" | TString string | TInt int | TBool bool

fun toml_get :: "toml \<Rightarrow> string \<Rightarrow> toml option" where
  "toml_get (TTable kvs) key = map_of kvs key"
| "toml_get _ key = None"

fun toml_int :: "toml \<Rightarrow> 32 word option" where
  "toml_int (TInt i) = (if - (2 ^ 31) \<le> i \<and> i < 2 ^ 31 then Some (word_of_int i) else None)"
| "toml_int _ = None"

fun toml_string :: "toml \<Rightarrow> string option" where
  "toml_string (TString s) = Some s"
| "toml_string _ = None"

definition tree_api :: "toml \<Rightarrow> toml toml_api" where
  "tree_api file =
     \<lparr>parse_file = (\<lambda>_. Inr file), get = toml_get,
      is_table = (\<lambda>n. case n of TTable _ \<Rightarrow> True | _ \<Rightarrow> False),
      as_array = (\<lambda>n. case n of TArray ns \<Rightarrow> Some ns | _ \<Rightarrow> None),
      as_string = toml_string, value_string = toml_string, value_int = toml_int,
      value_bool = (\<lambda>n. case n of TBool b \<Rightarrow> Some b | _ \<Rightarrow> None)\<rparr>"

text \<open>The file \<^verbatim>\<open>default.toml\<close> of the repository.\<close>

definition default_toml :: toml where
  "default_toml = TTable
     [(''server'', TTable [(''name'', TString ''VeloxServ''), (''host'', TString ''127.0.0.1''),
        (''port'', TInt 8080), (''timeout_seconds'', TInt 30), (''max_connections'', TInt 10000)]),
      (''logging'', TTable [(''console_output'', TBool True), (''file_output'', TBool True),
        (''log_file'', TString ''log/serv.log''), (''max_file_size'', TInt 10), (''max_files'', TInt 3)]),
      (''routes'', TArray [TTable [(''path'', TString ''/''), (''type'', TString ''static''),
        (''root'', TString ''./public/''), (''index'', TString ''index.html'')]])]"

abbreviation localhost :: "string \<Rightarrow> bool" where
  "localhost h \<equiv> h = ''127.0.0.1''"

abbreviation public_dir :: "string \<Rightarrow> string + bool" where
  "public_dir p \<equiv> Inr (p = ''./public/'')"

definition loaded_default :: server_config where
  "loaded_default =
     \<lparr>sc_name = ''VeloxServ'', sc_host = ''127.0.0.1'', sc_port = 8080, timeout_seconds = 30,
      max_connections = 10000,
      sc_routes = [\<lparr>rc_path = ''/'', rc_type = Static, rc_root = ''./public/'',
        rc_index = ''index.html'', rc_upstream = ''''\<rparr>],
      sc_logging = \<lparr>console_output = True, file_output = True, log_file = ''log/serv.log'',
        max_file_size = 10485760, max_files = 3\<rparr>\<rparr>"

lemma load_default: "load_file (tree_api default_toml) localhost public_dir ''default.toml'' = Inr loaded_default"
  by code_simp


section \<open>Properties\<close>

text \<open>C21. The validator reports nothing exactly for the valid configurations: an IP address as
  host, a port that is not zero and fits 16 bits, positive limits, and only static routes, each
  with an absolute path and an existing directory.  In particular every proxy route is refused.\<close>

theorem validate_complete:
  "validate address_ok is_directory c = Inr [] \<longleftrightarrow>
     sc_host c \<noteq> [] \<and> address_ok (sc_host c)
     \<and> 1 \<le> unat (sc_port c) \<and> unat (sc_port c) \<le> 65535
     \<and> 0 < sint (timeout_seconds c) \<and> 0 < sint (max_connections c)
     \<and> (\<forall>r\<in>set (sc_routes c). rc_path r \<noteq> [] \<and> hd (rc_path r) = CHR ''/'' \<and> rc_type r = Static
          \<and> rc_root r \<noteq> [] \<and> is_directory (rc_root r) = Inr True)"
  by (simp add: validate_Nil config_valid_def route_valid_def)

theorem validate_complete_witness:
  "validate localhost public_dir (loaded_default\<lparr>sc_port := 70000\<rparr>) \<noteq> Inr []
   \<and> validate localhost public_dir loaded_default = Inr []"
proof -
  have "\<not> unat (sc_port (loaded_default\<lparr>sc_port := 70000\<rparr>)) \<le> 65535"
    by (simp add: loaded_default_def)
  then have "validate localhost public_dir (loaded_default\<lparr>sc_port := 70000\<rparr>) \<noteq> Inr []"
    using validate_complete [of localhost public_dir "loaded_default\<lparr>sc_port := 70000\<rparr>"] by blast
  moreover have "validate localhost public_dir loaded_default = Inr []" by code_simp
  ultimately show ?thesis by blast
qed

text \<open>The diagnostics name the offending routes: there is one for the path, the root or the
  type of route \<open>i\<close> exactly when that route exists and the field is at fault, and no
  diagnostic of another route or of the server has the same field name.\<close>

lemma validate_route_fields:
  assumes "validate address_ok is_directory c = Inr ds"
  shows "((\<exists>e\<in>set ds. d_field e = route_field i ''.path'') \<longleftrightarrow>
      i < length (sc_routes c) \<and> \<not> sv_starts_with (rc_path (sc_routes c ! i)) (CHR ''/''))
    \<and> ((\<exists>e\<in>set ds. d_field e = route_field i ''.root'') \<longleftrightarrow>
      i < length (sc_routes c) \<and> rc_type (sc_routes c ! i) = Static
        \<and> (rc_root (sc_routes c ! i) = [] \<or> is_directory (rc_root (sc_routes c ! i)) = Inr False))
    \<and> ((\<exists>e\<in>set ds. d_field e = route_field i ''.type'') \<longleftrightarrow>
      i < length (sc_routes c) \<and> rc_type (sc_routes c ! i) = Proxy)"
proof (cases "i < length (sc_routes c)")
  case True
  note diags = route_diags_eq [of "sc_routes c ! i" is_directory address_ok i, OF validate_no_throw [OF assms True]]
  from True show ?thesis unfolding field_of_route [OF assms] by (simp add: diags)
next
  case False
  then show ?thesis unfolding field_of_route [OF assms] by simp
qed

text \<open>A configuration that \<open>load_file\<close> returns is valid.\<close>

lemma load_file_valid:
  "load_file api address_ok is_directory f = Inr c \<Longrightarrow> config_valid address_ok is_directory c"
  by (rule load_file_config_valid)

text \<open>C35. \<open>load_file\<close> throws only \<^verbatim>\<open>std::runtime_error\<close>: for a parse error with its line,
  otherwise with the text of a failed validation or of a file system error.  A
  \<^verbatim>\<open>ConfigException\<close> never leaves it, so its diagnostics reach the caller as text only.\<close>

theorem load_file_exceptions:
  assumes "load_file api address_ok is_directory f = Inl (Thrown e)"
  shows "(\<exists>d l. parse_file api f = Inl (d, l)
        \<and> e = RuntimeError (''TOML Parse Error: '' @ d @ '' at line '' @ to_string l))
    \<or> (\<exists>ds. ds \<noteq> [] \<and> e = RuntimeError (''Config Load Failed: '' @ format_message ds))
    \<or> (\<exists>m p. is_directory p = Inl m \<and> e = RuntimeError (''Config Load Failed: '' @ m))"
proof -
  from assms obtain x where x: "load_file_body api address_ok is_directory f = Inl (Thrown x)"
    "e = RuntimeError (case x of ParseError d l \<Rightarrow> ''TOML Parse Error: '' @ d @ '' at line '' @ to_string l
              | _ \<Rightarrow> ''Config Load Failed: '' @ what x)"
    unfolding load_file_Thrown by blast
  show ?thesis
  proof (rule load_file_body_cases [of api f address_ok is_directory], goal_cases)
    case (1 d l)
    with x(1) have "x = ParseError d l" by simp
    with 1 x(2) show ?thesis by simp
  next
    case (2 tbl)
    with x show ?thesis by simp
  next
    case (3 tbl c1 c2)
    show ?thesis
    proof (cases "validate address_ok is_directory (load_routes api tbl c2)")
      case (Inl m)
      with validate_throws [OF Inl] x 3 show ?thesis by auto
    next
      case (Inr ds)
      with x 3 show ?thesis by (auto split: if_splits)
    qed
  qed
qed

theorem load_file_exceptions_witness:
  "\<exists>ds. ds \<noteq> [] \<and> load_file (tree_api default_toml) localhost (\<lambda>p. Inr False) ''default.toml''
     = Inl (Thrown (RuntimeError (''Config Load Failed: '' @ format_message ds)))"
proof -
  let ?r = "load_file (tree_api default_toml) localhost (\<lambda>p. Inr False) ''default.toml''"
  have "(case ?r of Inl (Thrown e) \<Rightarrow> True | _ \<Rightarrow> False)" by code_simp
  then obtain e where e: "?r = Inl (Thrown e)" by (auto split: sum.splits failure.splits)
  moreover have "parse_file (tree_api default_toml) ''default.toml'' = Inr default_toml" by code_simp
  ultimately show ?thesis using load_file_exceptions [OF e] by auto
qed

text \<open>C16. \<open>load_file\<close> dereferences a null pointer exactly when the file parses and its
  \<^verbatim>\<open>[server]\<close> or \<^verbatim>\<open>[logging]\<close> table lacks one of the keys, although the calls name a
  default for each; an absent table is harmless.\<close>

theorem load_file_null_iff:
  "load_file api address_ok is_directory f = Inl NullPointer \<longleftrightarrow>
     (\<exists>tbl. parse_file api f = Inr tbl
        \<and> (missing_key api tbl ''server'' server_keys \<or> missing_key api tbl ''logging'' logging_keys))"
  by (rule null_iff)

theorem load_file_null_iff_witness:
  "load_file (tree_api (TTable [(''server'', TTable [(''port'', TInt 80)])])) localhost public_dir ''f''
     = Inl NullPointer
   \<and> load_file (tree_api (TTable [])) localhost public_dir ''f'' = Inr default_config"
proof -
  let ?t = "TTable [(''server'', TTable [(''port'', TInt 80)])]"
  have "missing_key (tree_api ?t) ?t ''server'' server_keys" "parse_file (tree_api ?t) ''f'' = Inr ?t"
    by code_simp+
  then have "load_file (tree_api ?t) localhost public_dir ''f'' = Inl NullPointer"
    using load_file_null_iff [of "tree_api ?t" localhost public_dir "''f''"] by blast
  moreover have "load_file (tree_api (TTable [])) localhost public_dir ''f'' = Inr default_config"
    by code_simp
  ultimately show ?thesis by blast
qed

text \<open>The routes of a loaded configuration are the tables of the \<^verbatim>\<open>routes\<close> array in order,
  less those without a path; a route whose type is missing or unknown is static.\<close>

lemma load_file_routes:
  assumes "load_file api address_ok is_directory f = Inr c" "parse_file api f = Inr tbl"
  shows "sc_routes c =
    (case view_array api tbl ''routes'' of
       None \<Rightarrow> []
     | Some elems \<Rightarrow> filter (\<lambda>r. rc_path r \<noteq> []) (map (load_route api) (filter (is_table api) elems)))"
  using assms(1)
proof (rule load_file_loaded)
  fix t c1 c2
  assume loaded: "parse_file api f = Inr t" "load_server api t default_config = Inr c1"
    "load_logging api t c1 = Inr c2" "c = load_routes api t c2"
  from loaded(2) have "sc_routes c1 = []"
    by (auto simp: load_server_outcome default_config_def split: if_splits option.splits)
  with loaded(3) have "sc_routes c2 = []"
    by (auto simp: load_logging_outcome split: if_splits option.splits)
  with loaded assms(2) show ?thesis by (simp add: load_routes_def load_routes_loop_eq split: option.split)
qed

text \<open>C40. The size limit of the log in bytes: exact for every non-negative number of megabytes,
  and near \<^verbatim>\<open>SIZE_MAX\<close> for a negative one, which wraps in the conversion.\<close>

theorem load_logging_size:
  assumes "load_logging api tbl c = Inr c'" "view_table api tbl ''logging'' = Some n"
    and "get api n ''max_file_size'' = Some m" "value_int api m = Some s"
  shows "uint (max_file_size (sc_logging c')) =
    (if 0 \<le> sint s then sint s * 2 ^ 20 else 2 ^ 64 + sint s * 2 ^ 20)"
proof -
  have "max_file_size (sc_logging c') = scast s * 1048576"
  proof -
    from assms(1) have "c' = c\<lparr>sc_logging := (sc_logging c)
          \<lparr>console_output := view_value_or api (value_bool api) n ''console_output'' True,
           file_output := view_value_or api (value_bool api) n ''file_output'' True,
           log_file := view_value_or api (value_string api) n ''log_file'' ''logs/serv.log'',
           max_file_size := scast (view_value_or api (value_int api) n ''max_file_size'' 10) * MB 1,
           max_files := view_value_or api (value_int api) n ''max_files'' 3\<rparr>\<rparr>"
      unfolding load_logging_outcome assms(2) by (simp split: if_splits)
    then show ?thesis using assms(3,4) by (simp add: view_value_or_def value_or_def MB_def)
  qed
  then have "uint (max_file_size (sc_logging c')) = (sint s * 2 ^ 20) mod 2 ^ 64"
    by (simp only: uint_megabytes)
  moreover have "- (2 ^ 31) \<le> sint s" "sint s < 2 ^ 31"
    using sint_ge [of s] sint_lt [of s] by simp_all
  ultimately show ?thesis
    using wrap_negative [of "sint s * 2 ^ 20"] by simp
qed

theorem load_logging_size_witness:
  "uint (scast (- 1 :: 32 word) * MB 1) = 2 ^ 64 - 2 ^ 20"
proof -
  let ?l = "[(''console_output'', TBool True), (''file_output'', TBool True), (''log_file'', TString ''l''),
    (''max_file_size'', TInt (- 1)), (''max_files'', TInt 3)]"
  let ?t = "TTable [(''logging'', TTable ?l)]"
  obtain c' where c': "load_logging (tree_api ?t) ?t default_config = Inr c'"
    "max_file_size (sc_logging c') = scast (- 1 :: 32 word) * MB 1"
    by (simp add: load_logging_def view_table_def tree_api_def get_value_or_def value_or_def)
  have "view_table (tree_api ?t) ?t ''logging'' = Some (TTable ?l)"
    "get (tree_api ?t) (TTable ?l) ''max_file_size'' = Some (TInt (- 1))"
    "value_int (tree_api ?t) (TInt (- 1)) = Some (- 1)"
    by (simp_all add: view_table_def tree_api_def)
  from load_logging_size [OF c'(1) this] c'(2) show ?thesis by simp
qed

text \<open>Route types round-trip through their names, and no other name is recognised.\<close>

lemma route_type_roundtrip:
  "route_type_from_string s = Some t \<longleftrightarrow> s = route_type_to_string t"
  by (cases t) (auto simp: route_type_from_string_def)

end
