(* ===== verification/Response.thy ===== *)
theory Response
  imports Prelude
begin

text \<open>
  Requests and responses as the sources use them, and \<^verbatim>\<open>src/ResponseFactory.cpp\<close>.  The
  message types are Boost.Beast's; a response is recorded here as what the sources hand to the
  library: status, version, content type, the keep-alive flag, the body, and whether
  \<^verbatim>\<open>prepare_payload\<close> was called after the body was set.  \<open>'f\<close> is the type of open files.
\<close>

datatype status = OK | BadRequest | Forbidden | NotFound | InternalServerError

record request =
  rq_version :: "32 word"
  rq_keep_alive :: bool
  rq_target :: string

datatype 'f body = EmptyBody | StringBody string | FileBody 'f

record 'f response =
  rs_status :: status
  rs_version :: "32 word"
  rs_content_type :: "string option"
  rs_keep_alive :: "bool option"
  rs_body :: "'f body"
  rs_prepared :: bool

definition new_response :: "status \<Rightarrow> 32 word \<Rightarrow> 'f response" where
  "new_response status version =
     \<lparr>rs_status = status, rs_version = version, rs_content_type = None, rs_keep_alive = None,
      rs_body = EmptyBody, rs_prepared = False\<rparr>"

definition set_content_type :: "string \<Rightarrow> 'f response \<Rightarrow> 'f response" where
  "set_content_type ty res = res\<lparr>rs_content_type := Some ty\<rparr>"

definition set_keep_alive :: "bool \<Rightarrow> 'f response \<Rightarrow> 'f response" where
  "set_keep_alive b res = res\<lparr>rs_keep_alive := Some b\<rparr>"

definition set_body :: "'f body \<Rightarrow> 'f response \<Rightarrow> 'f response" where
  "set_body b res = res\<lparr>rs_body := b, rs_prepared := False\<rparr>"

definition prepare_payload :: "'f response \<Rightarrow> 'f response" where
  "prepare_payload res = res\<lparr>rs_prepared := True\<rparr>"

lemmas response_defs =
  new_response_def set_content_type_def set_keep_alive_def set_body_def prepare_payload_def

section \<open>The factory\<close>

definition error_response :: "status \<Rightarrow> 32 word \<Rightarrow> bool \<Rightarrow> string \<Rightarrow> 'f response" where
  "error_response status version keep_alive message =
     (let res = new_response status version;
          res = set_content_type ''text/plain; charset=utf-8'' res;
          res = set_keep_alive keep_alive res;
          res = set_body (StringBody message) res
      in prepare_payload res)"

definition bad_request :: "32 word \<Rightarrow> bool \<Rightarrow> string \<Rightarrow> 'f response" where
  "bad_request version keep_alive message = error_response BadRequest version keep_alive message"

definition forbidden :: "32 word \<Rightarrow> bool \<Rightarrow> string \<Rightarrow> 'f response" where
  "forbidden version keep_alive message = error_response Forbidden version keep_alive message"

definition not_found :: "32 word \<Rightarrow> bool \<Rightarrow> string \<Rightarrow> 'f response" where
  "not_found version keep_alive message = error_response NotFound version keep_alive message"

definition internal_server_error :: "32 word \<Rightarrow> bool \<Rightarrow> string \<Rightarrow> 'f response" where
  "internal_server_error version keep_alive message =
     error_response InternalServerError version keep_alive message"

text \<open>The default arguments of the declarations.\<close>

definition default_keep_alive :: bool where
  "default_keep_alive = False"

definition bad_request_message :: string where
  "bad_request_message = ''400 Bad Request''"

definition forbidden_message :: string where
  "forbidden_message = ''403 Forbidden''"

definition not_found_message :: string where
  "not_found_message = ''404 Not Found''"

definition internal_server_error_message :: string where
  "internal_server_error_message = ''Internal Server Error''"

text \<open>A response answers a request: it has its version and keep-alive flag and is complete.\<close>

definition answers :: "request \<Rightarrow> 'f response \<Rightarrow> bool" where
  "answers req res \<longleftrightarrow>
     rs_version res = rq_version req \<and> rs_keep_alive res = Some (rq_keep_alive req)
     \<and> rs_content_type res \<noteq> None \<and> rs_body res \<noteq> EmptyBody \<and> rs_prepared res"

lemma error_response_simps [simp]:
  "rs_status (error_response st v k m) = st"
  "rs_body (error_response st v k m) = StringBody m"
  "answers req (error_response st (rq_version req) (rq_keep_alive req) m)"
  by (simp_all add: error_response_def response_defs answers_def)

lemmas factory_defs = bad_request_def forbidden_def not_found_def internal_server_error_def

end
