(* ===== verification/Static_Files.thy ===== *)
theory Static_Files
  imports Response Mime
begin

text \<open>
  \<^verbatim>\<open>HttpServer::handle_static_request\<close> of \<^verbatim>\<open>src/HttpServer.cpp\<close>: from the request
  target to a file below the root directory of a route.  Boost.URL's \<^verbatim>\<open>parse_origin_form\<close>,
  \<^verbatim>\<open>std::filesystem::weakly_canonical\<close> (which reads the file system and may throw: \<open>Inl\<close>
  is the message) and opening a file are parameters, collected in a record; composing and
  iterating paths is modelled here, for POSIX.
\<close>

section \<open>Outcomes and the environment\<close>

text \<open>A call returns, throws an exception derived from \<^verbatim>\<open>std::exception\<close> with a message, or
  has undefined behaviour.\<close>

datatype 'a outcome = Returns 'a | Throws string | Undefined

record url =
  url_path :: string
  url_segments :: "string list"

datatype 'f open_result = Opened 'f | NoSuchFile | OpenFailed string

record 'f environment =
  parse_origin_form :: "string \<Rightarrow> url option"
  weakly_canonical :: "string \<Rightarrow> string + string"
  open_file :: "string \<Rightarrow> 'f open_result"
  std_hash :: "string hash"
  mime_buckets :: nat

section \<open>POSIX paths\<close>

abbreviation slash :: char where
  "slash \<equiv> CHR ''/''"

text \<open>\<^verbatim>\<open>base / rel\<close>.\<close>

definition path_append :: "string \<Rightarrow> string \<Rightarrow> string" where
  "path_append base rel =
     (if sv_starts_with rel slash then rel
      else if base \<noteq> [] \<and> last base \<noteq> slash then base @ [slash] @ rel
      else base @ rel)"

text \<open>The file names between the slashes.\<close>

fun path_names :: "string \<Rightarrow> string \<Rightarrow> string list" where
  "path_names acc [] = (if acc = [] then [] else [acc])"
| "path_names acc (c # s) =
     (if c = slash then (if acc = [] then path_names [] s else acc # path_names [] s)
      else path_names (acc @ [c]) s)"

text \<open>The elements of a path in iteration order: the root directory, the file names, and an empty
  element for a trailing slash after a file name.\<close>

definition path_elems :: "string \<Rightarrow> string list" where
  "path_elems p =
     (if sv_starts_with p slash then [[slash]] else []) @ path_names [] p
     @ (if path_names [] p \<noteq> [] \<and> last p = slash then [[]] else [])"

text \<open>
  \<^verbatim>\<open>std::mismatch(base.begin(), base.end(), target.begin())\<close>: without an end of the
  second range, the elements of the target are read past their end when they are a proper
  prefix of the base's.
\<close>

datatype walk = ReachedEnd | Differs | PastEnd

fun mismatch :: "string list \<Rightarrow> string list \<Rightarrow> walk" where
  "mismatch [] ts = ReachedEnd"
| "mismatch (b # bs) [] = PastEnd"
| "mismatch (b # bs) (t # ts) = (if b = t then mismatch bs ts else Differs)"

text \<open>What a C function sees of \<^verbatim>\<open>full_path.c_str()\<close>.\<close>

definition c_str :: "string \<Rightarrow> string" where
  "c_str s = takeWhile (\<lambda>c. c \<noteq> CHR 0x00) s"

section \<open>The handler\<close>

text \<open>The path of the file, relative to the root: the index file for a directory, and without
  the leading slash.\<close>

definition relative_path :: "string \<Rightarrow> string \<Rightarrow> string" where
  "relative_path req_path index_file =
     (let req_path = (if req_path = [] \<or> last req_path = slash then req_path @ index_file else req_path)
      in if sv_starts_with req_path slash then drop 1 req_path else req_path)"

text \<open>Opening the file and the response with its content.\<close>

definition serve_file :: "'f environment \<Rightarrow> request \<Rightarrow> string \<Rightarrow> 'f response" where
  "serve_file env req full_path =
     (case open_file env (c_str full_path) of
        NoSuchFile \<Rightarrow> not_found (rq_version req) (rq_keep_alive req) not_found_message
      | OpenFailed m \<Rightarrow>
          internal_server_error (rq_version req) (rq_keep_alive req) internal_server_error_message
      | Opened body \<Rightarrow>
          (let res = set_body (FileBody body) (new_response OK (rq_version req));
               res = set_content_type (mime_type (std_hash env) (mime_buckets env) full_path) res;
               res = set_keep_alive (rq_keep_alive req) res
           in prepare_payload res))"

definition handle_static_request ::
  "'f environment \<Rightarrow> request \<Rightarrow> string \<Rightarrow> string \<Rightarrow> 'f response outcome" where
  "handle_static_request env req root_dir index_file =
     (case parse_origin_form env (rq_target req) of
        None \<Rightarrow> Returns (bad_request (rq_version req) (rq_keep_alive req)
                          ''400 Bad Request: Invalid URL format'')
      | Some uv \<Rightarrow>
          if list_ex (\<lambda>seg. seg = ''..'') (url_segments uv)
          then Returns (forbidden (rq_version req) (rq_keep_alive req) ''403 Forbidden: Illegal request-target'')
          else
            (case weakly_canonical env root_dir of
               Inl m \<Rightarrow> Throws m
             | Inr base_path \<Rightarrow>
                 (case weakly_canonical env (path_append base_path (relative_path (url_path uv) index_file)) of
                    Inl m \<Rightarrow> Throws m
                  | Inr target_path \<Rightarrow>
                      (case mismatch (path_elems base_path) (path_elems target_path) of
                         PastEnd \<Rightarrow> Undefined
                       | Differs \<Rightarrow> Returns (forbidden (rq_version req) (rq_keep_alive req)
                                      ''403 Forbidden: Path traversal attempt'')
                       | ReachedEnd \<Rightarrow> Returns (serve_file env req target_path)))))"

section \<open>Lemmas\<close>

lemma mismatch_end: "mismatch bs ts = ReachedEnd \<longleftrightarrow> prefix bs ts"
  by (induction bs ts rule: mismatch.induct) auto

lemma mismatch_past: "mismatch bs ts = PastEnd \<longleftrightarrow> strict_prefix ts bs"
  by (induction bs ts rule: mismatch.induct) auto

text \<open>What the handler works out before it looks at the file.\<close>

definition resolves :: "'f environment \<Rightarrow> request \<Rightarrow> string \<Rightarrow> string \<Rightarrow> string \<Rightarrow> string \<Rightarrow> bool" where
  "resolves env req root_dir index_file base target \<longleftrightarrow>
     (\<exists>uv. parse_origin_form env (rq_target req) = Some uv \<and> ''..'' \<notin> set (url_segments uv)
        \<and> weakly_canonical env root_dir = Inr base
        \<and> weakly_canonical env (path_append base (relative_path (url_path uv) index_file)) = Inr target)"

lemma resolves_unique:
  "resolves env req root_dir index_file base target \<Longrightarrow> resolves env req root_dir index_file b t \<Longrightarrow>
     b = base \<and> t = target"
  by (simp add: resolves_def) fastforce

lemma resolves_ex:
  assumes "resolves env req root_dir index_file base target"
  shows "(\<exists>b t. resolves env req root_dir index_file b t \<and> P b t) \<longleftrightarrow> P base target"
  using assms resolves_unique [OF assms] by blast

lemma handle_resolved:
  assumes "resolves env req root_dir index_file base target"
  shows "handle_static_request env req root_dir index_file =
    (case mismatch (path_elems base) (path_elems target) of
       PastEnd \<Rightarrow> Undefined
     | Differs \<Rightarrow> Returns (forbidden (rq_version req) (rq_keep_alive req) ''403 Forbidden: Path traversal attempt'')
     | ReachedEnd \<Rightarrow> Returns (serve_file env req target))"
  using assms by (auto simp: resolves_def handle_static_request_def list_ex_iff)

lemma handle_unresolved:
  assumes "\<nexists>base target. resolves env req root_dir index_file base target"
  obtains (bad) m where "handle_static_request env req root_dir index_file
      = Returns (bad_request (rq_version req) (rq_keep_alive req) m)"
  | (forbidden) m where "handle_static_request env req root_dir index_file
      = Returns (forbidden (rq_version req) (rq_keep_alive req) m)"
  | (throws) m where "handle_static_request env req root_dir index_file = Throws m"
proof (cases "handle_static_request env req root_dir index_file")
  case (Throws m)
  then show ?thesis by (rule throws)
next
  case (Returns res)
  then show ?thesis
    using assms bad forbidden
    by (auto simp: handle_static_request_def resolves_def list_ex_iff split: option.splits sum.splits if_splits)
next
  case Undefined
  then show ?thesis
    using assms
    by (auto simp: handle_static_request_def resolves_def list_ex_iff split: option.splits sum.splits if_splits)
qed

lemma serve_file_answers: "answers req (serve_file env req p)"
  by (auto simp: serve_file_def factory_defs answers_def response_defs error_response_def Let_def
      split: open_result.split)


text \<open>Every response answers the request, on the error branches as well.\<close>

lemma handle_answers:
  assumes "handle_static_request env req root_dir index_file = Returns res"
  shows "answers req res"
proof (cases "\<exists>base target. resolves env req root_dir index_file base target")
  case True
  then obtain base target where "resolves env req root_dir index_file base target" by blast
  from assms handle_resolved [OF this] show ?thesis
    by (cases "mismatch (path_elems base) (path_elems target)")
      (auto simp: factory_defs serve_file_answers)
next
  case False
  then show ?thesis by (rule handle_unresolved) (use assms in \<open>auto simp: factory_defs\<close>)
qed

lemma serve_file_body:
  "rs_body (serve_file env req p) = FileBody f \<longleftrightarrow> open_file env (c_str p) = Opened f"
  by (auto simp: serve_file_def factory_defs response_defs Let_def split: open_result.split)

lemma handle_file:
  assumes "handle_static_request env req root_dir index_file = Returns res" "rs_body res = FileBody f"
  shows "\<exists>base target. resolves env req root_dir index_file base target
    \<and> prefix (path_elems base) (path_elems target) \<and> open_file env (c_str target) = Opened f"
proof (cases "\<exists>base target. resolves env req root_dir index_file base target")
  case True
  then obtain base target where r: "resolves env req root_dir index_file base target" by blast
  from assms handle_resolved [OF r] show ?thesis
    unfolding resolves_ex [OF r] mismatch_end [symmetric]
    by (cases "mismatch (path_elems base) (path_elems target)") (auto simp: factory_defs serve_file_body)
next
  case False
  then show ?thesis by (rule handle_unresolved) (use assms in \<open>auto simp: factory_defs\<close>)
qed

lemma static_serves_iff:
  "(\<exists>res. handle_static_request env req root_dir index_file = Returns res
      \<and> rs_status res = OK \<and> rs_body res = FileBody f) \<longleftrightarrow>
   (\<exists>base target. resolves env req root_dir index_file base target
      \<and> prefix (path_elems base) (path_elems target)
      \<and> open_file env (c_str target) = Opened f)"
proof (cases "\<exists>base target. resolves env req root_dir index_file base target")
  case True
  then obtain base target where r: "resolves env req root_dir index_file base target" by blast
  have served: "(rs_status (serve_file env req target) = OK \<and> rs_body (serve_file env req target) = FileBody f)
      \<longleftrightarrow> open_file env (c_str target) = Opened f"
    by (simp add: serve_file_def factory_defs response_defs Let_def split: open_result.split)
  show ?thesis
    unfolding handle_resolved [OF r] resolves_ex [OF r] mismatch_end [symmetric]
    using served
    by (cases "mismatch (path_elems base) (path_elems target)") (simp_all add: factory_defs)
next
  case False
  then show ?thesis
    by (rule handle_unresolved) (use False in \<open>auto simp: factory_defs\<close>)
qed

section \<open>Properties\<close>

text \<open>A file system with the root \<open>/srv/public\<close> and one page, and a parser for three targets.\<close>

definition sample_env :: "string environment" where
  "sample_env =
     \<lparr>parse_origin_form = (\<lambda>t.
        if t = ''/'' then Some \<lparr>url_path = ''/'', url_segments = [[]]\<rparr>
        else if t = ''/..%2f.'' then Some \<lparr>url_path = ''/../.'', url_segments = [''../.'']\<rparr>
        else None),
      weakly_canonical = (\<lambda>p.
        if p = ''./public/'' then Inr ''/srv/public''
        else if p = ''/srv/public/../.'' then Inr ''/srv''
        else Inr p),
      open_file = (\<lambda>p. if p = ''/srv/public/index.html'' then Opened ''hello'' else NoSuchFile),
      std_hash = (\<lambda>s. of_nat (length s)), mime_buckets = 13\<rparr>"

definition sample_request :: "string \<Rightarrow> request" where
  "sample_request t = \<lparr>rq_version = 11, rq_keep_alive = True, rq_target = t\<rparr>"

text \<open>C11. A file is served exactly when the target parses, has no dot-dot segment, and resolves to
  a path that extends the canonical root element by element and opens; the response then
  carries that file.  (The path opened is the resolved one up to its first NUL byte, as for any
  C string.)\<close>

theorem static_serves_contained:
  "(\<exists>res. handle_static_request env req root_dir index_file = Returns res
      \<and> rs_status res = OK \<and> rs_body res = FileBody f) \<longleftrightarrow>
   (\<exists>base target. resolves env req root_dir index_file base target
      \<and> prefix (path_elems base) (path_elems target)
      \<and> open_file env (c_str target) = Opened f)"
  by (rule static_serves_iff)

theorem static_serves_contained_witness:
  "prefix (path_elems ''/srv/public'') (path_elems ''/srv/public/index.html'')"
proof -
  have "(case handle_static_request sample_env (sample_request ''/'') ''./public/'' ''index.html'' of
      Returns res \<Rightarrow> rs_status res = OK \<and> rs_body res = FileBody ''hello'' | _ \<Rightarrow> False)" by code_simp
  then have "\<exists>res. handle_static_request sample_env (sample_request ''/'') ''./public/'' ''index.html'' = Returns res
      \<and> rs_status res = OK \<and> rs_body res = FileBody ''hello''"
    by (simp split: outcome.splits)
  then obtain base target where r: "resolves sample_env (sample_request ''/'') ''./public/'' ''index.html'' base target"
    "prefix (path_elems base) (path_elems target)"
    unfolding static_serves_contained by blast
  from r(1) have "base = ''/srv/public'' \<and> target = ''/srv/public/index.html''"
    by (auto simp: resolves_def sample_env_def sample_request_def relative_path_def path_append_def sv_starts_with_def)
  with r(2) show ?thesis by simp
qed

text \<open>The comparison of the two paths reads past the end of the target exactly when the target
  resolves to a proper ancestor of the canonical root; nothing else in the handler is undefined.\<close>

lemma handle_undefined:
  "handle_static_request env req root_dir index_file = Undefined \<longleftrightarrow>
   (\<exists>base target. resolves env req root_dir index_file base target
      \<and> strict_prefix (path_elems target) (path_elems base))"
proof (cases "\<exists>base target. resolves env req root_dir index_file base target")
  case True
  then obtain base target where r: "resolves env req root_dir index_file base target" by blast
  show ?thesis
    unfolding handle_resolved [OF r] resolves_ex [OF r] mismatch_past [symmetric]
    by (cases "mismatch (path_elems base) (path_elems target)") simp_all
next
  case False
  then show ?thesis by (rule handle_unresolved) (use False in auto)
qed

end
