(* ===== verification/Route_Table.thy ===== *)
theory Route_Table
  imports Prelude "HOL-Library.List_Lexorder" "HOL-Library.Char_ord"
begin

text \<open>
  The route table of the server, a \<^verbatim>\<open>std::map<std::string, Handler>\<close>
  (\<^verbatim>\<open>src/HttpTypes.hpp\<close>), as an association list sorted by key, and the loop of
  \<^verbatim>\<open>HttpSession::process_request\<close> that selects the handler with the longest matching
  prefix.  What the loop needs of the table is the locale \<open>ordered_map\<close>.
\<close>

section \<open>The table\<close>

type_synonym 'h table = "(string \<times> 'h) list"

definition empty_table :: "'h table" where
  "empty_table = []"

text \<open>\<^verbatim>\<open>table[key] = handler\<close>.\<close>

fun assign :: "string \<Rightarrow> 'h \<Rightarrow> 'h table \<Rightarrow> 'h table" where
  "assign k h [] = [(k, h)]"
| "assign k h ((k', h') # kvs) =
     (if k < k' then (k, h) # (k', h') # kvs
      else if k = k' then (k, h) # kvs
      else (k', h') # assign k h kvs)"

definition table_ok :: "'h table \<Rightarrow> bool" where
  "table_ok t \<longleftrightarrow> sorted_wrt (<) (map fst t)"

section \<open>Longest prefix\<close>

text \<open>
  The loop from \<^verbatim>\<open>begin()\<close> to \<^verbatim>\<open>end()\<close>; \<open>matched\<close> is the iterator
  \<^verbatim>\<open>matched_it\<close>, with \<open>None\<close> for \<^verbatim>\<open>end()\<close>.  \<^verbatim>\<open>path.rfind(p, 0) == 0\<close> says that
  \<open>p\<close> is a prefix.
\<close>

fun select_loop ::
  "string \<Rightarrow> (string \<times> 'h) list \<Rightarrow> nat \<Rightarrow> (string \<times> 'h) option \<Rightarrow> (string \<times> 'h) option" where
  "select_loop path [] max_len matched = matched"
| "select_loop path ((route_prefix, h) # rest) max_len matched =
     (if prefix route_prefix path
      then if length route_prefix > max_len
           then select_loop path rest (length route_prefix) (Some (route_prefix, h))
           else select_loop path rest max_len matched
      else select_loop path rest max_len matched)"

definition select :: "string \<Rightarrow> (string \<times> 'h) list \<Rightarrow> (string \<times> 'h) option" where
  "select path routes = select_loop path routes 0 None"

text \<open>The entry the loop is to find.\<close>

definition longest :: "string \<Rightarrow> (string \<rightharpoonup> 'h) \<Rightarrow> string \<Rightarrow> 'h \<Rightarrow> bool" where
  "longest path m k h \<longleftrightarrow>
     m k = Some h \<and> k \<noteq> [] \<and> prefix k path
     \<and> (\<forall>k'\<in>dom m. prefix k' path \<longrightarrow> length k' \<le> length k)"

lemma select_loop_Some:
  assumes "select_loop path kvs n x = Some (k, h)" "\<And>k h. x = Some (k, h) \<Longrightarrow> length k = n \<and> prefix k path \<and> k \<noteq> []"
  shows "(x = Some (k, h) \<or> (k, h) \<in> set kvs) \<and> prefix k path \<and> k \<noteq> [] \<and> n \<le> length k
    \<and> (\<forall>(k', h')\<in>set kvs. prefix k' path \<longrightarrow> length k' \<le> length k)"
  using assms
proof (induction path kvs n x rule: select_loop.induct)
  case (1 path n x)
  then show ?case by auto
next
  case (2 path p g rest n x)
  consider (longer) "prefix p path" "n < length p" | (not) "\<not> (prefix p path \<and> n < length p)" by blast
  then show ?case
  proof cases
    case longer
    with "2.prems"(1) have "select_loop path rest (length p) (Some (p, g)) = Some (k, h)" by simp
    from "2.IH"(1) [OF longer this] longer show ?thesis by fastforce
  next
    case not
    with "2.prems"(1) have "select_loop path rest n x = Some (k, h)" by (auto split: if_splits)
    then have "(x = Some (k, h) \<or> (k, h) \<in> set rest) \<and> prefix k path \<and> k \<noteq> [] \<and> n \<le> length k
        \<and> (\<forall>(k', h')\<in>set rest. prefix k' path \<longrightarrow> length k' \<le> length k)"
      using "2.IH"(2) "2.IH"(3) "2.prems"(2) not by (cases "prefix p path") blast+
    with not show ?thesis by fastforce
  qed
qed

lemma select_loop_None:
  "select_loop path kvs n x = None \<longleftrightarrow> x = None \<and> (\<forall>(k, h)\<in>set kvs. prefix k path \<longrightarrow> length k \<le> n)"
  by (induction path kvs n x rule: select_loop.induct) auto

section \<open>The interface\<close>

locale ordered_map =
  fixes empty :: 't
    and update :: "string \<Rightarrow> 'h \<Rightarrow> 't \<Rightarrow> 't"
    and items :: "'t \<Rightarrow> (string \<times> 'h) list"
    and invar :: "'t \<Rightarrow> bool"
  assumes invar_empty: "invar empty"
    and items_empty: "items empty = []"
    and invar_update: "invar t \<Longrightarrow> invar (update k h t)"
    and distinct_items: "invar t \<Longrightarrow> distinct (map fst (items t))"
    and items_update: "invar t \<Longrightarrow> map_of (items (update k h t)) = (map_of (items t))(k \<mapsto> h)"
begin

text \<open>A sequence of assignments leaves the last handler of each key.\<close>

abbreviation update_all :: "(string \<times> 'h) list \<Rightarrow> 't \<Rightarrow> 't" where
  "update_all kvs t \<equiv> foldl (\<lambda>t (k, h). update k h t) t kvs"

lemma invar_update_all: "invar t \<Longrightarrow> invar (update_all kvs t)"
  by (induction kvs arbitrary: t) (auto intro: invar_update)

lemma items_update_all:
  "invar t \<Longrightarrow> map_of (items (update_all kvs t)) = map_of (items t) ++ map_of (rev kvs)"
proof (induction kvs arbitrary: t)
  case (Cons a kvs)
  obtain k h where a: "a = (k, h)" by (cases a)
  from Cons.IH [OF invar_update [OF Cons.prems, of k h]] items_update [OF Cons.prems, of k h] show ?case
    by (auto simp: a fun_eq_iff map_add_def split: option.splits)
qed simp

lemma select_longest:
  assumes "invar t"
  shows "select path (items t) = Some (k, h) \<longleftrightarrow> longest path (map_of (items t)) k h"
proof
  have mem: "(a, b) \<in> set (items t) \<longleftrightarrow> map_of (items t) a = Some b" for a b
    using distinct_items [OF assms] by simp
  {
    assume "select path (items t) = Some (k, h)"
    from select_loop_Some [OF this [unfolded select_def]] show "longest path (map_of (items t)) k h"
      by (auto simp: longest_def mem dom_def)
  next
    assume l: "longest path (map_of (items t)) k h"
    then have "select path (items t) \<noteq> None"
      by (auto simp: longest_def select_def select_loop_None simp flip: mem)
    then obtain k' h' where s: "select path (items t) = Some (k', h')" by auto
    from select_loop_Some [OF this [unfolded select_def]] have
      "map_of (items t) k' = Some h'" "prefix k' path" "\<forall>a b. map_of (items t) a = Some b \<longrightarrow> prefix a path \<longrightarrow> length a \<le> length k'"
      by (auto simp: mem)
    with l have "length k = length k'" "prefix k path"
      by (auto simp: longest_def dom_def intro!: le_antisym)
    with \<open>prefix k' path\<close> have "k = k'" by (auto simp: prefix_def)
    with s l \<open>map_of (items t) k' = Some h'\<close> show "select path (items t) = Some (k, h)"
      by (simp add: longest_def)
  }
qed

lemma select_nothing:
  assumes "invar t"
  shows "select path (items t) = None \<longleftrightarrow> (\<forall>k\<in>dom (map_of (items t)). prefix k path \<longrightarrow> k = [])"
  by (auto simp: select_def select_loop_None dom_map_of_conv_image_fst)

end

text \<open>The sorted association list is such a map.\<close>

lemma keys_assign: "set (map fst (assign k h t)) = insert k (set (map fst t))"
  by (induction k h t rule: assign.induct) auto

lemma table_ok_assign: "table_ok t \<Longrightarrow> table_ok (assign k h t)"
proof (induction k h t rule: assign.induct)
  case (2 k h k' h' kvs)
  then have "\<forall>x\<in>set (map fst (assign k h kvs)). k' < x" if "k' < k"
    unfolding keys_assign using that by (simp add: table_ok_def)
  with 2 show ?case by (auto simp: table_ok_def dest: less_trans)
qed (simp add: table_ok_def)

lemma map_of_assign: "map_of (assign k h t) = (map_of t)(k \<mapsto> h)"
  by (induction k h t rule: assign.induct) (auto simp: fun_eq_iff)

interpretation route_table: ordered_map empty_table assign "\<lambda>t. t" table_ok
proof (unfold_locales, goal_cases)
  case (4 t)
  then show ?case by (simp add: table_ok_def strict_sorted_iff)
qed (simp_all add: empty_table_def table_ok_def [of "[]"] table_ok_assign map_of_assign)

end
