(* ===== verification/Session.thy ===== *)
theory Session
  imports Static_Files Route_Table
begin

text \<open>
  \<^verbatim>\<open>src/HttpSession.cpp\<close>: one connection as a state machine.  The state holds the member
  \<^verbatim>\<open>request_\<close> (\<open>None\<close> is the empty message of the constructor), whether the deadline of
  the stream is armed, the asynchronous operations that are outstanding, and, as
  history, the requests processed and the responses handed to \<^verbatim>\<open>async_write\<close>.  The
  completion handlers are functions on the state; \<open>session_step\<close> lets any outstanding
  operation complete with success or an error.

  The documentation of Boost.Beast leaves a read into a message that is not empty undefined.
  A request that such a read delivers is what \<^verbatim>\<open>request_\<close> then holds, whatever became of its
  old contents; and as long as it is outstanding it may also turn the behaviour of the process
  undefined, which is the event \<open>ReadUndefined\<close>.
\<close>

section \<open>State and handlers\<close>

text \<open>An outstanding read remembers whether it was started on an empty message.\<close>

datatype 'f op = AsyncRead bool | AsyncWrite "'f response" bool

record 'f session =
  s_request :: "request option"
  s_deadline :: bool
  s_pending :: "'f op list"
  s_processed :: "request list"
  s_written :: "'f response list"
  s_undefined :: bool
  s_misread :: bool

text \<open>The behaviour is undefined: that of a handler, or that of a read into a used message.\<close>

definition lost :: "'f session \<Rightarrow> bool" where
  "lost s \<longleftrightarrow> s_undefined s \<or> s_misread s"

definition new_session :: "'f session" where
  "new_session =
     \<lparr>s_request = None, s_deadline = False, s_pending = [], s_processed = [], s_written = [],
      s_undefined = False, s_misread = False\<rparr>"

definition read_request :: "'f session \<Rightarrow> 'f session" where
  "read_request s = s\<lparr>s_pending := s_pending s @ [AsyncRead (s_request s = None)]\<rparr>"

definition start :: "'f session \<Rightarrow> 'f session" where
  "start s = read_request s"

text \<open>
  Routing and calling a handler.  \<open>parse\<close> is \<^verbatim>\<open>parse_origin_form\<close>, \<open>call\<close> applies a
  handler of the table.  The message is first the error of the declaration, then that of
  the handler, the exception handler or the miss.
\<close>

definition request_path :: "(string \<Rightarrow> url option) \<Rightarrow> request \<Rightarrow> string" where
  "request_path parse req =
     (case parse (rq_target req) of Some parsed \<Rightarrow> url_path parsed | None \<Rightarrow> rq_target req)"

definition respond ::
  "(string \<Rightarrow> url option) \<Rightarrow> ('h \<Rightarrow> request \<Rightarrow> 'f response outcome) \<Rightarrow> (string \<times> 'h) list \<Rightarrow>
   request \<Rightarrow> 'f response outcome" where
  "respond parse call routes req =
     (case select (request_path parse req) routes of
        Some (_, handler) \<Rightarrow>
          (case call handler req of
             Returns msg \<Rightarrow> Returns msg
           | Throws e \<Rightarrow>
               Returns (internal_server_error (rq_version req) (rq_keep_alive req) ''Internal Server Error'')
           | Undefined \<Rightarrow> Undefined)
      | None \<Rightarrow> Returns (not_found (rq_version req) (rq_keep_alive req) ''404 Not Found''))"

definition process_request ::
  "(string \<Rightarrow> url option) \<Rightarrow> ('h \<Rightarrow> request \<Rightarrow> 'f response outcome) \<Rightarrow> (string \<times> 'h) list \<Rightarrow>
   request \<Rightarrow> 'f session \<Rightarrow> 'f session" where
  "process_request parse call routes req s =
     (let s = s\<lparr>s_deadline := True, s_processed := s_processed s @ [req]\<rparr>;
          keep_alive = rq_keep_alive req
      in case respond parse call routes req of
           Returns msg \<Rightarrow>
             s\<lparr>s_pending := s_pending s @ [AsyncWrite msg keep_alive], s_written := s_written s @ [msg]\<rparr>
         | _ \<Rightarrow> s\<lparr>s_undefined := True\<rparr>)"

text \<open>The completion of a read: an error, or success with the request in \<^verbatim>\<open>request_\<close>.\<close>

definition on_read ::
  "(string \<Rightarrow> url option) \<Rightarrow> ('h \<Rightarrow> request \<Rightarrow> 'f response outcome) \<Rightarrow> (string \<times> 'h) list \<Rightarrow>
   request option \<Rightarrow> 'f session \<Rightarrow> 'f session" where
  "on_read parse call routes result s =
     (case result of
        Some req \<Rightarrow> process_request parse call routes req (s\<lparr>s_request := Some req\<rparr>)
      | None \<Rightarrow> s)"

definition on_write :: "bool \<Rightarrow> bool \<Rightarrow> 'f session \<Rightarrow> 'f session" where
  "on_write ok keep_alive s = (if ok \<and> keep_alive then read_request s else s)"

section \<open>Steps\<close>

datatype event = ReadDone request | ReadFailed | ReadUndefined | WriteDone | WriteFailed

definition finished :: "'f op \<Rightarrow> 'f session \<Rightarrow> 'f session" where
  "finished x s = s\<lparr>s_pending := remove1 x (s_pending s)\<rparr>"

inductive session_step ::
  "(string \<Rightarrow> url option) \<Rightarrow> ('h \<Rightarrow> request \<Rightarrow> 'f response outcome) \<Rightarrow> (string \<times> 'h) list \<Rightarrow>
   'f session \<Rightarrow> event \<Rightarrow> 'f session \<Rightarrow> bool"
  for parse :: "string \<Rightarrow> url option" and call :: "'h \<Rightarrow> request \<Rightarrow> 'f response outcome"
    and routes :: "(string \<times> 'h) list" where
  read_done: "\<not> lost s \<Longrightarrow> AsyncRead e \<in> set (s_pending s) \<Longrightarrow>
    session_step parse call routes s (ReadDone req)
      (on_read parse call routes (Some req) (finished (AsyncRead e) s))"
| read_failed: "\<not> lost s \<Longrightarrow> AsyncRead e \<in> set (s_pending s) \<Longrightarrow>
    session_step parse call routes s ReadFailed
      (on_read parse call routes None (finished (AsyncRead e) s))"
| read_undefined: "\<not> lost s \<Longrightarrow> AsyncRead False \<in> set (s_pending s) \<Longrightarrow>
    session_step parse call routes s ReadUndefined ((finished (AsyncRead False) s)\<lparr>s_misread := True\<rparr>)"
| write_done: "\<not> lost s \<Longrightarrow> AsyncWrite msg ka \<in> set (s_pending s) \<Longrightarrow>
    session_step parse call routes s WriteDone (on_write True ka (finished (AsyncWrite msg ka) s))"
| write_failed: "\<not> lost s \<Longrightarrow> AsyncWrite msg ka \<in> set (s_pending s) \<Longrightarrow>
    session_step parse call routes s WriteFailed (on_write False ka (finished (AsyncWrite msg ka) s))"

inductive session_run ::
  "(string \<Rightarrow> url option) \<Rightarrow> ('h \<Rightarrow> request \<Rightarrow> 'f response outcome) \<Rightarrow> (string \<times> 'h) list \<Rightarrow>
   event list \<Rightarrow> 'f session \<Rightarrow> bool"
  for parse :: "string \<Rightarrow> url option" and call :: "'h \<Rightarrow> request \<Rightarrow> 'f response outcome"
    and routes :: "(string \<times> 'h) list" where
  run_start: "session_run parse call routes [] (start new_session)"
| run_step: "session_run parse call routes evs s \<Longrightarrow> session_step parse call routes s ev s' \<Longrightarrow>
    session_run parse call routes (evs @ [ev]) s'"

inductive_cases session_stepE: "session_step parse call routes s ev s'"

text \<open>The steps as a function, for a session with at most one outstanding operation.\<close>

fun session_exec ::
  "(string \<Rightarrow> url option) \<Rightarrow> ('h \<Rightarrow> request \<Rightarrow> 'f response outcome) \<Rightarrow> (string \<times> 'h) list \<Rightarrow>
   'f session \<Rightarrow> event \<Rightarrow> 'f session option" where
  "session_exec parse call routes s ev =
     (if lost s then None
      else case (ev, s_pending s) of
        (ReadDone req, AsyncRead e # ops) \<Rightarrow>
          Some (on_read parse call routes (Some req) (finished (AsyncRead e) s))
      | (ReadFailed, AsyncRead e # ops) \<Rightarrow>
          Some (on_read parse call routes None (finished (AsyncRead e) s))
      | (ReadUndefined, AsyncRead e # ops) \<Rightarrow>
          if e then None else Some ((finished (AsyncRead e) s)\<lparr>s_misread := True\<rparr>)
      | (WriteDone, AsyncWrite msg ka # ops) \<Rightarrow> Some (on_write True ka (finished (AsyncWrite msg ka) s))
      | (WriteFailed, AsyncWrite msg ka # ops) \<Rightarrow> Some (on_write False ka (finished (AsyncWrite msg ka) s))
      | _ \<Rightarrow> None)"

fun session_execs ::
  "(string \<Rightarrow> url option) \<Rightarrow> ('h \<Rightarrow> request \<Rightarrow> 'f response outcome) \<Rightarrow> (string \<times> 'h) list \<Rightarrow>
   'f session \<Rightarrow> event list \<Rightarrow> 'f session option" where
  "session_execs parse call routes s [] = Some s"
| "session_execs parse call routes s (ev # evs) =
     (case session_exec parse call routes s ev of
        None \<Rightarrow> None
      | Some s' \<Rightarrow> session_execs parse call routes s' evs)"

section \<open>The handlers' contract\<close>

text \<open>What the session relies on: a handler's response answers the request.\<close>

locale request_handler =
  fixes call :: "'h \<Rightarrow> request \<Rightarrow> 'f response outcome"
  assumes call_answers: "call h req = Returns res \<Longrightarrow> answers req res"
begin

lemma respond_answers: "respond parse call routes req = Returns msg \<Longrightarrow> answers req msg"
  by (auto simp: respond_def factory_defs split: option.splits outcome.splits dest: call_answers)

end

lemma respond_total: "respond parse call routes req \<noteq> Throws m"
  by (auto simp: respond_def split: option.splits outcome.splits)

section \<open>The invariant\<close>

definition answered ::
  "(string \<Rightarrow> url option) \<Rightarrow> ('h \<Rightarrow> request \<Rightarrow> 'f response outcome) \<Rightarrow> (string \<times> 'h) list \<Rightarrow>
   request list \<Rightarrow> 'f response list \<Rightarrow> bool" where
  "answered parse call routes reqs msgs \<longleftrightarrow>
     list_all2 (\<lambda>req msg. respond parse call routes req = Returns msg) reqs msgs"

definition running :: "'f session \<Rightarrow> bool" where
  "running s \<longleftrightarrow>
     s_pending s = []
     \<or> s_pending s = [AsyncRead (s_processed s = [])] \<and> (\<forall>r\<in>set (s_processed s). rq_keep_alive r)
     \<or> s_processed s \<noteq> []
       \<and> s_pending s = [AsyncWrite (last (s_written s)) (rq_keep_alive (last (s_processed s)))]"

definition session_inv ::
  "(string \<Rightarrow> url option) \<Rightarrow> ('h \<Rightarrow> request \<Rightarrow> 'f response outcome) \<Rightarrow> (string \<times> 'h) list \<Rightarrow>
   'f session \<Rightarrow> bool" where
  "session_inv parse call routes s \<longleftrightarrow>
     (s_deadline s \<longleftrightarrow> s_processed s \<noteq> [])
     \<and> s_request s = (if s_processed s = [] then None else Some (last (s_processed s)))
     \<and> (\<forall>r\<in>set (butlast (s_processed s)). rq_keep_alive r)
     \<and> (if s_undefined s
        then s_pending s = [] \<and> s_processed s \<noteq> []
          \<and> answered parse call routes (butlast (s_processed s)) (s_written s)
        else answered parse call routes (s_processed s) (s_written s) \<and> running s)"

lemma session_inv_start: "session_inv parse call routes (start new_session)"
  by (simp add: session_inv_def running_def answered_def start_def read_request_def new_session_def)

lemma session_inv_step:
  assumes "session_step parse call routes s ev s'" "session_inv parse call routes s"
  shows "session_inv parse call routes s'"
  using assms(1)
proof (cases rule: session_step.cases)
  case (read_done e req)
  with assms(2) have "\<forall>r\<in>set (s_processed s). rq_keep_alive r" "s_pending s = [AsyncRead e]"
    "answered parse call routes (s_processed s) (s_written s)"
    by (auto simp: lost_def session_inv_def running_def)
  with read_done show ?thesis
    by (cases "respond parse call routes req")
      (auto simp: on_read_def process_request_def finished_def lost_def session_inv_def running_def
        answered_def respond_total intro!: list_all2_appendI)
next
  case (read_failed e)
  with assms(2) show ?thesis
    by (auto simp: on_read_def finished_def lost_def session_inv_def running_def)
next
  case read_undefined
  with assms(2) show ?thesis
    by (auto simp: finished_def lost_def session_inv_def running_def)
next
  case (write_done msg ka)
  with assms(2) have w: "s_processed s \<noteq> []" "s_pending s = [AsyncWrite msg ka]" "ka = rq_keep_alive (last (s_processed s))"
    by (auto simp: lost_def session_inv_def running_def)
  have "set (s_processed s) = insert (last (s_processed s)) (set (butlast (s_processed s)))"
    using w(1) by (metis append_butlast_last_id list.set(2) list.simps(15) rotate1.simps(2) set_rotate1)
  with write_done w assms(2) show ?thesis
    by (auto simp: on_write_def read_request_def finished_def lost_def session_inv_def running_def)
next
  case (write_failed msg ka)
  with assms(2) show ?thesis
    by (auto simp: on_write_def finished_def lost_def session_inv_def running_def)
qed

lemma session_run_inv: "session_run parse call routes evs s \<Longrightarrow> session_inv parse call routes s"
  by (induction rule: session_run.induct) (auto intro: session_inv_start session_inv_step)

lemma running_pending: "session_run parse call routes evs s \<Longrightarrow> s_pending s = [] \<or> (\<exists>x. s_pending s = [x])"
  using session_run_inv [of parse call routes evs s]
  by (auto simp: session_inv_def running_def split: if_splits)

text \<open>The relation and the function agree.\<close>

lemma session_step_exec:
  assumes "s_pending s = [] \<or> (\<exists>x. s_pending s = [x])"
  shows "session_step parse call routes s ev s' \<longleftrightarrow> session_exec parse call routes s ev = Some s'"
proof
  assume "session_step parse call routes s ev s'"
  then show "session_exec parse call routes s ev = Some s'"
    using assms by (cases rule: session_step.cases) auto
next
  assume "session_exec parse call routes s ev = Some s'"
  then show "session_step parse call routes s ev s'"
    using assms
    by (auto intro: session_step.intros split: event.splits list.splits op.splits if_splits)
qed

text \<open>The requests processed are those of the events.\<close>

definition requests :: "event list \<Rightarrow> request list" where
  "requests evs = concat (map (\<lambda>ev. case ev of ReadDone req \<Rightarrow> [req] | _ \<Rightarrow> []) evs)"

lemma processed_requests: "session_run parse call routes evs s \<Longrightarrow> s_processed s = requests evs"
proof (induction rule: session_run.induct)
  case run_start
  then show ?case by (simp add: requests_def start_def read_request_def new_session_def)
next
  case (run_step evs s ev s')
  then show ?case
    by (auto simp: requests_def on_read_def on_write_def process_request_def read_request_def finished_def Let_def
        elim!: session_stepE split: outcome.split)
qed

lemma session_execs_snoc:
  "session_execs parse call routes s (evs @ [ev]) =
     (case session_execs parse call routes s evs of
        None \<Rightarrow> None | Some s' \<Rightarrow> session_exec parse call routes s' ev)"
  by (induction evs arbitrary: s) (simp_all split: option.split)


lemma session_run_exec:
  "session_run parse call routes evs s \<longleftrightarrow> session_execs parse call routes (start new_session) evs = Some s"
proof
  assume "session_run parse call routes evs s"
  then show "session_execs parse call routes (start new_session) evs = Some s"
  proof (induction rule: session_run.induct)
    case (run_step evs s ev s')
    from run_step.hyps(2) have "session_exec parse call routes s ev = Some s'"
      unfolding session_step_exec [OF running_pending [OF run_step.hyps(1)]] .
    with run_step.IH show ?case by (simp add: session_execs_snoc del: session_exec.simps)
  qed simp
next
  assume "session_execs parse call routes (start new_session) evs = Some s"
  then show "session_run parse call routes evs s"
  proof (induction evs arbitrary: s rule: rev_induct)
    case Nil
    then show ?case by (auto intro: run_start)
  next
    case (snoc ev evs)
    then obtain s' where s': "session_run parse call routes evs s'" "session_exec parse call routes s' ev = Some s"
      by (auto simp: session_execs_snoc simp del: session_exec.simps split: option.splits)
    then show ?case
      using session_step_exec [OF running_pending [OF s'(1)]] by (blast intro: run_step)
  qed
qed

lemma list_all2_member: "list_all2 P xs ys \<Longrightarrow> y \<in> set ys \<Longrightarrow> \<exists>x\<in>set xs. P x y"
  by (induction rule: list_all2_induct) auto

text \<open>Whatever was written answers a request that was read.\<close>

lemma session_written_from:
  assumes "session_run parse call routes evs s" "msg \<in> set (s_written s)"
  shows "\<exists>req\<in>set (requests evs). respond parse call routes req = Returns msg"
proof -
  have "answered parse call routes (if s_undefined s then butlast (requests evs) else requests evs) (s_written s)"
    using session_run_inv [OF assms(1)] processed_requests [OF assms(1)]
    by (simp add: session_inv_def split: if_splits)
  from list_all2_member [OF this [unfolded answered_def] assms(2)] show ?thesis
    by (auto dest: in_set_butlastD split: if_splits)
qed

section \<open>Properties\<close>

text \<open>A table with two handlers, and a client that keeps the connection and then closes it.\<close>

definition two_routes :: "(string \<times> bool) list" where
  "two_routes = assign ''/boom'' False (assign ''/'' True empty_table)"

definition sample_call :: "bool \<Rightarrow> request \<Rightarrow> string response outcome" where
  "sample_call fine req =
     (if fine then Returns (not_found (rq_version req) (rq_keep_alive req) ''served'') else Throws ''boom'')"

definition keep :: "string \<Rightarrow> request" where
  "keep t = \<lparr>rq_version = 11, rq_keep_alive = True, rq_target = t\<rparr>"

definition close :: "string \<Rightarrow> request" where
  "close t = \<lparr>rq_version = 11, rq_keep_alive = False, rq_target = t\<rparr>"

definition sample_events :: "event list" where
  "sample_events = [ReadDone (keep ''/a''), WriteDone, ReadDone (close ''/boom/x'')]"

definition sample_run :: "string session" where
  "sample_run = the (session_execs (\<lambda>_. None) sample_call two_routes (start new_session) sample_events)"

lemma sample_session: "session_run (\<lambda>_. None) sample_call two_routes sample_events sample_run"
proof -
  have "(case session_execs (\<lambda>_. None) sample_call two_routes (start new_session) sample_events of
      None \<Rightarrow> False | Some _ \<Rightarrow> True)" by code_simp
  then have "session_execs (\<lambda>_. None) sample_call two_routes (start new_session) sample_events = Some sample_run"
    by (auto simp: sample_run_def split: option.splits)
  then show ?thesis unfolding session_run_exec .
qed

text \<open>A connection never has more than one asynchronous operation outstanding, so the members
  of the session are never used by two of them at once.\<close>

lemma session_one_operation:
  assumes "session_run parse call routes evs s"
  shows "length (s_pending s) \<le> 1"
  using running_pending [OF assms] by auto

text \<open>A request that does not ask to keep the connection is the last one: a read is outstanding
  only while every request so far asked for it, and only the last request of a run may not
  have done so.\<close>

lemma session_keep_alive:
  assumes "session_run parse call routes evs s"
  shows "(\<forall>r\<in>set (butlast (requests evs)). rq_keep_alive r)
    \<and> (AsyncRead e \<in> set (s_pending s) \<longrightarrow> (\<forall>r\<in>set (requests evs). rq_keep_alive r))"
  using session_run_inv [OF assms] processed_requests [OF assms]
  by (auto simp: session_inv_def running_def split: if_splits)

text \<open>The first read of a connection has no deadline, since the deadline is armed only when a
  request is processed; and every later read is started on the message of the request
  before, which is not cleared.\<close>

lemma session_reads:
  assumes "session_run parse call routes evs s" "AsyncRead e \<in> set (s_pending s)"
  shows "(s_deadline s \<longleftrightarrow> requests evs \<noteq> []) \<and> (e \<longleftrightarrow> requests evs = [])
    \<and> (requests evs \<noteq> [] \<longrightarrow> s_request s = Some (last (requests evs)))"
  using session_run_inv [OF assms(1)] processed_requests [OF assms(1)] assms(2)
  by (auto simp: session_inv_def running_def split: if_splits)

text \<open>C14. The responses written are those to the requests read, one for each and in order; only
  undefined behaviour in a handler leaves a request that was read unanswered.  At most one operation
  is outstanding; a read only while every request asked to keep the connection, and from
  the second on it is started on the message of the request before, which is not cleared.\<close>

theorem session_answers_in_order:
  assumes "session_run parse call routes evs s"
  shows "list_all2 (\<lambda>req msg. respond parse call routes req = Returns msg)
      (if s_undefined s then butlast (requests evs) else requests evs) (s_written s)
    \<and> length (s_pending s) \<le> 1
    \<and> (\<forall>e. AsyncRead e \<in> set (s_pending s) \<longrightarrow> (\<forall>r\<in>set (requests evs). rq_keep_alive r)
          \<and> (e \<longleftrightarrow> requests evs = []) \<and> (requests evs \<noteq> [] \<longrightarrow> s_request s = Some (last (requests evs))))"
proof -
  have "list_all2 (\<lambda>req msg. respond parse call routes req = Returns msg)
      (if s_undefined s then butlast (requests evs) else requests evs) (s_written s)"
    using session_run_inv [OF assms] processed_requests [OF assms]
    by (simp add: session_inv_def answered_def split: if_splits)
  with session_one_operation [OF assms] session_keep_alive [OF assms] session_reads [OF assms] show ?thesis by blast
qed

theorem session_answers_in_order_witness:
  "map rs_status (s_written sample_run) = [NotFound, InternalServerError]"
proof -
  have "\<not> s_undefined sample_run" "requests sample_events = [keep ''/a'', close ''/boom/x'']"
    by code_simp+
  with session_answers_in_order [OF sample_session, THEN conjunct1] obtain a b where
    "s_written sample_run = [a, b]" "respond (\<lambda>_. None) sample_call two_routes (keep ''/a'') = Returns a"
    "respond (\<lambda>_. None) sample_call two_routes (close ''/boom/x'') = Returns b"
    by (auto simp: list_all2_Cons1)
  moreover have "(case respond (\<lambda>_. None) sample_call two_routes (keep ''/a'') of
      Returns a \<Rightarrow> rs_status a = NotFound | _ \<Rightarrow> False)"
    "(case respond (\<lambda>_. None) sample_call two_routes (close ''/boom/x'') of
      Returns b \<Rightarrow> rs_status b = InternalServerError | _ \<Rightarrow> False)" by code_simp+
  ultimately show ?thesis by simp
qed

text \<open>Progress: after a read or a write that succeeded, either the next operation is
  outstanding, or the last request did not ask to keep the connection, or a handler's
  behaviour was undefined.\<close>

lemma session_progress:
  assumes "session_run parse call routes (evs @ [ev]) s" "ev = WriteDone \<or> (\<exists>req. ev = ReadDone req)"
  shows "s_pending s \<noteq> [] \<or> s_undefined s \<or> \<not> rq_keep_alive (last (requests evs))"
proof -
  from assms(1) obtain s0 where s0: "session_run parse call routes evs s0" "session_step parse call routes s0 ev s"
    by (cases rule: session_run.cases) auto
  note inv = session_run_inv [OF s0(1)] processed_requests [OF s0(1)]
  from s0(2) show ?thesis
  proof (cases rule: session_step.cases)
    case (read_done e req)
    then show ?thesis
      by (auto simp: on_read_def process_request_def finished_def Let_def split: outcome.split)
  next
    case (read_failed e)
    with assms(2) show ?thesis by simp
  next
    case read_undefined
    with assms(2) show ?thesis by simp
  next
    case (write_done msg ka)
    with inv have "ka = rq_keep_alive (last (requests evs))"
      by (auto simp: lost_def session_inv_def running_def)
    with write_done show ?thesis by (auto simp: on_write_def read_request_def)
  next
    case (write_failed msg ka)
    with assms(2) show ?thesis by simp
  qed
qed

text \<open>C17. Dispatch: a request goes to the handler registered under the longest non-empty prefix of
  its decoded path (of its raw target when that does not parse), an exception of the handler
  becomes a 500 response, and a path without such a prefix gets a 404 response.\<close>

theorem respond_dispatch:
  assumes "table_ok routes"
  shows "(longest (request_path parse req) (map_of routes) k h \<longrightarrow>
      respond parse call routes req =
        (case call h req of
           Throws e \<Rightarrow> Returns (internal_server_error (rq_version req) (rq_keep_alive req) ''Internal Server Error'')
         | x \<Rightarrow> x))
    \<and> ((\<forall>k\<in>dom (map_of routes). prefix k (request_path parse req) \<longrightarrow> k = []) \<longrightarrow>
      respond parse call routes req = Returns (not_found (rq_version req) (rq_keep_alive req) ''404 Not Found''))"
  using route_table.select_longest [OF assms, of "request_path parse req" k h]
    route_table.select_nothing [OF assms, of "request_path parse req"]
  by (auto simp: respond_def)

theorem respond_dispatch_witness:
  "respond (\<lambda>_. None) sample_call two_routes (keep ''/boom/x'')
     = Returns (internal_server_error 11 True ''Internal Server Error'')"
proof -
  have "table_ok two_routes"
    unfolding two_routes_def by (intro table_ok_assign) (simp add: empty_table_def table_ok_def)
  moreover have "longest (request_path (\<lambda>_. None) (keep ''/boom/x'')) (map_of two_routes) ''/boom'' False"
    by (auto simp: longest_def request_path_def keep_def two_routes_def map_of_assign empty_table_def)
  ultimately show ?thesis
    using respond_dispatch [of two_routes "\<lambda>_. None" "keep ''/boom/x''" "''/boom''" False sample_call]
    by (simp add: sample_call_def keep_def)
qed

end
