(* ===== verification/Session_Machine.thy ===== *)
theory Session_Machine
  imports Session Refinement
begin

text \<open>
  A connection as its peer sees it: it awaits a request, sends a response, is closed, or is
  lost to undefined behaviour, in a handler or in a read
  into the message of the request before.  The buffers, the deadline, the list of
  outstanding operations and the histories of \<^verbatim>\<open>src/HttpSession.cpp\<close> are gone; the
  connections of \<open>Session\<close> are shown to refine this machine exactly.
\<close>

section \<open>The specification\<close>

text \<open>A connection that awaits a request knows whether it is the first.\<close>

datatype phase = Awaiting bool | Sending bool | Closed | Lost

record 'f connection =
  c_phase :: phase
  c_sent :: "'f response list"

definition new_connection :: "'f connection" where
  "new_connection = \<lparr>c_phase = Awaiting True, c_sent = []\<rparr>"

fun conn_next ::
  "(string \<Rightarrow> url option) \<Rightarrow> ('h \<Rightarrow> request \<Rightarrow> 'f response outcome) \<Rightarrow> (string \<times> 'h) list \<Rightarrow>
   'f connection \<Rightarrow> event \<Rightarrow> 'f connection option" where
  "conn_next parse call routes c ev =
     (case (c_phase c, ev) of
        (Awaiting first, ReadDone req) \<Rightarrow>
          Some (case respond parse call routes req of
                  Returns msg \<Rightarrow> \<lparr>c_phase = Sending (rq_keep_alive req), c_sent = c_sent c @ [msg]\<rparr>
                | _ \<Rightarrow> c\<lparr>c_phase := Lost\<rparr>)
      | (Awaiting first, ReadFailed) \<Rightarrow> Some (c\<lparr>c_phase := Closed\<rparr>)
      | (Awaiting first, ReadUndefined) \<Rightarrow> if first then None else Some (c\<lparr>c_phase := Lost\<rparr>)
      | (Sending keep_alive, WriteDone) \<Rightarrow> Some (c\<lparr>c_phase := (if keep_alive then Awaiting False else Closed)\<rparr>)
      | (Sending keep_alive, WriteFailed) \<Rightarrow> Some (c\<lparr>c_phase := Closed\<rparr>)
      | _ \<Rightarrow> None)"

definition conn_step ::
  "(string \<Rightarrow> url option) \<Rightarrow> ('h \<Rightarrow> request \<Rightarrow> 'f response outcome) \<Rightarrow> (string \<times> 'h) list \<Rightarrow>
   'f connection \<Rightarrow> event \<Rightarrow> 'f connection \<Rightarrow> bool" where
  "conn_step parse call routes c ev c' \<longleftrightarrow> conn_next parse call routes c ev = Some c'"

section \<open>The refinement\<close>

definition phase_of :: "'f session \<Rightarrow> phase" where
  "phase_of s =
     (if lost s then Lost
      else case s_pending s of
        [] \<Rightarrow> Closed
      | AsyncRead e # ops \<Rightarrow> Awaiting e
      | AsyncWrite msg keep_alive # ops \<Rightarrow> Sending keep_alive)"

definition connection_of :: "'f session \<Rightarrow> 'f connection" where
  "connection_of s = \<lparr>c_phase = phase_of s, c_sent = s_written s\<rparr>"

text \<open>At most one operation is outstanding, and a write only when a request has been read.\<close>

definition one_pending :: "'f session \<Rightarrow> bool" where
  "one_pending s \<longleftrightarrow> (case s_pending s of
     [] \<Rightarrow> True
   | [AsyncRead e] \<Rightarrow> True
   | [AsyncWrite msg keep_alive] \<Rightarrow> s_request s \<noteq> None
   | _ \<Rightarrow> False)"

lemma one_pendingD: "one_pending s \<Longrightarrow> s_pending s = [] \<or> (\<exists>x. s_pending s = [x])"
  by (auto simp: one_pending_def split: list.splits op.splits)

lemma session_exec_pending:
  "one_pending s \<Longrightarrow> session_exec parse call routes s ev = Some s' \<Longrightarrow> one_pending s'"
  by (auto simp: one_pending_def on_read_def on_write_def process_request_def read_request_def finished_def Let_def
      split: if_splits event.splits list.splits op.splits outcome.splits)

text \<open>One step of a connection, in both directions.\<close>

lemma session_exec_next:
  assumes "one_pending s"
  shows "conn_next parse call routes (connection_of s) ev
    = map_option connection_of (session_exec parse call routes s ev)"
proof (cases "lost s")
  case True
  then show ?thesis by (simp add: connection_of_def phase_of_def)
next
  case False
  show ?thesis
  proof (cases "s_pending s")
    case Nil
    with False show ?thesis by (cases ev) (simp_all add: connection_of_def phase_of_def)
  next
    case (Cons x ops)
    with assms have one: "s_pending s = [x]" using one_pendingD by fastforce
    show ?thesis
    proof (cases x)
      case (AsyncRead e)
      with one False show ?thesis
        by (cases ev)
          (auto simp: connection_of_def phase_of_def lost_def on_read_def process_request_def finished_def Let_def
            split: outcome.split)
    next
      case (AsyncWrite msg ka)
      with one assms have "s_request s \<noteq> None" by (simp add: one_pending_def)
      with AsyncWrite one False show ?thesis
        by (cases ev)
          (auto simp: connection_of_def phase_of_def lost_def on_write_def read_request_def finished_def)
    qed
  qed
qed

lemma session_run_trace:
  "session_run parse call routes evs s \<longleftrightarrow> trace (session_step parse call routes) (start new_session) evs s"
proof
  show "session_run parse call routes evs s \<Longrightarrow> trace (session_step parse call routes) (start new_session) evs s"
    by (induction rule: session_run.induct) (auto intro: trace.intros)
  show "trace (session_step parse call routes) (start new_session) evs s \<Longrightarrow> session_run parse call routes evs s"
    by (induction rule: trace.induct) (auto intro: session_run.intros)
qed

interpretation session_machine:
  exact_refinement "session_step parse call routes" "start new_session" "conn_step parse call routes"
    new_connection one_pending connection_of for parse call routes
proof (unfold_locales, goal_cases)
  case 1
  show ?case by (auto simp: one_pending_def start_def read_request_def new_session_def)
next
  case 2
  show ?case
    by (simp add: connection_of_def phase_of_def lost_def start_def read_request_def new_session_def new_connection_def)
next
  case (3 s ev s')
  then show ?case using session_exec_pending session_step_exec [OF one_pendingD] by blast
next
  case (4 s ev s')
  then show ?case
    by (simp add: conn_step_def session_step_exec [OF one_pendingD] session_exec_next del: session_exec.simps conn_next.simps)
next
  case (5 s ev c)
  then show ?case
    by (simp add: conn_step_def session_step_exec [OF one_pendingD] session_exec_next del: session_exec.simps conn_next.simps)
qed

section \<open>Properties\<close>

text \<open>C18. Refinement: a connection cannot be told from the four-phase machine.  The events that can
  happen on a connection, the responses it sends and the phase it ends in are exactly those
  of the machine; nothing the code keeps beside them makes a difference.\<close>

theorem session_refines:
  "trace (conn_step parse call routes) new_connection evs c \<longleftrightarrow>
     (\<exists>s. session_run parse call routes evs s \<and> connection_of s = c)"
  unfolding session_run_trace by (rule session_machine.trace_exact)

end
