(* ===== verification/Session_Timing.thy ===== *)
theory Session_Timing
  imports Session
begin

text \<open>
  The deadline of a connection.  \<^verbatim>\<open>HttpSession::process_request\<close> sets the expiry of its
  stream to 30 seconds from then; Boost.Beast fails a read or a write that has not completed
  when the expiry is reached, and an expiry stays until it is set again.  A stream has none at
  first.  Times are in seconds; the value \<open>timeout_seconds\<close> of the configuration plays no part.
\<close>

section \<open>Timed steps\<close>

record 'f timed =
  t_session :: "'f session"
  t_now :: nat
  t_expiry :: "nat option"

definition new_timed :: "nat \<Rightarrow> 'f timed" where
  "new_timed t = \<lparr>t_session = start new_session, t_now = t, t_expiry = None\<rparr>"

text \<open>\<^verbatim>\<open>expires_after(30s)\<close> is called when a request has been read.\<close>

fun expiry_at :: "event \<Rightarrow> nat \<Rightarrow> nat option \<Rightarrow> nat option" where
  "expiry_at (ReadDone req) now expiry = Some (now + 30)"
| "expiry_at _ now expiry = expiry"

text \<open>When an operation may complete: a failure at any time, a success before the expiry.\<close>

fun in_time :: "event \<Rightarrow> nat \<Rightarrow> nat option \<Rightarrow> bool" where
  "in_time ReadFailed now expiry = True"
| "in_time WriteFailed now expiry = True"
| "in_time ReadUndefined now expiry = True"
| "in_time _ now expiry = (case expiry of None \<Rightarrow> True | Some e \<Rightarrow> now < e)"

inductive timed_step ::
  "(string \<Rightarrow> url option) \<Rightarrow> ('h \<Rightarrow> request \<Rightarrow> 'f response outcome) \<Rightarrow> (string \<times> 'h) list \<Rightarrow>
   'f timed \<Rightarrow> nat \<times> event \<Rightarrow> 'f timed \<Rightarrow> bool"
  for parse :: "string \<Rightarrow> url option" and call :: "'h \<Rightarrow> request \<Rightarrow> 'f response outcome"
    and routes :: "(string \<times> 'h) list" where
  completes: "t_now c \<le> now \<Longrightarrow> in_time ev now (t_expiry c) \<Longrightarrow>
    session_step parse call routes (t_session c) ev s \<Longrightarrow>
    timed_step parse call routes c (now, ev)
      \<lparr>t_session = s, t_now = now, t_expiry = expiry_at ev now (t_expiry c)\<rparr>"

inductive timed_run ::
  "(string \<Rightarrow> url option) \<Rightarrow> ('h \<Rightarrow> request \<Rightarrow> 'f response outcome) \<Rightarrow> (string \<times> 'h) list \<Rightarrow> nat \<Rightarrow>
   (nat \<times> event) list \<Rightarrow> 'f timed \<Rightarrow> bool"
  for parse :: "string \<Rightarrow> url option" and call :: "'h \<Rightarrow> request \<Rightarrow> 'f response outcome"
    and routes :: "(string \<times> 'h) list" and t0 :: nat where
  timed_start: "timed_run parse call routes t0 [] (new_timed t0)"
| timed_next: "timed_run parse call routes t0 evs c \<Longrightarrow> timed_step parse call routes c ev c' \<Longrightarrow>
    timed_run parse call routes t0 (evs @ [ev]) c'"

inductive_cases timed_stepE: "timed_step parse call routes c (now, ev) c'"
inductive_simps timed_run_snoc: "timed_run parse call routes t0 (evs @ [ev]) c"

section \<open>Lemmas\<close>

text \<open>Without its times a run is a run of the connection.\<close>

lemma timed_session:
  "timed_run parse call routes t0 evs c \<Longrightarrow> session_run parse call routes (map snd evs) (t_session c)"
proof (induction rule: timed_run.induct)
  case timed_start
  show ?case by (simp add: new_timed_def run_start)
next
  case (timed_next evs c ev c')
  from timed_next.hyps(2) have "session_step parse call routes (t_session c) (snd ev) (t_session c')"
    by cases simp
  with timed_next.IH show ?case by (simp add: run_step)
qed

text \<open>The times at which requests were read; the expiry is set by the last of them.\<close>

definition read_times :: "(nat \<times> event) list \<Rightarrow> nat list" where
  "read_times evs = concat (map (\<lambda>(t, ev). case ev of ReadDone req \<Rightarrow> [t] | _ \<Rightarrow> []) evs)"

lemma read_times_append [simp]: "read_times (us @ vs) = read_times us @ read_times vs"
  "read_times ((t, ev) # vs) = (case ev of ReadDone req \<Rightarrow> [t] | _ \<Rightarrow> []) @ read_times vs" "read_times [] = []"
  by (simp_all add: read_times_def)

definition timed_inv :: "(nat \<times> event) list \<Rightarrow> 'f timed \<Rightarrow> bool" where
  "timed_inv evs c \<longleftrightarrow>
     (if read_times evs = [] then t_expiry c = None
      else t_expiry c = Some (last (read_times evs) + 30) \<and> last (read_times evs) \<le> t_now c)"

lemma timed_inv_run: "timed_run parse call routes t0 evs c \<Longrightarrow> timed_inv evs c"
proof (induction rule: timed_run.induct)
  case timed_start
  show ?case by (simp add: timed_inv_def new_timed_def)
next
  case (timed_next evs c ev c')
  obtain now e where ev: "ev = (now, e)" by (cases ev)
  from timed_next.hyps(2) timed_next.IH show ?case
    unfolding ev by (cases e) (auto simp: timed_inv_def elim!: timed_stepE)
qed

lemma read_times_none: "(\<And>x r. (x, ReadDone r) \<notin> set vs) \<Longrightarrow> read_times vs = []"
  by (auto simp: read_times_def split: event.splits)

text \<open>The deadline of the connection is armed exactly when the stream has an expiry.\<close>

lemma timed_deadline:
  assumes "timed_run parse call routes t0 evs c"
  shows "s_deadline (t_session c) \<longleftrightarrow> t_expiry c \<noteq> None"
proof -
  have "requests (map snd evs) = [] \<longleftrightarrow> read_times evs = []"
    by (induction evs) (auto simp: requests_def read_times_def split: event.splits)
  with session_run_inv [OF timed_session [OF assms]] processed_requests [OF timed_session [OF assms]]
    timed_inv_run [OF assms] show ?thesis
    by (auto simp: session_inv_def timed_inv_def split: if_splits)
qed

text \<open>The steps as a function.\<close>

fun timed_execs ::
  "(string \<Rightarrow> url option) \<Rightarrow> ('h \<Rightarrow> request \<Rightarrow> 'f response outcome) \<Rightarrow> (string \<times> 'h) list \<Rightarrow>
   'f timed \<Rightarrow> (nat \<times> event) list \<Rightarrow> 'f timed option" where
  "timed_execs parse call routes c [] = Some c"
| "timed_execs parse call routes c ((now, ev) # evs) =
     (if t_now c \<le> now \<and> in_time ev now (t_expiry c)
      then (case session_exec parse call routes (t_session c) ev of
              None \<Rightarrow> None
            | Some s \<Rightarrow> timed_execs parse call routes
                \<lparr>t_session = s, t_now = now, t_expiry = expiry_at ev now (t_expiry c)\<rparr> evs)
      else None)"

lemma timed_execs_run:
  "timed_run parse call routes t0 pre c \<Longrightarrow> timed_execs parse call routes c evs = Some c' \<Longrightarrow>
   timed_run parse call routes t0 (pre @ evs) c'"
proof (induction evs arbitrary: pre c)
  case (Cons x evs)
  obtain now ev where x: "x = (now, ev)" by (cases x)
  from Cons.prems(2) x obtain s where s: "t_now c \<le> now" "in_time ev now (t_expiry c)"
    "session_exec parse call routes (t_session c) ev = Some s"
    "timed_execs parse call routes \<lparr>t_session = s, t_now = now, t_expiry = expiry_at ev now (t_expiry c)\<rparr> evs = Some c'"
    by (auto simp del: session_exec.simps split: if_splits option.splits)
  have "session_step parse call routes (t_session c) ev s"
    using s(3) session_step_exec [OF running_pending [OF timed_session [OF Cons.prems(1)]]] by blast
  from timed_next [OF Cons.prems(1) completes [OF s(1,2) this]] Cons.IH s(4) x show ?case by fastforce
qed simp

section \<open>Properties\<close>

text \<open>C27. Deadlines: between reading a request and completing the writing of its response, and also
  between reading it and reading the next one, less than 30 seconds pass, whatever
  \<^verbatim>\<open>timeout_seconds\<close> says; but the first request of a connection may come at any time.\<close>

theorem session_time_bound:
  assumes "timed_run parse call routes t0 (us @ (t, ReadDone req) # vs @ [(t', ev)]) c"
    and "\<And>x r. (x, ReadDone r) \<notin> set vs" "ev = WriteDone \<or> (\<exists>r. ev = ReadDone r)"
  shows "t \<le> t' \<and> t' < t + 30 \<and> (\<exists>c'. timed_run parse call routes t0 [(t0 + late, ReadDone req)] c')"
proof -
  from assms(1) have "timed_run parse call routes t0 ((us @ (t, ReadDone req) # vs) @ [(t', ev)]) c" by simp
  then obtain c0 where c0: "timed_run parse call routes t0 (us @ (t, ReadDone req) # vs) c0"
    "timed_step parse call routes c0 (t', ev) c"
    unfolding timed_run_snoc by blast
  from timed_inv_run [OF c0(1)] read_times_none [OF assms(2)]
  have "t_expiry c0 = Some (t + 30)" "t \<le> t_now c0" by (simp_all add: timed_inv_def)
  with c0(2) assms(3) have "t \<le> t'" "t' < t + 30" by (auto elim!: timed_stepE)
  moreover have "\<exists>c'. timed_step parse call routes (new_timed t0) (t0 + late, ReadDone req) c'"
    using read_done [of "start new_session" True parse call routes req]
    by (auto simp: lost_def new_timed_def start_def read_request_def new_session_def timed_step.simps)
  then have "\<exists>c'. timed_run parse call routes t0 [(t0 + late, ReadDone req)] c'"
    using timed_run_snoc [of parse call routes t0 "[]"] timed_start by fastforce
  ultimately show ?thesis by blast
qed

theorem session_time_bound_witness:
  "\<not> (\<exists>c. timed_run (\<lambda>_. None) sample_call two_routes 0
        [(5, ReadDone (keep ''/a'')), (7, WriteDone), (35, ReadDone (close ''/a''))] c)
   \<and> (\<exists>c. timed_run (\<lambda>_. None) sample_call two_routes 0
        [(1000, ReadDone (keep ''/a'')), (1007, WriteDone), (1029, ReadDone (close ''/a''))] c)"
proof (intro conjI notI; (elim exE)?)
  fix c
  assume "timed_run (\<lambda>_. None) sample_call two_routes 0
        [(5, ReadDone (keep ''/a'')), (7, WriteDone), (35, ReadDone (close ''/a''))] c"
  then have "timed_run (\<lambda>_. None) sample_call two_routes 0
        ([] @ (5, ReadDone (keep ''/a'')) # [(7, WriteDone)] @ [(35, ReadDone (close ''/a''))]) c" by simp
  from session_time_bound [OF this] have "(35 :: nat) < 5 + 30" by simp
  then show False by simp
next
  let ?evs = "[(1000, ReadDone (keep ''/a'')), (1007, WriteDone), (1029, ReadDone (close ''/a''))]"
  have "(case timed_execs (\<lambda>_. None) sample_call two_routes (new_timed 0) ?evs of None \<Rightarrow> False | Some _ \<Rightarrow> True)"
    by code_simp
  then obtain c where c: "timed_execs (\<lambda>_. None) sample_call two_routes (new_timed 0) ?evs = Some c"
    by (auto simp del: timed_execs.simps split: option.splits)
  from timed_execs_run [OF timed_start c] show "\<exists>c. timed_run (\<lambda>_. None) sample_call two_routes 0 ?evs c" by auto
qed

end
