(* ===== verification/File_System.thy ===== *)
theory File_System
  imports Static_Files
begin

text \<open>
  A POSIX file system with symbolic links, and the operations of \<^verbatim>\<open>std::filesystem\<close> that
  the sources use on it: \<^verbatim>\<open>status\<close>, \<^verbatim>\<open>is_directory\<close>, \<^verbatim>\<open>canonical\<close>, \<^verbatim>\<open>lexically_normal\<close> and
  \<^verbatim>\<open>weakly_canonical\<close>, as the C++ standard describes them, and opening a file for reading.
  A file is known by its canonical path, the list of names that leads to it from the root
  directory.  Permissions and changes of the file system during a request are left out.
\<close>

section \<open>Files\<close>

datatype fnode = File | Dir "(string \<times> fnode) list" | Link string

record fs =
  fs_root :: fnode
  fs_cwd :: "string list"

fun lookup :: "fnode \<Rightarrow> string list \<Rightarrow> fnode option" where
  "lookup n [] = Some n"
| "lookup (Dir es) (c # cs) = (case map_of es c of None \<Rightarrow> None | Some m \<Rightarrow> lookup m cs)"
| "lookup _ (c # cs) = None"

text \<open>The names that a directory can hold.\<close>

definition name_ok :: "string \<Rightarrow> bool" where
  "name_ok c \<longleftrightarrow> c \<noteq> [] \<and> slash \<notin> set c \<and> CHR 0x00 \<notin> set c \<and> c \<noteq> ''.'' \<and> c \<noteq> ''..''"

fun fnode_ok :: "fnode \<Rightarrow> bool" where
  "fnode_ok (Dir es) \<longleftrightarrow> (\<forall>(c, m)\<in>set es. name_ok c \<and> fnode_ok m)"
| "fnode_ok _ \<longleftrightarrow> True"

fun is_dir :: "fnode \<Rightarrow> bool" where
  "is_dir (Dir es) = True"
| "is_dir _ = False"

definition fs_ok :: "fs \<Rightarrow> bool" where
  "fs_ok fs \<longleftrightarrow> fnode_ok (fs_root fs) \<and> is_dir (fs_root fs)
     \<and> (case lookup (fs_root fs) (fs_cwd fs) of Some (Dir es) \<Rightarrow> True | _ \<Rightarrow> False)"

section \<open>Resolution of a path by the system\<close>

text \<open>The components of a path; a trailing slash asks for a directory, like a final dot.\<close>

definition components :: "string \<Rightarrow> string list" where
  "components p = path_names [] p @ (if p \<noteq> [] \<and> last p = slash then [''.''] else [])"

text \<open>
  One component: the resolution ends, or goes on at another place with other components before
  the rest.  Links are followed, at most \<open>n\<close> of them; \<open>Found\<close> has how many more could be.
\<close>

datatype resolution = Found nat "string list" | Missing | NotDirectory | Loop

definition step_name ::
  "fnode \<Rightarrow> nat \<Rightarrow> string list \<Rightarrow> string \<Rightarrow> resolution + nat \<times> string list \<times> string list" where
  "step_name root n cur c =
     (case lookup root cur of
        None \<Rightarrow> Inl Missing
      | Some File \<Rightarrow> Inl NotDirectory
      | Some (Link t) \<Rightarrow> Inl NotDirectory
      | Some (Dir es) \<Rightarrow>
          if c = ''.'' then Inr (n, cur, [])
          else if c = ''..'' then Inr (n, butlast cur, [])
          else (case map_of es c of
                  None \<Rightarrow> Inl Missing
                | Some (Link t) \<Rightarrow>
                    if t = [] then Inl Missing
                    else if n = 0 then Inl Loop
                    else Inr (n - 1, if hd t = slash then [] else cur, components t)
                | Some m \<Rightarrow> Inr (n, cur @ [c], [])))"

lemma step_name_less: "step_name root n cur c = Inr (n', cur', pre) \<Longrightarrow> n' < n \<or> n' = n \<and> pre = []"
  by (auto simp: step_name_def split: option.splits fnode.splits if_splits)

function namei :: "fnode \<Rightarrow> nat \<Rightarrow> string list \<Rightarrow> string list \<Rightarrow> resolution" where
  "namei root n cur [] = Found n cur"
| "namei root n cur (c # cs) =
     (case step_name root n cur c of
        Inl r \<Rightarrow> r
      | Inr (n', cur', pre) \<Rightarrow> namei root n' cur' (pre @ cs))"
  by pat_completeness auto
termination
  by (relation "measures [\<lambda>(root, n, cur, cs). n, \<lambda>(root, n, cur, cs). length cs]")
    (auto dest: step_name_less)

declare namei.simps(2) [simp del]

definition resolve :: "fs \<Rightarrow> string \<Rightarrow> resolution" where
  "resolve fs path =
     (let p = c_str path
      in if p = [] then Missing
         else namei (fs_root fs) 40 (if hd p = slash then [] else fs_cwd fs) (components p))"

section \<open>The operations of the library\<close>

text \<open>\<^verbatim>\<open>exists(status(p))\<close>, and \<^verbatim>\<open>is_directory(p)\<close>: errors other than a missing file throw.\<close>

definition fs_exists :: "fs \<Rightarrow> string \<Rightarrow> string + bool" where
  "fs_exists fs p =
     (case resolve fs p of
        Found n xs \<Rightarrow> Inr True | Missing \<Rightarrow> Inr False | NotDirectory \<Rightarrow> Inr False
      | Loop \<Rightarrow> Inl ''status: Too many levels of symbolic links'')"

definition fs_is_directory :: "fs \<Rightarrow> string \<Rightarrow> string + bool" where
  "fs_is_directory fs p =
     (case resolve fs p of
        Found n xs \<Rightarrow> Inr (case lookup (fs_root fs) xs of Some m \<Rightarrow> is_dir m | None \<Rightarrow> False)
      | Missing \<Rightarrow> Inr False | NotDirectory \<Rightarrow> Inr False
      | Loop \<Rightarrow> Inl ''status: Too many levels of symbolic links'')"

definition absolute_string :: "string list \<Rightarrow> string" where
  "absolute_string xs = (if xs = [] then [slash] else concat (map (\<lambda>x. slash # x) xs))"

definition canonical :: "fs \<Rightarrow> string \<Rightarrow> string + string" where
  "canonical fs p =
     (case resolve fs p of Found n xs \<Rightarrow> Inr (absolute_string xs) | _ \<Rightarrow> Inl ''cannot make canonical path'')"

text \<open>The names of a normal form and whether it ends in a slash; \<open>rooted\<close> is whether there is a
  root directory.\<close>

fun normal_names :: "bool \<Rightarrow> string list \<Rightarrow> bool \<Rightarrow> string list \<Rightarrow> string list \<times> bool" where
  "normal_names rooted acc trailing [] = (acc, trailing)"
| "normal_names rooted acc trailing (c # cs) =
     (if c = [] \<or> c = ''.'' then normal_names rooted acc True cs
      else if c = ''..'' then
        (if acc \<noteq> [] \<and> last acc \<noteq> ''..'' then normal_names rooted (butlast acc) True cs
         else if rooted then normal_names rooted acc True cs
         else normal_names rooted (acc @ [c]) False cs)
      else normal_names rooted (acc @ [c]) False cs)"

fun join :: "string list \<Rightarrow> string" where
  "join [] = []"
| "join [x] = x"
| "join (x # y # xs) = x @ slash # join (y # xs)"

definition lexically_normal :: "string \<Rightarrow> string" where
  "lexically_normal p =
     (if p = [] then []
      else
        (let rooted = sv_starts_with p slash;
             (xs, trailing) = normal_names rooted [] False (path_names [] p
               @ (if path_names [] p \<noteq> [] \<and> last p = slash then [[]] else []));
             s = (if rooted then [slash] else []) @ join xs
               @ (if trailing \<and> xs \<noteq> [] \<and> last xs \<noteq> ''..'' then [slash] else [])
         in if s = [] then ''.'' else s))"

text \<open>The longest sequence of leading elements that exists, and the elements after it.\<close>

fun leading :: "fs \<Rightarrow> string \<Rightarrow> string list \<Rightarrow> string + string \<times> string list" where
  "leading fs result [] = Inr (result, [])"
| "leading fs result (e # es) =
     (case fs_exists fs (path_append result e) of
        Inl m \<Rightarrow> Inl m
      | Inr True \<Rightarrow> leading fs (path_append result e) es
      | Inr False \<Rightarrow> Inr (result, e # es))"

definition fs_weakly_canonical :: "fs \<Rightarrow> string \<Rightarrow> string + string" where
  "fs_weakly_canonical fs p =
     (case fs_exists fs p of
        Inl m \<Rightarrow> Inl m
      | Inr True \<Rightarrow> canonical fs p
      | Inr False \<Rightarrow>
          (case leading fs [] (path_elems p) of
             Inl m \<Rightarrow> Inl m
           | Inr (result, rest) \<Rightarrow>
               (if result = [] then Inr (lexically_normal (foldl path_append [] rest))
                else case canonical fs result of
                  Inl m \<Rightarrow> Inl m
                | Inr c \<Rightarrow> Inr (lexically_normal (foldl path_append c rest)))))"

text \<open>A directory can be opened for reading as well.\<close>

definition fs_open :: "fs \<Rightarrow> string \<Rightarrow> string list open_result" where
  "fs_open fs p =
     (case resolve fs p of
        Found n xs \<Rightarrow> Opened xs
      | Missing \<Rightarrow> NoSuchFile
      | NotDirectory \<Rightarrow> OpenFailed ''Not a directory''
      | Loop \<Rightarrow> OpenFailed ''Too many levels of symbolic links'')"

definition fs_environment ::
  "fs \<Rightarrow> (string \<Rightarrow> url option) \<Rightarrow> string hash \<Rightarrow> nat \<Rightarrow> string list environment" where
  "fs_environment fs parse h n =
     \<lparr>parse_origin_form = parse, weakly_canonical = fs_weakly_canonical fs, open_file = fs_open fs,
      std_hash = h, mime_buckets = n\<rparr>"

section \<open>Paths as lists of names\<close>

definition plain_name :: "string \<Rightarrow> bool" where
  "plain_name x \<longleftrightarrow> x \<noteq> [] \<and> slash \<notin> set x"

lemma name_ok_plain: "name_ok x \<Longrightarrow> plain_name x"
  by (simp add: name_ok_def plain_name_def)

lemma path_names_word: "slash \<notin> set x \<Longrightarrow> path_names acc (x @ s) = path_names (acc @ x) s"
  by (induction x arbitrary: acc) auto

lemma path_names_plain: "slash \<notin> set acc \<Longrightarrow> \<forall>x\<in>set (path_names acc s). plain_name x"
proof (induction acc s rule: path_names.induct)
  case (1 acc)
  then show ?case by (simp add: plain_name_def)
next
  case (2 acc c s)
  show ?case
  proof (cases "c = slash")
    case True
    with 2 show ?thesis by (cases "acc = []") (simp_all add: plain_name_def)
  next
    case False
    with 2 show ?thesis by simp
  qed
qed

lemma path_names_chars: "\<forall>x\<in>set (path_names acc s). set x \<subseteq> set acc \<union> set s"
  by (induction acc s rule: path_names.induct) auto

lemma path_names_slash: "path_names [] (slash # s) = path_names [] s"
  by simp

lemma path_names_concat:
  assumes "\<forall>x\<in>set xs. plain_name x" "s = [] \<or> hd s = slash"
  shows "path_names [] (concat (map (\<lambda>x. slash # x) xs) @ s) = xs @ path_names [] s"
  using assms(1)
proof (induction xs)
  case (Cons x xs)
  then have x: "x \<noteq> []" "slash \<notin> set x" by (simp_all add: plain_name_def)
  let ?rest = "concat (map (\<lambda>x. slash # x) xs) @ s"
  have "path_names x ?rest = x # path_names [] ?rest"
    using x(1) assms(2) by (cases xs; cases s) auto
  with Cons x show ?case by (simp add: path_names_word)
qed simp

lemma path_names_absolute:
  assumes "\<forall>x\<in>set xs. plain_name x"
  shows "path_names [] (absolute_string xs) = xs" "path_names [] (absolute_string xs @ slash # s) = xs @ path_names [] s"
  using path_names_concat [OF assms, of "[]"] path_names_concat [OF assms, of "slash # s"]
  by (simp_all add: absolute_string_def)

lemma absolute_last:
  assumes "\<forall>x\<in>set xs. plain_name x" "xs \<noteq> []"
  shows "last (absolute_string xs) \<noteq> slash"
proof -
  obtain ys x where xs: "xs = ys @ [x]" using assms(2) by (cases xs rule: rev_cases) auto
  with assms(1) have "x \<noteq> []" "slash \<notin> set x" by (simp_all add: plain_name_def)
  then have "last x \<noteq> slash" using last_in_set by metis
  with xs \<open>x \<noteq> []\<close> show ?thesis by (simp add: absolute_string_def)
qed

lemma absolute_simps [simp]: "absolute_string xs \<noteq> []" "hd (absolute_string xs) = slash" "absolute_string [] = [slash]"
  by (cases xs; simp add: absolute_string_def)+

text \<open>The path with names \<open>xs\<close>, and with a trailing slash.\<close>

definition path_of :: "string list \<Rightarrow> bool \<Rightarrow> string" where
  "path_of xs trailing = absolute_string xs @ (if trailing \<and> xs \<noteq> [] then [slash] else [])"

lemma path_of_simps [simp]: "path_of xs t \<noteq> []" "hd (path_of xs t) = slash"
  by (simp_all add: path_of_def)

lemma path_of_names:
  assumes "\<forall>x\<in>set xs. plain_name x"
  shows "path_names [] (path_of xs t) = xs"
  using path_names_absolute [OF assms] by (simp add: path_of_def)

lemma path_of_last:
  assumes "\<forall>x\<in>set xs. plain_name x"
  shows "last (path_of xs t) = slash \<longleftrightarrow> xs = [] \<or> t"
  using absolute_last [OF assms] by (auto simp: path_of_def)

lemma components_path_of:
  assumes "\<forall>x\<in>set xs. plain_name x"
  shows "components (path_of xs t) = xs @ (if xs = [] \<or> t then [''.''] else [])"
  using path_of_names [OF assms] path_of_last [OF assms] by (simp add: components_def)

lemma path_append_of:
  assumes "\<forall>x\<in>set xs. plain_name x"
  shows "path_append (path_of xs False) [] = path_of xs True"
    and "plain_name x \<Longrightarrow> path_append (path_of xs False) x = path_of (xs @ [x]) False"
proof -
  show "path_append (path_of xs False) [] = path_of xs True"
    using path_of_last [OF assms, of False] by (auto simp: path_append_def sv_starts_with_def path_of_def)
  assume "plain_name x"
  then have x: "x \<noteq> []" "hd x \<noteq> slash" by (cases x; auto simp: plain_name_def)+
  then show "path_append (path_of xs False) x = path_of (xs @ [x]) False"
    using path_of_last [OF assms, of False]
    by (cases xs) (auto simp: path_append_def sv_starts_with_def path_of_def absolute_string_def)
qed

lemma foldl_path_append:
  assumes "\<forall>x\<in>set xs. plain_name x" "\<forall>x\<in>set ys. plain_name x"
  shows "foldl path_append (path_of xs False) ys = path_of (xs @ ys) False"
    "foldl path_append (path_of xs False) (ys @ [[]]) = path_of (xs @ ys) True"
proof -
  show *: "foldl path_append (path_of xs False) ys = path_of (xs @ ys) False"
    using assms by (induction ys arbitrary: xs) (simp_all add: path_append_of)
  then show "foldl path_append (path_of xs False) (ys @ [[]]) = path_of (xs @ ys) True"
    using assms path_append_of(1) [of "xs @ ys"] by auto
qed

lemma path_elems_of:
  assumes "\<forall>x\<in>set xs. plain_name x"
  shows "path_elems (path_of xs t) = [slash] # xs @ (if t \<and> xs \<noteq> [] then [[]] else [])"
  using path_of_names [OF assms, of t] path_of_last [OF assms, of t]
  by (auto simp: path_elems_def sv_starts_with_def)

text \<open>Every absolute path has the names and the trailing slash of such a path.\<close>

lemma components_absolute:
  assumes "hd p = slash" "p \<noteq> []"
  shows "components p = components (path_of (path_names [] p) (last p = slash))"
    and "path_elems p = path_elems (path_of (path_names [] p) (last p = slash))"
proof -
  have plain: "\<forall>x\<in>set (path_names [] p). plain_name x" using path_names_plain [of "[]" p] by simp
  have none: "last p = slash" if "path_names [] p = []"
  proof (rule ccontr)
    assume l: "last p \<noteq> slash"
    have "path_names acc p \<noteq> []" for acc
      using assms(2) l by (induction acc p rule: path_names.induct) (auto split: if_splits)
    with that show False by blast
  qed
  show "components p = components (path_of (path_names [] p) (last p = slash))"
    unfolding components_path_of [OF plain] using none assms(2) by (auto simp: components_def)
  show "path_elems p = path_elems (path_of (path_names [] p) (last p = slash))"
    unfolding path_elems_of [OF plain] using assms by (auto simp: path_elems_def sv_starts_with_def)
qed

section \<open>Facts of the resolution\<close>

lemma lookup_append:
  "lookup n (xs @ ys) = (case lookup n xs of None \<Rightarrow> None | Some m \<Rightarrow> lookup m ys)"
  by (induction n xs rule: lookup.induct) (auto split: option.splits)

lemma lookup_ok:
  "fnode_ok n \<Longrightarrow> lookup n xs = Some m \<Longrightarrow> (\<forall>x\<in>set xs. name_ok x) \<and> fnode_ok m"
proof (induction n xs arbitrary: m rule: lookup.induct)
  case (2 es c cs)
  then obtain k where k: "map_of es c = Some k" "lookup k cs = Some m" by (auto split: option.splits)
  from k(1) have "(c, k) \<in> set es" by (rule map_of_SomeD)
  with 2 k show ?case by auto
qed auto

lemma lookup_dir_prefix:
  assumes "lookup n (xs @ ys) = Some m" "ys \<noteq> []"
  obtains es where "lookup n xs = Some (Dir es)"
proof -
  from assms obtain k where k: "lookup n xs = Some k" "lookup k ys = Some m"
    by (auto simp: lookup_append split: option.splits)
  with assms(2) that show ?thesis by (cases k; cases ys) auto
qed

fun is_link :: "fnode \<Rightarrow> bool" where
  "is_link (Link t) = True"
| "is_link _ = False"

text \<open>One component.\<close>

lemma step_name_dir:
  assumes "lookup root cur = Some (Dir es)"
  shows "step_name root n cur ''.'' = Inr (n, cur, [])"
    and "c \<noteq> ''.'' \<Longrightarrow> c \<noteq> ''..'' \<Longrightarrow> map_of es c = Some m \<Longrightarrow> \<not> is_link m \<Longrightarrow>
      step_name root n cur c = Inr (n, cur @ [c], [])"
  by (simp add: assms step_name_def) (cases m; simp add: assms step_name_def)

lemma step_name_not_found: "step_name root n cur c \<noteq> Inl (Found k xs)"
  by (auto simp: step_name_def split: option.splits fnode.splits)

lemma step_name_more:
  "step_name root n cur c \<noteq> Inl Loop \<Longrightarrow>
   step_name root (n + k) cur c = (case step_name root n cur c of
     Inl r \<Rightarrow> Inl r | Inr (n', cur', pre) \<Rightarrow> Inr (n' + k, cur', pre))"
  by (auto simp: step_name_def split: option.splits fnode.splits)

lemma step_name_place:
  assumes "step_name root n cur c = Inr (n', cur', pre)" "is_dir root"
  shows "\<exists>m. lookup root cur' = Some m \<and> \<not> is_link m"
proof -
  from assms(1) obtain es where es: "lookup root cur = Some (Dir es)"
    by (auto simp: step_name_def split: option.splits fnode.splits)
  have up: "\<exists>m. lookup root (butlast cur) = Some m \<and> \<not> is_link m"
  proof (cases cur rule: rev_cases)
    case (snoc ys y)
    with es obtain ds where "lookup root ys = Some (Dir ds)" by (auto elim: lookup_dir_prefix)
    with snoc show ?thesis by simp
  qed (use es in auto)
  have root: "\<not> is_link root" using assms(2) by (cases root) auto
  have down: "lookup root (cur @ [c]) = map_of es c" using es by (simp add: lookup_append split: option.split)
  consider "cur' = cur" | "cur' = butlast cur" | "cur' = []" | m where "cur' = cur @ [c]" "map_of es c = Some m" "\<not> is_link m"
    using assms(1) es by (auto simp: step_name_def split: option.splits fnode.splits if_splits)
  then show ?thesis using es up root down by cases auto
qed

lemma namei_append:
  "namei root n cur (as @ bs) =
     (case namei root n cur as of Found n' c \<Rightarrow> namei root n' c bs | r \<Rightarrow> r)"
proof (induction root n cur as rule: namei.induct)
  case (2 root n cur c cs)
  show ?case
  proof (cases "step_name root n cur c")
    case (Inl r)
    then show ?thesis using step_name_not_found [of root n cur c] by (cases r) (auto simp: namei.simps(2))
  next
    case (Inr z)
    obtain n' cur' pre where z: "z = (n', cur', pre)" by (cases z)
    show ?thesis using 2 [OF Inr z [symmetric] refl] Inr z by (simp add: namei.simps(2))
  qed
qed simp

text \<open>A higher limit on links changes only a \<open>Loop\<close>.\<close>

fun raise_limit :: "nat \<Rightarrow> resolution \<Rightarrow> resolution" where
  "raise_limit k (Found n c) = Found (n + k) c"
| "raise_limit k r = r"

lemma namei_more:
  "namei root n cur cs \<noteq> Loop \<Longrightarrow> namei root (n + k) cur cs = raise_limit k (namei root n cur cs)"
proof (induction root n cur cs rule: namei.induct)
  case (2 root n cur c cs)
  show ?case
  proof (cases "step_name root n cur c")
    case (Inl r)
    with 2(2) step_name_more [of root n cur c k] step_name_not_found [of root n cur c] show ?thesis
      by (cases r) (auto simp: namei.simps(2))
  next
    case (Inr z)
    obtain n' cur' pre where z: "z = (n', cur', pre)" by (cases z)
    show ?thesis using 2(1) [OF Inr z [symmetric] refl] 2(2) Inr z step_name_more [of root n cur c k]
      by (simp add: namei.simps(2))
  qed
qed simp

lemma namei_found:
  assumes "is_dir root"
  shows "namei root n cur cs = Found n' xs \<Longrightarrow> \<exists>m. lookup root cur = Some m \<and> \<not> is_link m \<Longrightarrow>
    n' \<le> n \<and> (\<exists>m. lookup root xs = Some m \<and> \<not> is_link m)"
  using assms
proof (induction root n cur cs rule: namei.induct)
  case (2 root n cur c cs)
  show ?case
  proof (cases "step_name root n cur c")
    case (Inl r)
    with 2(2) step_name_not_found [of root n cur c] show ?thesis by (auto simp: namei.simps(2))
  next
    case (Inr z)
    obtain k cur' pre where z: "z = (k, cur', pre)" by (cases z)
    from 2(2) Inr z have "namei root k cur' (pre @ cs) = Found n' xs" by (simp add: namei.simps(2))
    from 2(1) [OF Inr z [symmetric] refl this] Inr z step_name_place [of root n cur c k cur' pre] 2(4)
      step_name_less [of root n cur c k cur' pre] show ?thesis by auto
  qed
qed auto

text \<open>A path without links resolves to itself.\<close>

lemma namei_self:
  assumes "fnode_ok root" "lookup root (cur @ xs) = Some m" "\<not> is_link m"
  shows "namei root n cur xs = Found n (cur @ xs)"
  using assms(2)
proof (induction xs arbitrary: cur)
  case (Cons x xs)
  obtain es where es: "lookup root cur = Some (Dir es)"
    using lookup_dir_prefix [OF Cons.prems] by blast
  have ok: "name_ok x" using lookup_ok [OF assms(1) Cons.prems] by simp
  from Cons.prems have "lookup root ((cur @ [x]) @ xs) = Some m" by simp
  then obtain k where k: "lookup root (cur @ [x]) = Some k" "lookup k xs = Some m"
    unfolding lookup_append [of root "cur @ [x]"] by (auto split: option.splits)
  then have "map_of es x = Some k" using es by (auto simp: lookup_append split: option.splits)
  moreover have "\<not> is_link k" using k(2) assms(3) by (cases k; cases xs) auto
  ultimately have "step_name root n cur x = Inr (n, cur @ [x], [])"
    using es ok by (intro step_name_dir(2)) (auto simp: name_ok_def)
  with Cons.IH [of "cur @ [x]"] Cons.prems show ?case by (simp add: namei.simps(2))
qed simp

end
