(* ===== verification/Containment.thy ===== *)
theory Containment
  imports File_System
begin

text \<open>
  What \<^verbatim>\<open>HttpServer::handle_static_request\<close> serves from a file system with symbolic links
  (\<open>File_System\<close>).  Targets whose decoded path has no dot-dot are served exactly when they
  lead to a file that is physically inside the root directory.  A dot-dot can only come from
  an encoded slash, which the test of the handler on the segments does not see; behind a
  missing name it keeps \<^verbatim>\<open>weakly_canonical\<close> from resolving the links after it.
\<close>

section \<open>Weakly canonical paths\<close>

lemma fs_ok_root: "fs_ok fs \<Longrightarrow> fnode_ok (fs_root fs) \<and> is_dir (fs_root fs)"
  by (simp add: fs_ok_def)

lemma is_dir_not_link: "is_dir m \<Longrightarrow> \<not> is_link m"
  by (cases m) simp_all

text \<open>What is found exists, is not a link and has proper names.\<close>

lemma resolve_found:
  assumes "fs_ok fs" "resolve fs p = Found n xs"
  obtains m where "lookup (fs_root fs) xs = Some m" "\<not> is_link m" "\<forall>x\<in>set xs. name_ok x"
proof -
  have place: "\<exists>m. lookup (fs_root fs) (if b then [] else fs_cwd fs) = Some m \<and> \<not> is_link m" for b
    using assms(1) is_dir_not_link [of "fs_root fs"]
    by (auto simp: fs_ok_def split: option.splits fnode.splits)
  have "namei (fs_root fs) 40 (if hd (c_str p) = slash then [] else fs_cwd fs) (components (c_str p)) = Found n xs"
    using assms(2) by (simp add: resolve_def Let_def split: if_split_asm)
  from namei_found [OF conjunct2 [OF fs_ok_root [OF assms(1)]] this place]
  obtain m where "lookup (fs_root fs) xs = Some m" "\<not> is_link m" by blast
  with lookup_ok fs_ok_root [OF assms(1)] that show ?thesis by blast
qed

lemma c_str_id: "CHR 0x00 \<notin> set p \<Longrightarrow> c_str p = p"
  by (auto simp: c_str_def takeWhile_eq_all_conv)

lemma resolve_absolute:
  "hd p = slash \<Longrightarrow> p \<noteq> [] \<Longrightarrow> CHR 0x00 \<notin> set p \<Longrightarrow> resolve fs p = namei (fs_root fs) 40 [] (components p)"
  by (simp add: resolve_def c_str_id)

lemma path_of_no_null: "\<forall>x\<in>set xs. CHR 0x00 \<notin> set x \<Longrightarrow> CHR 0x00 \<notin> set (path_of xs t)"
  by (auto simp: path_of_def absolute_string_def)

text \<open>A canonical path resolves to itself.\<close>

lemma resolve_canonical:
  assumes "fs_ok fs" "lookup (fs_root fs) xs = Some m" "\<not> is_link m"
  shows "resolve fs (absolute_string xs) = Found 40 xs"
proof -
  have ok: "\<forall>x\<in>set xs. name_ok x" using lookup_ok fs_ok_root [OF assms(1)] assms(2) by blast
  then have plain: "\<forall>x\<in>set xs. plain_name x" by (simp add: name_ok_plain)
  have "resolve fs (path_of xs False) = namei (fs_root fs) 40 [] (components (path_of xs False))"
    using ok path_of_no_null [of xs False] by (intro resolve_absolute) (auto simp: name_ok_def)
  also have "components (path_of xs False) = xs @ (if xs = [] then [''.''] else [])"
    using components_path_of [OF plain, of False] by simp
  also have "namei (fs_root fs) 40 [] (xs @ (if xs = [] then [''.''] else [])) = Found 40 xs"
  proof (cases "xs = []")
    case True
    obtain es where "fs_root fs = Dir es" using fs_ok_root [OF assms(1)] by (cases "fs_root fs") auto
    then show ?thesis using True step_name_dir(1) [of "fs_root fs" "[]" es 40] by (simp add: namei.simps(2))
  next
    case False
    with namei_self [of "fs_root fs" "[]" xs m 40] assms fs_ok_root [OF assms(1)] show ?thesis by simp
  qed
  finally show ?thesis by (simp add: path_of_def)
qed

text \<open>The loop over the elements of an absolute path stops at some name or at a trailing slash.\<close>

lemma leading_stops:
  assumes "leading fs (path_of xs False) (ys @ tr) = Inr (result, rest)" "tr = [] \<or> tr = [[]]"
    and "\<forall>x\<in>set xs. plain_name x" "\<forall>x\<in>set ys. plain_name x"
  shows "(\<exists>us vs. ys = us @ vs \<and> result = path_of (xs @ us) False \<and> rest = vs @ tr \<and> rest \<noteq> []
      \<and> fs_exists fs (path_append result (hd rest)) = Inr False)
    \<or> rest = [] \<and> (tr = [] \<and> result = path_of (xs @ ys) False
        \<or> tr = [[]] \<and> fs_exists fs (path_of (xs @ ys) True) = Inr True)"
  using assms
proof (induction ys arbitrary: xs)
  case Nil
  then show ?case
    by (auto simp: path_append_of split: sum.splits bool.splits)
next
  case (Cons y ys)
  then have app: "path_append (path_of xs False) y = path_of (xs @ [y]) False" by (simp add: path_append_of)
  show ?case
  proof (cases "fs_exists fs (path_append (path_of xs False) y)")
    case (Inl m)
    with Cons.prems show ?thesis by simp
  next
    case (Inr b)
    show ?thesis
    proof (cases b)
      case True
      with Cons.prems Inr app have "leading fs (path_of (xs @ [y]) False) (ys @ tr) = Inr (result, rest)" by simp
      from Cons.IH [OF this Cons.prems(2)] Cons.prems(3,4)
      consider us vs where "ys = us @ vs" "result = path_of ((xs @ [y]) @ us) False" "rest = vs @ tr" "rest \<noteq> []"
          "fs_exists fs (path_append result (hd rest)) = Inr False"
        | "rest = []" "tr = [] \<and> result = path_of ((xs @ [y]) @ ys) False
            \<or> tr = [[]] \<and> fs_exists fs (path_of ((xs @ [y]) @ ys) True) = Inr True" by auto
      then show ?thesis
      proof cases
        case 1
        then have "y # ys = (y # us) @ vs" "result = path_of (xs @ (y # us)) False" by simp_all
        with 1(3,4,5) show ?thesis by blast
      next
        case 2
        then show ?thesis by simp
      qed
    next
      case False
      with Cons.prems Inr have "result = path_of (xs @ []) False" "rest = (y # ys) @ tr" by simp_all
      with False Inr show ?thesis by fastforce
    qed
  qed
qed

text \<open>Normal forms of absolute paths without dot-dots.\<close>

lemma normal_names_plain:
  "''..'' \<notin> set zs \<Longrightarrow> normal_names rooted acc b zs =
     (acc @ filter (\<lambda>c. c \<noteq> [] \<and> c \<noteq> ''.'') zs, if zs = [] then b else last zs = [] \<or> last zs = ''.'')"
  by (induction zs arbitrary: acc b) auto

lemma join_absolute: "slash # join xs = absolute_string xs"
proof (induction xs rule: join.induct)
  case (3 x y xs)
  then show ?case by (simp add: absolute_string_def)
qed (simp_all add: absolute_string_def)

lemma normal_names_append:
  "normal_names rooted acc b (xs @ ys) = (case normal_names rooted acc b xs of (a, b') \<Rightarrow> normal_names rooted a b' ys)"
  by (induction xs arbitrary: acc b) auto

lemma lexically_normal_names:
  assumes "\<forall>z\<in>set zs. plain_name z" "ws \<noteq> [] \<Longrightarrow> last ws \<noteq> ''..''"
    and normal: "normal_names True [] False (zs @ (if zs \<noteq> [] \<and> t then [[]] else [])) = (ws, b)"
  shows "lexically_normal (path_of zs t) = path_of ws b"
proof -
  let ?tr = "if path_names [] (path_of zs t) \<noteq> [] \<and> last (path_of zs t) = slash then [[]] else []"
  have names: "path_names [] (path_of zs t) @ ?tr = zs @ (if zs \<noteq> [] \<and> t then [[]] else [])"
    using path_of_names [OF assms(1), of t] path_of_last [OF assms(1), of t] by auto
  have rooted: "sv_starts_with (path_of zs t) slash" by (simp add: sv_starts_with_def)
  have "lexically_normal (path_of zs t) =
      (let s = [slash] @ join ws @ (if b \<and> ws \<noteq> [] \<and> last ws \<noteq> ''..'' then [slash] else [])
       in if s = [] then ''.'' else s)"
    by (simp only: lexically_normal_def Let_def rooted names normal prod.case path_of_simps if_False if_True simp_thms)
  then show ?thesis using assms(2) join_absolute [of ws] by (auto simp: path_of_def)
qed

lemma lexically_normal_of:
  assumes "\<forall>z\<in>set zs. plain_name z" "''..'' \<notin> set zs"
  shows "lexically_normal (path_of zs t) =
    path_of (filter (\<lambda>c. c \<noteq> ''.'') zs) (zs \<noteq> [] \<and> (t \<or> last zs = ''.''))"
proof (rule lexically_normal_names [OF assms(1)])
  have nonempty: "filter (\<lambda>c. c \<noteq> [] \<and> c \<noteq> ''.'') zs = filter (\<lambda>c. c \<noteq> ''.'') zs" "[] \<notin> set zs"
    using assms(1) by (auto simp: plain_name_def intro: filter_cong)
  then have "zs \<noteq> [] \<Longrightarrow> last zs \<noteq> []" using last_in_set by metis
  then show "normal_names True [] False (zs @ (if zs \<noteq> [] \<and> t then [[]] else [])) =
      (filter (\<lambda>c. c \<noteq> ''.'') zs, zs \<noteq> [] \<and> (t \<or> last zs = ''.''))"
    using assms(2) nonempty(1) by (subst normal_names_plain) auto
  show "filter (\<lambda>c. c \<noteq> ''.'') zs \<noteq> [] \<Longrightarrow> last (filter (\<lambda>c. c \<noteq> ''.'') zs) \<noteq> ''..''"
    using assms(2) last_in_set [of "filter (\<lambda>c. c \<noteq> ''.'') zs"] by auto
qed

text \<open>
  When the elements \<open>us\<close> lead to \<open>xs\<close> but one element further leads nowhere, nothing opens
  under \<open>xs\<close> and the remaining elements, even though dots are removed from these.
\<close>

lemma nothing_beyond:
  assumes ok: "fs_ok fs" and us: "namei (fs_root fs) 40 [] us = Found k xs"
    and stop: "namei (fs_root fs) 40 [] (us @ [e]) = Missing \<or> namei (fs_root fs) 40 [] (us @ [e]) = NotDirectory"
    and rest: "cs \<noteq> []" "e \<noteq> ''.'' \<Longrightarrow> hd cs = e"
  shows "namei (fs_root fs) 40 xs cs \<noteq> Found n ys"
proof -
  note root = fs_ok_root [OF ok]
  have "\<exists>m. lookup (fs_root fs) [] = Some m \<and> \<not> is_link m"
    using root is_dir_not_link [of "fs_root fs"] by simp
  from namei_found [OF conjunct2 [OF root] us this] obtain m where
    k: "k \<le> 40" and m: "lookup (fs_root fs) xs = Some m" "\<not> is_link m" by blast
  from stop us have here: "namei (fs_root fs) k xs [e] = Missing \<or> namei (fs_root fs) k xs [e] = NotDirectory"
    by (simp add: namei_append)
  with namei_more [of "fs_root fs" k xs "[e]" "40 - k"] k
  have more: "namei (fs_root fs) 40 xs [e] = Missing \<or> namei (fs_root fs) 40 xs [e] = NotDirectory" by auto
  obtain c cs' where cs: "cs = c # cs'" using rest(1) by (cases cs) auto
  show ?thesis
  proof (cases m)
    case File
    with m have "step_name (fs_root fs) 40 xs c = Inl NotDirectory" by (simp add: step_name_def)
    with cs show ?thesis by (simp add: namei.simps(2))
  next
    case (Dir es)
    with m step_name_dir(1) [of "fs_root fs" xs es k] here have "e \<noteq> ''.''" by (auto simp: namei.simps(2))
    with rest(2) cs have "cs = [e] @ cs'" by simp
    with more show ?thesis using namei_append [of "fs_root fs" 40 xs "[e]" cs'] by auto
  next
    case (Link t)
    with m show ?thesis by simp
  qed
qed

lemma resolve_path_of:
  assumes "\<forall>x\<in>set xs. plain_name x" "\<forall>x\<in>set xs. CHR 0x00 \<notin> set x"
  shows "resolve fs (path_of xs t) = namei (fs_root fs) 40 [] (xs @ (if xs = [] \<or> t then [''.''] else []))"
  using resolve_absolute [of "path_of xs t" fs] path_of_no_null [OF assms(2), of t] components_path_of [OF assms(1), of t]
  by simp

lemma namei_root_dot:
  assumes "fs_ok fs"
  shows "namei (fs_root fs) 40 [] (xs @ (if xs = [] then [''.''] else [])) = namei (fs_root fs) 40 [] xs"
proof -
  obtain es where "fs_root fs = Dir es" using fs_ok_root [OF assms] by (cases "fs_root fs") auto
  then show ?thesis using step_name_dir(1) [of "fs_root fs" "[]" es 40] by (simp add: namei.simps(2))
qed

lemma fs_exists_False:
  "fs_exists fs p = Inr False \<longleftrightarrow> resolve fs p = Missing \<or> resolve fs p = NotDirectory"
  by (auto simp: fs_exists_def split: resolution.splits)

lemma leading_opened:
  assumes ok: "fs_ok fs" and plain: "\<forall>x\<in>set (us @ vs). plain_name x" "\<forall>x\<in>set (us @ vs). CHR 0x00 \<notin> set x"
      "''..'' \<notin> set (us @ vs)" "tr = [] \<or> tr = [[]]" "vs @ tr \<noteq> []"
    and stop: "fs_exists fs (path_append (path_of us False) (hd (vs @ tr))) = Inr False"
    and canon: "canonical fs (path_of us False) = Inr c"
  shows "resolve fs (lexically_normal (foldl path_append c (vs @ tr))) \<noteq> Found n ys"
proof -
  from canon obtain k xs where "resolve fs (path_of us False) = Found k xs" and c: "c = path_of xs False"
    by (auto simp: canonical_def path_of_def split: resolution.splits)
  then have us: "namei (fs_root fs) 40 [] us = Found k xs" and f: "resolve fs (path_of us False) = Found k xs"
    using resolve_path_of [of us fs False] namei_root_dot [OF ok, of us] plain by simp_all
  obtain m where m: "lookup (fs_root fs) xs = Some m" "\<not> is_link m" "\<forall>x\<in>set xs. name_ok x"
    by (rule resolve_found [OF ok f])
  then have xs: "\<forall>x\<in>set xs. plain_name x" "\<forall>x\<in>set xs. CHR 0x00 \<notin> set x" "''..'' \<notin> set xs" "''.'' \<notin> set xs"
    by (auto simp: name_ok_def plain_name_def)
  let ?e = "if vs = [] then ''.'' else hd vs"
  let ?zs = "xs @ vs" and ?t = "tr = [[]]"
  let ?ws = "filter (\<lambda>c. c \<noteq> ''.'') ?zs" and ?b = "?zs \<noteq> [] \<and> (?t \<or> last ?zs = ''.'')"
  have e: "namei (fs_root fs) 40 [] (us @ [?e]) = Missing \<or> namei (fs_root fs) 40 [] (us @ [?e]) = NotDirectory"
  proof (cases vs)
    case Nil
    with stop plain resolve_path_of [of us fs True] show ?thesis
      by (auto simp: fs_exists_False path_append_of)
  next
    case (Cons v vs')
    with stop plain resolve_path_of [of "us @ [v]" fs False] show ?thesis
      by (auto simp: fs_exists_False path_append_of)
  qed
  have "foldl path_append c (vs @ tr) = path_of ?zs ?t"
    using foldl_path_append [of xs vs] xs plain c by (cases "tr = []") auto
  then have normal: "lexically_normal (foldl path_append c (vs @ tr)) = path_of ?ws ?b"
    using lexically_normal_of [of ?zs ?t] xs plain by auto
  let ?tail = "filter (\<lambda>c. c \<noteq> ''.'') vs @ (if ?ws = [] \<or> ?b then [''.''] else [])"
  have ws: "?ws = xs @ filter (\<lambda>c. c \<noteq> ''.'') vs" using xs(4) by (auto intro!: filter_True)
  have "resolve fs (path_of ?ws ?b) = namei (fs_root fs) 40 [] (?ws @ (if ?ws = [] \<or> ?b then [''.''] else []))"
    using xs plain by (intro resolve_path_of) auto
  also have "\<dots> = namei (fs_root fs) 40 [] (xs @ ?tail)" using ws by simp
  also have "\<dots> = namei (fs_root fs) 40 xs ?tail"
    using namei_self [of "fs_root fs" "[]" xs m 40] m fs_ok_root [OF ok] by (simp add: namei_append)
  finally have res: "resolve fs (path_of ?ws ?b) = namei (fs_root fs) 40 xs ?tail" .
  have "?tail \<noteq> []"
  proof (cases "filter (\<lambda>c. c \<noteq> ''.'') vs = []")
    case True
    then have "vs \<noteq> [] \<Longrightarrow> last vs = ''.''" using last_in_set [of vs] by (auto simp: filter_empty_conv)
    with plain(4,5) True ws show ?thesis by (cases "vs = []") auto
  qed simp
  moreover have "hd ?tail = ?e" if "?e \<noteq> ''.''"
    using that by (cases vs) (auto split: if_splits)
  ultimately show ?thesis
    unfolding normal res by (rule nothing_beyond [OF ok us e])
qed

text \<open>An absolute path by its names and its trailing slash.\<close>

abbreviation trailer :: "string \<Rightarrow> string list" where
  "trailer q \<equiv> (if last q = slash \<and> path_names [] q \<noteq> [] then [[]] else [])"

lemma names_plain: "\<forall>x\<in>set (path_names [] q). plain_name x"
  using path_names_plain [of "[]" q] by simp

lemma names_no_null: "CHR 0x00 \<notin> set q \<Longrightarrow> \<forall>x\<in>set (path_names [] q). CHR 0x00 \<notin> set x"
  using path_names_chars [of "[]" q] by auto

lemma resolve_names:
  assumes "hd q = slash" "q \<noteq> []" "CHR 0x00 \<notin> set q"
  shows "resolve fs q = resolve fs (path_of (path_names [] q) (last q = slash))"
  using resolve_absolute [OF assms, of fs] components_absolute(1) [OF assms(1,2)]
    resolve_absolute [of "path_of (path_names [] q) (last q = slash)" fs] path_of_no_null [OF names_no_null [OF assms(3)]]
  by simp

lemma leading_absolute:
  assumes "fs_ok fs" "hd q = slash" "q \<noteq> []"
  shows "leading fs [] (path_elems q) = leading fs (path_of [] False) (path_names [] q @ trailer q)"
proof -
  have "fs_exists fs [slash] = Inr True"
    using resolve_canonical [OF assms(1), of "[]"] fs_ok_root [OF assms(1)] is_dir_not_link
    by (simp add: fs_exists_def)
  then show ?thesis
    unfolding components_absolute(2) [OF assms(2,3)] path_elems_of [OF names_plain]
    by (simp add: path_append_def sv_starts_with_def path_of_def)
qed

text \<open>The weakly canonical form of a path that does not exist.\<close>

lemma absent_form:
  assumes ok: "fs_ok fs" and q: "hd q = slash" "q \<noteq> []" "CHR 0x00 \<notin> set q"
    and absent: "fs_exists fs q = Inr False" and wc: "fs_weakly_canonical fs q = Inr target"
  obtains us vs c where "path_names [] q = us @ vs" "vs @ trailer q \<noteq> []"
    "fs_exists fs (path_append (path_of us False) (hd (vs @ trailer q))) = Inr False"
    "canonical fs (path_of us False) = Inr c" "target = lexically_normal (foldl path_append c (vs @ trailer q))"
proof -
  let ?ns = "path_names [] q"
  note same = resolve_names [OF q, of fs]
  define tr where "tr = trailer q"
  have tr: "tr = [] \<or> tr = [[]]" by (simp add: tr_def)
  from absent wc leading_absolute [OF ok q(1,2)] obtain result rest c where
    r: "leading fs (path_of [] False) (?ns @ tr) = Inr (result, rest)"
      "result \<noteq> [] \<Longrightarrow> canonical fs result = Inr c \<and> target = lexically_normal (foldl path_append c rest)"
    unfolding tr_def
    by (auto simp: fs_weakly_canonical_def simp del: if_split_asm split: sum.splits prod.splits)
      (auto split: if_splits sum.splits)
  from leading_stops [OF r(1) tr _ names_plain] consider us vs where "?ns = us @ vs" "result = path_of us False"
      "rest = vs @ tr" "rest \<noteq> []" "fs_exists fs (path_append result (hd rest)) = Inr False"
    | "tr = []" "result = path_of ?ns False" | "tr = [[]]" "fs_exists fs (path_of ?ns True) = Inr True"
    by (auto simp del: path_of_simps)
  then show ?thesis
  proof cases
    case 1
    with r(2) show ?thesis by (intro that [of us vs c, folded tr_def]) simp_all
  next
    case 2
    then have "path_of ?ns (last q = slash) = path_of ?ns False"
      by (auto simp: tr_def path_of_def split: if_splits)
    with 2 same absent r(2) show ?thesis by (auto simp: fs_exists_False canonical_def)
  next
    case 3
    then have "last q = slash" by (auto simp: tr_def split: if_splits)
    with 3 same absent show ?thesis by (auto simp: fs_exists_def split: resolution.splits)
  qed
qed

text \<open>The core of containment: what opens under the weakly canonical form of an absolute path
  without dot-dots is what the path itself leads to, and the form is then canonical.\<close>

lemma weakly_canonical_opened:
  assumes ok: "fs_ok fs" and q: "hd q = slash" "q \<noteq> []" "CHR 0x00 \<notin> set q" "''..'' \<notin> set (path_names [] q)"
    and wc: "fs_weakly_canonical fs q = Inr target" and found: "resolve fs target = Found n ys"
  shows "(\<exists>m. resolve fs q = Found m ys) \<and> target = absolute_string ys"
proof (cases "fs_exists fs q")
  case (Inl m)
  with wc show ?thesis by (simp add: fs_weakly_canonical_def)
next
  case (Inr b)
  show ?thesis
  proof (cases b)
    case True
    with Inr wc obtain k xs where k: "resolve fs q = Found k xs" "target = absolute_string xs"
      by (auto simp: fs_weakly_canonical_def fs_exists_def canonical_def split: resolution.splits)
    obtain m where "lookup (fs_root fs) xs = Some m" "\<not> is_link m" by (rule resolve_found [OF ok k(1)])
    with resolve_canonical [OF ok this] found k show ?thesis by simp
  next
    case False
    with Inr have absent: "fs_exists fs q = Inr False" by simp
    have tr: "trailer q = [] \<or> trailer q = [[]]" by simp
    obtain us vs c where form: "path_names [] q = us @ vs" "vs @ trailer q \<noteq> []"
      "fs_exists fs (path_append (path_of us False) (hd (vs @ trailer q))) = Inr False"
      "canonical fs (path_of us False) = Inr c" "target = lexically_normal (foldl path_append c (vs @ trailer q))"
      by (rule absent_form [OF ok q(1,2,3) absent wc])
    from leading_opened [OF ok _ _ _ tr form(2,3,4)] names_plain [of q] names_no_null [OF q(3)] q(4) found form(5)
    show ?thesis unfolding form(1) by blast
  qed
qed

section \<open>The handler on a file system\<close>

lemma fs_environment_simps [simp]:
  "parse_origin_form (fs_environment fs parse h n) = parse"
  "weakly_canonical (fs_environment fs parse h n) = fs_weakly_canonical fs"
  "open_file (fs_environment fs parse h n) = fs_open fs"
  by (simp_all add: fs_environment_def)

lemma fs_open_Opened: "fs_open fs p = Opened ys \<longleftrightarrow> (\<exists>n. resolve fs p = Found n ys)"
  by (auto simp: fs_open_def split: resolution.splits)

text \<open>Names below a canonical root.\<close>

lemma prefix_path_elems_of:
  assumes "\<forall>x\<in>set xs. plain_name x" "\<forall>x\<in>set ys. plain_name x"
    and "prefix (path_elems (absolute_string xs)) (path_elems (absolute_string ys))"
  shows "prefix xs ys"
  using assms(3) path_elems_of [OF assms(1), of False] path_elems_of [OF assms(2), of False]
  by (simp add: path_of_def)

text \<open>The file system path of a request: the root's canonical path and the decoded path.\<close>

definition rel_ok :: "string \<Rightarrow> bool" where
  "rel_ok rel \<longleftrightarrow> CHR 0x00 \<notin> set rel \<and> ''..'' \<notin> set (path_names [] rel)"

lemma names_append:
  assumes "\<forall>x\<in>set xs. plain_name x" "rel_ok rel"
    "\<forall>x\<in>set xs. CHR 0x00 \<notin> set x" "''..'' \<notin> set xs"
  shows "hd (path_append (absolute_string xs) rel) = slash" "path_append (absolute_string xs) rel \<noteq> []"
    "CHR 0x00 \<notin> set (path_append (absolute_string xs) rel)"
    "''..'' \<notin> set (path_names [] (path_append (absolute_string xs) rel))"
proof -
  have "CHR 0x00 \<notin> set (absolute_string xs)"
    using path_of_no_null [OF assms(3), of False] by (simp add: path_of_def)
  moreover have "hd (absolute_string xs @ s) = slash" for s by simp
  moreover have "path_names [] (absolute_string xs @ rel) = xs @ path_names [] rel" if "last (absolute_string xs) = slash"
    using that absolute_last [OF assms(1)] by (cases "xs = []") auto
  ultimately show "hd (path_append (absolute_string xs) rel) = slash" "path_append (absolute_string xs) rel \<noteq> []"
    "CHR 0x00 \<notin> set (path_append (absolute_string xs) rel)"
    "''..'' \<notin> set (path_names [] (path_append (absolute_string xs) rel))"
    using assms(2,4) path_names_absolute(2) [OF assms(1), of rel]
    by (auto simp: path_append_def sv_starts_with_def rel_ok_def)
qed

lemma c_str_c_str [simp]: "c_str (c_str p) = c_str p"
  by (simp add: c_str_def takeWhile_idem)

lemma resolve_c_str [simp]: "resolve fs (c_str p) = resolve fs p"
  by (simp add: resolve_def)

lemma weakly_canonical_found:
  "resolve fs p = Found k xs \<Longrightarrow> fs_weakly_canonical fs p = Inr (absolute_string xs)"
  by (simp add: fs_weakly_canonical_def fs_exists_def canonical_def)

lemma absolute_inj:
  assumes "\<forall>x\<in>set xs. plain_name x" "\<forall>x\<in>set ys. plain_name x" "prefix xs ys"
  shows "prefix (path_elems (absolute_string xs)) (path_elems (absolute_string ys))"
  using assms(3) path_elems_of [OF assms(1), of False] path_elems_of [OF assms(2), of False]
  by (simp add: path_of_def)

text \<open>What is opened below a root is inside it.\<close>

lemma resolves_inside:
  assumes "fs_ok fs" "resolve fs root_dir = Found k base"
    and "resolves (fs_environment fs parse h n) req root_dir index_file b target"
    and "prefix (path_elems b) (path_elems target)" "fs_open fs (c_str target) = Opened ys"
    and "\<And>uv. parse (rq_target req) = Some uv \<Longrightarrow> rel_ok (relative_path (url_path uv) index_file)"
  obtains uv i where "parse (rq_target req) = Some uv"
    "resolve fs (path_append (absolute_string base) (relative_path (url_path uv) index_file)) = Found i ys"
    "prefix base ys"
proof -
  obtain m where "\<forall>x\<in>set base. name_ok x" by (rule resolve_found [OF assms(1,2)])
  then have base: "\<forall>x\<in>set base. plain_name x" "\<forall>x\<in>set base. CHR 0x00 \<notin> set x" "''..'' \<notin> set base"
    by (auto simp: name_ok_def plain_name_def)
  from assms(3) weakly_canonical_found [OF assms(2)] obtain uv where uv: "parse (rq_target req) = Some uv"
    "fs_weakly_canonical fs (path_append (absolute_string base) (relative_path (url_path uv) index_file)) = Inr target"
    "b = absolute_string base" by (auto simp: resolves_def)
  from assms(5) obtain j where found: "resolve fs target = Found j ys" by (auto simp: fs_open_Opened)
  from weakly_canonical_opened [OF assms(1) names_append [OF base(1) assms(6) [OF uv(1)] base(2,3)] uv(2) found]
  obtain i where i: "resolve fs (path_append (absolute_string base) (relative_path (url_path uv) index_file)) = Found i ys"
    "target = absolute_string ys" by blast
  obtain m' where "\<forall>x\<in>set ys. name_ok x" by (rule resolve_found [OF assms(1) i(1)])
  then have "prefix base ys"
    using prefix_path_elems_of [OF base(1), of ys] assms(4) uv(3) i(2) by (simp add: name_ok_plain)
  with uv(1) i(1) that show ?thesis by blast
qed

section \<open>Properties\<close>

text \<open>C12. On a file system with links, a file is served exactly when the decoded path, taken below
  the root, leads to it and it is physically inside the root: its canonical path extends the
  root's.  This holds for every target whose decoded path has no dot-dot and no NUL.\<close>

theorem static_serves_inside:
  assumes "fs_ok fs" "resolve fs root_dir = Found k base"
    and "parse (rq_target req) = Some uv" "''..'' \<notin> set (url_segments uv)"
    and "rel_ok (relative_path (url_path uv) index_file)"
  shows "(\<exists>res. handle_static_request (fs_environment fs parse h n) req root_dir index_file = Returns res
      \<and> rs_status res = OK \<and> rs_body res = FileBody ys) \<longleftrightarrow>
    (\<exists>i. resolve fs (path_append (absolute_string base) (relative_path (url_path uv) index_file)) = Found i ys)
      \<and> prefix base ys"
proof -
  let ?q = "path_append (absolute_string base) (relative_path (url_path uv) index_file)"
  obtain m where "\<forall>x\<in>set base. name_ok x" by (rule resolve_found [OF assms(1,2)])
  then have base: "\<forall>x\<in>set base. plain_name x" "\<forall>x\<in>set base. CHR 0x00 \<notin> set x" "''..'' \<notin> set base"
    by (auto simp: name_ok_def plain_name_def)
  have root: "fs_weakly_canonical fs root_dir = Inr (absolute_string base)"
    by (rule weakly_canonical_found [OF assms(2)])
  show ?thesis
    unfolding static_serves_iff
  proof
    assume "\<exists>b target. resolves (fs_environment fs parse h n) req root_dir index_file b target
      \<and> prefix (path_elems b) (path_elems target) \<and> open_file (fs_environment fs parse h n) (c_str target) = Opened ys"
    then obtain b target where r: "resolves (fs_environment fs parse h n) req root_dir index_file b target"
      "prefix (path_elems b) (path_elems target)" "fs_open fs (c_str target) = Opened ys" by auto
    show "(\<exists>i. resolve fs ?q = Found i ys) \<and> prefix base ys"
      by (rule resolves_inside [OF assms(1,2) r]) (use assms(3,5) in auto)
  next
    assume "(\<exists>i. resolve fs ?q = Found i ys) \<and> prefix base ys"
    then obtain i where i: "resolve fs ?q = Found i ys" "prefix base ys" by blast
    obtain m' where m': "lookup (fs_root fs) ys = Some m'" "\<not> is_link m'" "\<forall>x\<in>set ys. name_ok x"
      by (rule resolve_found [OF assms(1) i(1)])
    have "resolves (fs_environment fs parse h n) req root_dir index_file (absolute_string base) (absolute_string ys)"
      using root assms(3,4) weakly_canonical_found [OF i(1)] by (simp add: resolves_def)
    moreover have "prefix (path_elems (absolute_string base)) (path_elems (absolute_string ys))"
      using absolute_inj [OF base(1) _ i(2)] m'(3) by (simp add: name_ok_plain)
    moreover have "open_file (fs_environment fs parse h n) (c_str (absolute_string ys)) = Opened ys"
      using resolve_canonical [OF assms(1) m'(1,2)] by (simp add: fs_open_Opened)
    ultimately show "\<exists>b target. resolves (fs_environment fs parse h n) req root_dir index_file b target
      \<and> prefix (path_elems b) (path_elems target) \<and> open_file (fs_environment fs parse h n) (c_str target) = Opened ys"
      by blast
  qed
qed

text \<open>A public directory with a link inside it and a link out of it.\<close>

definition leak_fs :: fs where
  "leak_fs = \<lparr>fs_root = Dir [(''etc'', Dir [(''passwd'', File)]),
     (''srv'', Dir [(''public'', Dir [(''index.html'', File), (''leak'', Link ''/etc/passwd''),
        (''docs'', Dir [(''here'', Link ''../index.html'')])])])],
     fs_cwd = [''srv'']\<rparr>"

definition leak_parse :: "string \<Rightarrow> url option" where
  "leak_parse t =
     (if t = ''/docs/here'' then Some \<lparr>url_path = t, url_segments = [''docs'', ''here'']\<rparr>
      else if t = ''/leak'' then Some \<lparr>url_path = t, url_segments = [''leak'']\<rparr>
      else if t = ''/x%2f..%2fleak'' then Some \<lparr>url_path = ''/x/../leak'', url_segments = [''x/../leak'']\<rparr>
      else None)"

abbreviation leak_env :: "string list environment" where
  "leak_env \<equiv> fs_environment leak_fs leak_parse (\<lambda>s. of_nat (length s)) 13"

lemma leak_fs_ok: "fs_ok leak_fs" "resolve leak_fs ''./public/'' = Found 40 [''srv'', ''public'']"
  by code_simp+

theorem static_serves_inside_witness:
  "\<exists>res. handle_static_request leak_env (sample_request ''/docs/here'') ''./public/'' ''index.html'' = Returns res
     \<and> rs_status res = OK \<and> rs_body res = FileBody [''srv'', ''public'', ''index.html'']"
proof -
  let ?uv = "\<lparr>url_path = ''/docs/here'', url_segments = [''docs'', ''here'']\<rparr>"
  have p: "leak_parse (rq_target (sample_request ''/docs/here'')) = Some ?uv" by code_simp
  have s: "''..'' \<notin> set (url_segments ?uv)" "rel_ok (relative_path (url_path ?uv) ''index.html'')"
    "prefix [''srv'', ''public''] [''srv'', ''public'', ''index.html'']" by code_simp+
  have "resolve leak_fs (path_append (absolute_string [''srv'', ''public'']) (relative_path (url_path ?uv) ''index.html''))
      = Found 39 [''srv'', ''public'', ''index.html'']" by code_simp
  with s(3) static_serves_inside [where index_file = "''index.html''" and parse = leak_parse, OF leak_fs_ok p s(1,2)] show ?thesis by blast
qed

text \<open>The loop passes over directories.\<close>

lemma leading_existing:
  assumes "fs_ok fs"
  shows "lookup (fs_root fs) (xs @ ys) = Some (Dir es) \<Longrightarrow>
    leading fs (path_of xs False) (ys @ rest) = leading fs (path_of (xs @ ys) False) rest"
proof (induction ys arbitrary: xs)
  case (Cons y ys)
  have ok: "\<forall>z\<in>set (xs @ y # ys). plain_name z"
    using lookup_ok fs_ok_root [OF assms] Cons.prems name_ok_plain by blast
  have "\<exists>m. lookup (fs_root fs) (xs @ [y]) = Some m \<and> \<not> is_link m"
  proof (cases "ys = []")
    case True
    with Cons.prems show ?thesis by simp
  next
    case False
    with Cons.prems lookup_dir_prefix [of "fs_root fs" "xs @ [y]" ys] show ?thesis by fastforce
  qed
  then have "fs_exists fs (path_of (xs @ [y]) False) = Inr True"
    using resolve_canonical [OF assms] by (auto simp: fs_exists_def path_of_def)
  moreover have "path_append (path_of xs False) y = path_of (xs @ [y]) False"
    using ok by (simp add: path_append_of)
  ultimately show ?case using Cons.IH [of "xs @ [y]"] Cons.prems by simp
qed simp

lemma missing_name:
  assumes "fs_ok fs" "lookup (fs_root fs) base = Some (Dir es)" "map_of es x = None" "name_ok x"
    and "\<forall>z\<in>set cs. plain_name z" "\<forall>z\<in>set cs. CHR 0x00 \<notin> set z"
  shows "resolve fs (path_of (base @ x # cs) False) = Missing"
proof -
  have base: "\<forall>z\<in>set base. name_ok z" using lookup_ok fs_ok_root [OF assms(1)] assms(2) by blast
  have "resolve fs (path_of (base @ x # cs) False) = namei (fs_root fs) 40 [] (base @ x # cs)"
    using resolve_path_of [of "base @ x # cs" fs False] base assms(4,5,6) by (auto simp: name_ok_def plain_name_def)
  also have "\<dots> = namei (fs_root fs) 40 base (x # cs)"
    using namei_self [of "fs_root fs" "[]" base "Dir es" 40] assms(2) fs_ok_root [OF assms(1)] by (simp add: namei_append)
  also have "\<dots> = Missing"
    using assms(2,3,4) by (simp add: namei.simps(2) step_name_def name_ok_def)
  finally show ?thesis .
qed

text \<open>Behind a missing name a dot-dot is removed as text, and what follows is not resolved.\<close>

lemma weakly_canonical_unresolved:
  assumes ok: "fs_ok fs" and base: "lookup (fs_root fs) base = Some (Dir es)"
    and x: "map_of es x = None" "name_ok x" and c: "name_ok c"
  shows "fs_weakly_canonical fs (path_of (base @ [x, ''..'', c]) False) = Inr (absolute_string (base @ [c]))"
proof -
  let ?q = "path_of (base @ [x, ''..'', c]) False"
  have m: "\<forall>x\<in>set base. name_ok x" using lookup_ok fs_ok_root [OF ok] base by blast
  then have plain: "\<forall>z\<in>set base. plain_name z" "plain_name x" "plain_name c" "plain_name ''..''"
    using c x by (simp_all add: name_ok_plain, simp add: plain_name_def)
  have absent: "resolve fs ?q = Missing" "resolve fs (path_of (base @ [x]) False) = Missing"
    using missing_name [OF ok base x, of "[''..'', c]"] missing_name [OF ok base x, of "[]"] plain c
    by (auto simp: name_ok_def)
  have names: "path_names [] ?q = base @ [x, ''..'', c]" "last ?q \<noteq> slash"
    using path_of_names [of "base @ [x, ''..'', c]" False] path_of_last [of "base @ [x, ''..'', c]" False] plain by auto
  have "leading fs [] (path_elems ?q) = leading fs (path_of [] False) (base @ [x, ''..'', c])"
    using leading_absolute [OF ok, of ?q] names by simp
  also have "\<dots> = leading fs (path_of base False) [x, ''..'', c]"
    using leading_existing [OF ok, of "[]" base es] base by simp
  also have "\<dots> = Inr (path_of base False, [x, ''..'', c])"
    using absent(2) plain by (simp add: path_append_of fs_exists_def)
  finally have lead: "leading fs [] (path_elems ?q) = Inr (path_of base False, [x, ''..'', c])" .
  have canon: "canonical fs (path_of base False) = Inr (path_of base False)"
    using resolve_canonical [OF ok base] by (simp add: canonical_def path_of_def)
  have join: "foldl path_append (path_of base False) [x, ''..'', c] = ?q"
    using foldl_path_append(1) [of base "[x, ''..'', c]"] plain by simp
  have normal: "lexically_normal ?q = path_of (base @ [c]) False"
  proof (rule lexically_normal_names)
    have ne: "filter (\<lambda>z. z \<noteq> [] \<and> z \<noteq> ''.'') base = base" "''..'' \<notin> set base"
      using m by (auto simp: name_ok_def intro!: filter_True)
    then have "normal_names True [] False base = (base, if base = [] then False else last base = [] \<or> last base = ''.'')"
      by (simp add: normal_names_plain)
    with c x show "normal_names True [] False ((base @ [x, ''..'', c])
        @ (if base @ [x, ''..'', c] \<noteq> [] \<and> False then [[]] else [])) = (base @ [c], False)"
      by (simp add: normal_names_append name_ok_def)
    show "base @ [c] \<noteq> [] \<Longrightarrow> last (base @ [c]) \<noteq> ''..''" using c by (simp add: name_ok_def)
  qed (use plain in auto)
  show ?thesis
    using absent(1) lead canon join normal
    by (simp add: fs_weakly_canonical_def fs_exists_def path_of_def)
qed

text \<open>C13. Links are followed out of the root: for every link directly in the root directory, wherever it
  leads, and every name that is missing there, the request with the missing name, an encoded
  slash, dot-dot, an encoded slash and the link's name is answered with the file behind the
  link; the two tests for path traversal do not see it.\<close>

theorem static_follows_links:
  assumes "fs_ok fs" "resolve fs root_dir = Found k base" "lookup (fs_root fs) base = Some (Dir es)"
    and "map_of es x = None" "name_ok x" "map_of es c = Some (Link t)"
    and "resolve fs (absolute_string (base @ [c])) = Found i ys"
    and "parse (rq_target req) = Some \<lparr>url_path = slash # x @ ''/../'' @ c, url_segments = [x @ ''/../'' @ c]\<rparr>"
  shows "\<exists>res. handle_static_request (fs_environment fs parse h n) req root_dir index_file = Returns res
    \<and> rs_status res = OK \<and> rs_body res = FileBody ys"
proof -
  obtain m where m: "\<forall>x\<in>set base. name_ok x" by (rule resolve_found [OF assms(1,2)])
  have c: "name_ok c"
  proof -
    have "lookup (fs_root fs) (base @ [c]) = Some (Link t)"
      using assms(3,6) by (simp add: lookup_append)
    with lookup_ok fs_ok_root [OF assms(1)] show ?thesis by fastforce
  qed
  have plain: "\<forall>z\<in>set base. plain_name z" "plain_name x" "plain_name c" "plain_name ''..''"
    using m c assms(5) by (simp_all add: name_ok_plain, simp add: plain_name_def)
  let ?q = "path_of (base @ [x, ''..'', c]) False"
  have "last c \<noteq> slash" using plain(3) last_in_set [of c] by (metis plain_name_def)
  then have rel: "relative_path (slash # x @ ''/../'' @ c) index_file = x @ ''/../'' @ c"
    using plain(3) by (simp add: relative_path_def sv_starts_with_def plain_name_def)
  have "hd x \<noteq> slash" using plain(2) by (cases x) (auto simp: plain_name_def)
  then have q: "path_append (absolute_string base) (x @ ''/../'' @ c) = ?q"
    using plain absolute_last [OF plain(1)]
    by (cases "base = []") (auto simp: path_append_def sv_starts_with_def path_of_def absolute_string_def plain_name_def)
  have "fs_weakly_canonical fs ?q = Inr (absolute_string (base @ [c]))"
    by (rule weakly_canonical_unresolved [OF assms(1,3,4,5) c])
  then have "resolves (fs_environment fs parse h n) req root_dir index_file (absolute_string base) (absolute_string (base @ [c]))"
    using assms(8) weakly_canonical_found [OF assms(2)] rel q c assms(5)
    by (auto simp: resolves_def name_ok_def)
  moreover have "prefix (path_elems (absolute_string base)) (path_elems (absolute_string (base @ [c])))"
    using plain by (intro absolute_inj) auto
  moreover have "open_file (fs_environment fs parse h n) (c_str (absolute_string (base @ [c]))) = Opened ys"
    using assms(7) by (simp add: fs_open_Opened)
  ultimately show ?thesis unfolding static_serves_iff by blast
qed

theorem static_follows_links_witness:
  "\<exists>res. handle_static_request leak_env (sample_request ''/x%2f..%2fleak'') ''./public/'' ''index.html'' = Returns res
     \<and> rs_status res = OK \<and> rs_body res = FileBody [''etc'', ''passwd'']"
proof -
  have d: "lookup (fs_root leak_fs) [''srv'', ''public''] = Some (Dir [(''index.html'', File),
      (''leak'', Link ''/etc/passwd''), (''docs'', Dir [(''here'', Link ''../index.html'')])])"
    "map_of [(''index.html'', File), (''leak'', Link ''/etc/passwd''), (''docs'', Dir [(''here'', Link ''../index.html'')])] ''x''
      = None" "name_ok ''x''"
    "map_of [(''index.html'', File), (''leak'', Link ''/etc/passwd''), (''docs'', Dir [(''here'', Link ''../index.html'')])] ''leak''
      = Some (Link ''/etc/passwd'')"
    "resolve leak_fs (absolute_string ([''srv'', ''public''] @ [''leak''])) = Found 39 [''etc'', ''passwd'']"
    by code_simp+
  have "leak_parse (rq_target (sample_request ''/x%2f..%2fleak''))
      = Some \<lparr>url_path = slash # ''x'' @ ''/../'' @ ''leak'', url_segments = [''x'' @ ''/../'' @ ''leak'']\<rparr>"
    by code_simp
  from static_follows_links [where parse = leak_parse, OF leak_fs_ok d this] show ?thesis by blast
qed

end
