(* ===== verification/Logger_Model.thy ===== *)
theory Logger_Model
  imports Config
begin

text \<open>
  \<^verbatim>\<open>src/Logger.cpp\<close>: the life cycle of the application's logger over the global state of
  spdlog, and the JSON lines of the file sink.  spdlog's global state is a record; opening
  the log file and registering a logger can fail inside spdlog, so the errors are parameters.
  Because an exception does not undo earlier effects, the operations return the
  state beside the outcome.  After \<^verbatim>\<open>spdlog::shutdown\<close> there is no default logger, and the
  free functions of spdlog, which dereference it, are undefined: their value is \<open>None\<close>.
\<close>

section \<open>State\<close>

datatype level = LTrace | LDebug | LInfo | LWarn | LErr | LCritical | LOff

fun level_number :: "level \<Rightarrow> nat" where
  "level_number LTrace = 0"
| "level_number LDebug = 1"
| "level_number LInfo = 2"
| "level_number LWarn = 3"
| "level_number LErr = 4"
| "level_number LCritical = 5"
| "level_number LOff = 6"

text \<open>The levels are ordered by their numbers, as spdlog compares them.\<close>

instantiation level :: linorder
begin

definition less_eq_level :: "level \<Rightarrow> level \<Rightarrow> bool" where
  "less_eq_level a b = (level_number a \<le> level_number b)"

definition less_level :: "level \<Rightarrow> level \<Rightarrow> bool" where
  "less_level a b = (level_number a < level_number b)"

instance
proof
  fix a b :: level
  assume "a \<le> b" "b \<le> a"
  then show "a = b" by (cases a; cases b) (simp_all add: less_eq_level_def)
qed (auto simp: less_eq_level_def less_level_def)

end

datatype formatter = JsonFormatter | Pattern string

datatype sink =
    RotatingFileSink string "64 word" "64 word" formatter
  | StdoutColorSink formatter

record async_logger =
  lg_name :: string
  lg_sinks :: "sink list"
  lg_level :: level
  lg_flush_on :: level

text \<open>The default logger of spdlog: at first one to the standard output, registered under the
  empty name; then the one that was set; none after \<^verbatim>\<open>spdlog::shutdown\<close>.\<close>

datatype default_logger = StdoutDefault | AppLogger async_logger | NoDefault

record spdlog =
  sp_pattern :: string
  sp_level :: level
  sp_flush_on :: level
  sp_pool :: "(nat \<times> nat) option"
  sp_default :: default_logger
  sp_names :: "string list"
  sp_messages :: "string list"
  sp_flushed :: bool

record logger =
  lo_logger :: "async_logger option"
  lo_initialized :: bool

record log_api =
  open_file_error :: "string \<Rightarrow> 64 word \<Rightarrow> 64 word \<Rightarrow> string option"
  register_error :: "string list \<Rightarrow> string \<Rightarrow> string option"
  debug_build :: bool

type_synonym log_state = "logger \<times> spdlog"

definition initial_spdlog :: spdlog where
  "initial_spdlog =
     \<lparr>sp_pattern = [], sp_level = LInfo, sp_flush_on = LErr, sp_pool = None, sp_default = StdoutDefault,
      sp_names = [''''], sp_messages = [], sp_flushed = False\<rparr>"

definition new_logger :: logger where
  "new_logger = \<lparr>lo_logger = None, lo_initialized = False\<rparr>"

text \<open>A message reaches the default logger when its level is not below the logger's.\<close>

definition current_level :: "spdlog \<Rightarrow> level option" where
  "current_level sp = (case sp_default sp of
     StdoutDefault \<Rightarrow> Some (sp_level sp)
   | AppLogger lg \<Rightarrow> Some (lg_level lg)
   | NoDefault \<Rightarrow> None)"

definition log :: "level \<Rightarrow> string \<Rightarrow> spdlog \<Rightarrow> spdlog option" where
  "log lv m sp = (case current_level sp of
     None \<Rightarrow> None
   | Some l \<Rightarrow> Some (if l \<le> lv then sp\<lparr>sp_messages := sp_messages sp @ [m]\<rparr> else sp))"

definition info :: "string \<Rightarrow> spdlog \<Rightarrow> spdlog option" where
  "info m sp = log LInfo m sp"

definition build_level :: "log_api \<Rightarrow> level" where
  "build_level api = (if debug_build api then LTrace else LInfo)"

section \<open>Operations\<close>

definition initialize_bootstrap :: "log_api \<Rightarrow> log_state \<Rightarrow> log_state option" where
  "initialize_bootstrap api = (\<lambda>(lo, sp).
     if lo_initialized lo then Some (lo, sp)
     else
       (let sp = sp\<lparr>sp_pattern := ''[%Y-%m-%d %H:%M:%S] [BOOTSTRAP] [%^%l%$] %v'',
                   sp_level := build_level api, sp_flush_on := LErr\<rparr>
        in case info ''Starting VeloxServ pre-flight sequence...'' sp of
             None \<Rightarrow> None
           | Some sp \<Rightarrow> Some (lo, sp)))"

text \<open>The sinks of a configuration: the file first, then the console.  \<^verbatim>\<open>max_files\<close> is
  converted from \<^verbatim>\<open>int\<close> to \<^verbatim>\<open>size_t\<close>.\<close>

definition add_file_sink :: "log_api \<Rightarrow> logging_config \<Rightarrow> sink list \<Rightarrow> string + sink list" where
  "add_file_sink api c sinks =
     (if file_output c
      then (case open_file_error api (log_file c) (max_file_size c) (scast (max_files c)) of
              Some m \<Rightarrow> Inl m
            | None \<Rightarrow> Inr (sinks @ [RotatingFileSink (log_file c) (max_file_size c) (scast (max_files c)) JsonFormatter]))
      else Inr sinks)"

definition add_console_sink :: "logging_config \<Rightarrow> sink list \<Rightarrow> sink list" where
  "add_console_sink c sinks =
     (if console_output c
      then sinks @ [StdoutColorSink (Pattern ''[%Y-%m-%d %H:%M:%S.%e] [%^%l%$] [thread %t] %v'')]
      else sinks)"

text \<open>A call throws, or logs through a default logger that is not there.\<close>

datatype log_failure = LogError string | NullLogger

definition initialize :: "log_api \<Rightarrow> server_config \<Rightarrow> log_state \<Rightarrow> log_state \<times> (log_failure + unit)" where
  "initialize api config = (\<lambda>(lo, sp).
     if lo_initialized lo then ((lo, sp), Inr ())
     else
       (let sp = sp\<lparr>sp_pool := Some (8192, 1)\<rparr>
        in case add_file_sink api (sc_logging config) [] of
             Inl m \<Rightarrow> ((lo, sp), Inl (LogError m))
           | Inr file_sinks \<Rightarrow>
               (let sinks = add_console_sink (sc_logging config) file_sinks
                in if sinks = [] then ((lo, sp), Inl (LogError ''Logger requires at least one enabled sink''))
                   else
                     (let lg = \<lparr>lg_name = sc_name config, lg_sinks = sinks, lg_level = build_level api,
                                lg_flush_on = LErr\<rparr>
                      in case register_error api (sp_names sp) (lg_name lg) of
                           Some m \<Rightarrow> ((lo, sp), Inl (LogError m))
                         | None \<Rightarrow>
                             (let sp = sp\<lparr>sp_names := lg_name lg # sp_names sp\<rparr>;
                                  sp = sp\<lparr>sp_default := AppLogger lg\<rparr>;
                                  lo = lo\<lparr>lo_logger := Some lg, lo_initialized := True\<rparr>
                              in case info ''Logging initialized'' sp of
                                   None \<Rightarrow> ((lo, sp), Inl NullLogger)
                                 | Some sp \<Rightarrow> ((lo, sp), Inr ()))))))"

text \<open>\<^verbatim>\<open>spdlog::shutdown\<close> drops all loggers and the thread pool; the destructor of \<^verbatim>\<open>Logger\<close>
  shuts down.\<close>

definition shutdown :: "log_state \<Rightarrow> log_state" where
  "shutdown = (\<lambda>(lo, sp).
     if \<not> lo_initialized lo then (lo, sp)
     else
       (let sp = (if lo_logger lo \<noteq> None then sp\<lparr>sp_flushed := True\<rparr> else sp);
            sp = sp\<lparr>sp_default := NoDefault, sp_names := [], sp_pool := None\<rparr>
        in (lo\<lparr>lo_logger := None, lo_initialized := False\<rparr>, sp)))"

definition destroy_logger :: "log_state \<Rightarrow> log_state" where
  "destroy_logger st = shutdown st"

definition is_initialized :: "logger \<Rightarrow> bool" where
  "is_initialized lo = lo_initialized lo"

section \<open>JSON lines\<close>

text \<open>A message of spdlog; formatting its time and dumping a record are library calls, and dumping
  one throws when a string of it is not UTF-8.  The destination has grown only when
  nothing was thrown.\<close>

record log_msg =
  m_level :: string
  m_logger_name :: string
  m_payload :: string
  m_time :: nat
  m_thread_id :: nat

datatype json = JString string | JNumber nat

definition json_format ::
  "(string \<Rightarrow> nat \<Rightarrow> string) \<Rightarrow> ((string \<times> json) list \<Rightarrow> string + string) \<Rightarrow> log_msg \<Rightarrow> string \<Rightarrow> string + string" where
  "json_format format_time dump message destination =
     (let timestamp = format_time ''{:%Y-%m-%dT%H:%M:%S.%e}Z'' (m_time message);
          record =
            [(''timestamp'', JString timestamp), (''level'', JString (m_level message)),
             (''logger'', JString (m_logger_name message)), (''message'', JString (m_payload message)),
             (''thread_id'', JNumber (m_thread_id message))]
      in case dump record of
           Inl m \<Rightarrow> Inl m
         | Inr dumped \<Rightarrow> Inr (destination @ dumped @ [CHR 0x0A]))"

section \<open>Sequences of operations\<close>

datatype log_op = Bootstrap | Initialize server_config | Shutdown

fun log_exec :: "log_api \<Rightarrow> log_op \<Rightarrow> log_state \<Rightarrow> log_state option" where
  "log_exec api Bootstrap st = initialize_bootstrap api st"
| "log_exec api (Initialize c) st =
     (case initialize api c st of (st', Inl NullLogger) \<Rightarrow> None | (st', _) \<Rightarrow> Some st')"
| "log_exec api Shutdown st = Some (shutdown st)"

definition log_run :: "log_api \<Rightarrow> log_op list \<Rightarrow> log_state option" where
  "log_run api ops = foldl (\<lambda>st x. Option.bind st (log_exec api x)) (Some (new_logger, initial_spdlog)) ops"

text \<open>What holds between operations: the flag says whether there is a logger, and that logger is
  spdlog's default with at least one sink and a thread pool behind it.  Without one, only
  the names that spdlog starts with are registered, or none.\<close>

definition log_inv :: "log_state \<Rightarrow> bool" where
  "log_inv st \<longleftrightarrow>
     (let (lo, sp) = st
      in (lo_initialized lo \<longleftrightarrow> lo_logger lo \<noteq> None)
        \<and> (\<forall>lg. lo_logger lo = Some lg \<longleftrightarrow> sp_default sp = AppLogger lg)
        \<and> (sp_default sp = StdoutDefault \<longrightarrow> sp_names sp = [''''])
        \<and> (sp_default sp = NoDefault \<longrightarrow> sp_names sp = [])
        \<and> (\<forall>lg. lo_logger lo = Some lg \<longrightarrow> lg_sinks lg \<noteq> [] \<and> sp_pool sp = Some (8192, 1)))"

text \<open>The sinks that a configuration asks for, and when the logger can be set up.\<close>

definition wanted_sinks :: "logging_config \<Rightarrow> sink list" where
  "wanted_sinks c =
     (if file_output c
      then [RotatingFileSink (log_file c) (max_file_size c) (scast (max_files c)) JsonFormatter] else [])
     @ (if console_output c
        then [StdoutColorSink (Pattern ''[%Y-%m-%d %H:%M:%S.%e] [%^%l%$] [thread %t] %v'')] else [])"

definition can_log :: "log_api \<Rightarrow> string list \<Rightarrow> server_config \<Rightarrow> bool" where
  "can_log api names c \<longleftrightarrow>
     (file_output (sc_logging c) \<or> console_output (sc_logging c))
     \<and> (file_output (sc_logging c) \<longrightarrow>
          open_file_error api (log_file (sc_logging c)) (max_file_size (sc_logging c))
            (scast (max_files (sc_logging c))) = None)
     \<and> register_error api names (sc_name c) = None"

abbreviation wanted_logger :: "log_api \<Rightarrow> server_config \<Rightarrow> async_logger" where
  "wanted_logger api c \<equiv>
     \<lparr>lg_name = sc_name c, lg_sinks = wanted_sinks (sc_logging c), lg_level = build_level api, lg_flush_on = LErr\<rparr>"

text \<open>Information is logged in every build.\<close>

lemma build_level_info [simp]: "build_level api \<le> LInfo"
  by (simp add: build_level_def less_eq_level_def)

lemma info_default:
  "info m sp = (case sp_default sp of
     NoDefault \<Rightarrow> None
   | StdoutDefault \<Rightarrow> Some (if sp_level sp \<le> LInfo then sp\<lparr>sp_messages := sp_messages sp @ [m]\<rparr> else sp)
   | AppLogger lg \<Rightarrow> Some (if lg_level lg \<le> LInfo then sp\<lparr>sp_messages := sp_messages sp @ [m]\<rparr> else sp))"
  by (simp add: info_def log_def current_level_def split: default_logger.split)

lemma initialize_fresh:
  assumes "\<not> lo_initialized lo"
  shows "if can_log api (sp_names sp) c
    then initialize api c (lo, sp) =
          ((lo\<lparr>lo_logger := Some (wanted_logger api c), lo_initialized := True\<rparr>,
            sp\<lparr>sp_pool := Some (8192, 1), sp_names := sc_name c # sp_names sp, sp_default := AppLogger (wanted_logger api c),
               sp_messages := sp_messages sp @ [''Logging initialized'']\<rparr>), Inr ())
    else \<exists>m. initialize api c (lo, sp) = ((lo, sp\<lparr>sp_pool := Some (8192, 1)\<rparr>), Inl (LogError m))"
  using assms
  by (cases "file_output (sc_logging c)"; cases "console_output (sc_logging c)";
      cases "open_file_error api (log_file (sc_logging c)) (max_file_size (sc_logging c))
            (scast (max_files (sc_logging c)))"; cases "register_error api (sp_names sp) (sc_name c)")
    (simp_all add: initialize_def can_log_def wanted_sinks_def add_file_sink_def add_console_sink_def Let_def info_default)

lemma can_log_sinks: "can_log api names c \<Longrightarrow> wanted_sinks (sc_logging c) \<noteq> []"
  by (auto simp: can_log_def wanted_sinks_def)

section \<open>The logger as a machine\<close>

text \<open>Seen from outside the logger has three phases: before its first initialization, up, and
  down again.  Bootstrapping it while it is down dereferences the missing default logger.\<close>

datatype log_phase = Fresh | Up | Down

fun phase_names :: "log_phase \<Rightarrow> string list" where
  "phase_names Fresh = ['''']"
| "phase_names _ = []"

fun phase_next :: "log_api \<Rightarrow> log_op \<Rightarrow> log_phase \<Rightarrow> log_phase option" where
  "phase_next api Bootstrap ph = (if ph = Down then None else Some ph)"
| "phase_next api (Initialize c) ph = Some (if ph = Up \<or> can_log api (phase_names ph) c then Up else ph)"
| "phase_next api Shutdown ph = Some (if ph = Up then Down else ph)"

definition log_phases :: "log_api \<Rightarrow> log_op list \<Rightarrow> log_phase option" where
  "log_phases api ops = foldl (\<lambda>ph x. Option.bind ph (phase_next api x)) (Some Fresh) ops"

definition phase_of_log :: "log_state \<Rightarrow> log_phase" where
  "phase_of_log st = (case sp_default (snd st) of StdoutDefault \<Rightarrow> Fresh | AppLogger _ \<Rightarrow> Up | NoDefault \<Rightarrow> Down)"

lemma log_inv_cases:
  assumes "log_inv (lo, sp)"
  obtains (down) "\<not> lo_initialized lo" "lo_logger lo = None" "sp_names sp = phase_names (phase_of_log (lo, sp))"
      "phase_of_log (lo, sp) \<noteq> Up" "\<forall>lg. sp_default sp \<noteq> AppLogger lg"
  | (up) lg where "lo_initialized lo" "lo_logger lo = Some lg" "sp_default sp = AppLogger lg" "phase_of_log (lo, sp) = Up"
      "lg_sinks lg \<noteq> []" "sp_pool sp = Some (8192, 1)"
  using assms by (cases "sp_default sp") (auto simp: log_inv_def phase_of_log_def)

text \<open>One operation: the invariant is kept, and the phase moves as the machine says.\<close>

lemma log_exec_phase:
  assumes "log_inv st"
  shows "map_option phase_of_log (log_exec api x st) = phase_next api x (phase_of_log st)"
    "log_exec api x st = Some st' \<Longrightarrow> log_inv st'"
proof -
  obtain lo sp where st: "st = (lo, sp)" by (cases st)
  note inv = assms [unfolded st]
  have "map_option phase_of_log (log_exec api x st) = phase_next api x (phase_of_log st)
      \<and> (\<forall>st'. log_exec api x st = Some st' \<longrightarrow> log_inv st')"
  proof (cases x)
    case Bootstrap
    with inv st show ?thesis
      by (cases rule: log_inv_cases)
        (auto simp: initialize_bootstrap_def info_default phase_of_log_def log_inv_def Let_def split: default_logger.splits)
  next
    case (Initialize c)
    from inv show ?thesis
    proof (cases rule: log_inv_cases)
      case down
      with inv initialize_fresh [OF down(1), of api sp c] can_log_sinks [of api "sp_names sp" c] show ?thesis
        unfolding st Initialize by (auto simp: log_inv_def phase_of_log_def split: if_splits)
    next
      case up
      with inv show ?thesis unfolding st Initialize by (simp add: initialize_def)
    qed
  next
    case Shutdown
    from inv show ?thesis unfolding st Shutdown
      by (cases rule: log_inv_cases) (auto simp: shutdown_def log_inv_def phase_of_log_def Let_def)
  qed
  then show "map_option phase_of_log (log_exec api x st) = phase_next api x (phase_of_log st)"
    "log_exec api x st = Some st' \<Longrightarrow> log_inv st'" by blast+
qed

lemma log_run_snoc: "log_run api (ops @ [x]) = Option.bind (log_run api ops) (log_exec api x)"
  by (simp add: log_run_def)

lemma log_phases_snoc: "log_phases api (ops @ [x]) = Option.bind (log_phases api ops) (phase_next api x)"
  by (simp add: log_phases_def)

lemma log_run_phases:
  "map_option phase_of_log (log_run api ops) = log_phases api ops \<and> (\<forall>st. log_run api ops = Some st \<longrightarrow> log_inv st)"
proof (induction ops rule: rev_induct)
  case Nil
  show ?case by (simp add: log_run_def log_phases_def log_inv_def phase_of_log_def new_logger_def initial_spdlog_def)
next
  case (snoc x ops)
  show ?case
  proof (cases "log_run api ops")
    case None
    with snoc show ?thesis by (auto simp: log_run_snoc log_phases_snoc)
  next
    case (Some st)
    with snoc have inv: "log_inv st" and ph: "log_phases api ops = Some (phase_of_log st)" by auto
    from Some ph log_exec_phase [OF inv, of api x] show ?thesis
      by (simp add: log_run_snoc log_phases_snoc)
  qed
qed

section \<open>Properties\<close>

definition plain_api :: log_api where
  "plain_api = \<lparr>open_file_error = (\<lambda>_ _ _. None),
     register_error = (\<lambda>names n. if n \<in> set names then Some ''logger with this name already exists'' else None),
     debug_build = False\<rparr>"

text \<open>C38. After any sequence of bootstrap, initialize and shutdown calls, failed ones included, the
  logger over the state of spdlog is a machine of three phases; the behaviour is undefined
  exactly when the machine has no step, which is a bootstrap call while the logger is down
  after a shutdown.  Otherwise the logger says it is initialized exactly when the machine is
  up; it then holds a logger, which is spdlog's default, has a sink and a thread pool.\<close>

theorem logger_refines_phases:
  "(case log_run api ops of
      None \<Rightarrow> log_phases api ops = None
    | Some (lo, sp) \<Rightarrow> log_phases api ops = Some (phase_of_log (lo, sp))
        \<and> (is_initialized lo \<longleftrightarrow> log_phases api ops = Some Up)
        \<and> (is_initialized lo \<longleftrightarrow>
             (\<exists>lg. lo_logger lo = Some lg \<and> sp_default sp = AppLogger lg \<and> lg_sinks lg \<noteq> [] \<and> sp_pool sp = Some (8192, 1))))"
proof (cases "log_run api ops")
  case None
  with log_run_phases [of api ops] show ?thesis by simp
next
  case (Some st)
  obtain lo sp where st: "st = (lo, sp)" by (cases st)
  with Some log_run_phases [of api ops] have inv: "log_inv (lo, sp)" and ph: "log_phases api ops = Some (phase_of_log (lo, sp))"
    by auto
  from inv ph show ?thesis
    by (cases rule: log_inv_cases) (auto simp: Some st is_initialized_def)
qed

text \<open>Initializing a logger succeeds exactly when some sink is enabled, the log file opens if it is
  wanted, and the name can be registered beside those that are; the logger then has the
  wanted sinks, file first.  A failure leaves it uninitialized, so that the destructor does
  nothing; a second call changes nothing.\<close>

lemma logger_initialize:
  "(if lo_initialized lo then initialize api c (lo, sp) = ((lo, sp), Inr ())
    else if can_log api (sp_names sp) c
    then snd (initialize api c (lo, sp)) = Inr ()
      \<and> is_initialized (fst (fst (initialize api c (lo, sp))))
      \<and> map_option lg_sinks (lo_logger (fst (fst (initialize api c (lo, sp))))) = Some (wanted_sinks (sc_logging c))
      \<and> last (sp_messages (snd (fst (initialize api c (lo, sp))))) = ''Logging initialized''
    else (\<exists>m. snd (initialize api c (lo, sp)) = Inl (LogError m))
      \<and> destroy_logger (fst (initialize api c (lo, sp))) = fst (initialize api c (lo, sp)))"
proof (cases "lo_initialized lo")
  case True
  then show ?thesis by (simp add: initialize_def)
next
  case False
  with initialize_fresh [OF False, of api sp c] show ?thesis
    by (auto simp: is_initialized_def destroy_logger_def shutdown_def split: if_splits)
qed

end
