(* ===== verification/Server.thy ===== *)
theory Server
  imports Session Config
begin

text \<open>
  \<^verbatim>\<open>HttpServer\<close> and its \<^verbatim>\<open>Impl\<close> (\<^verbatim>\<open>src/HttpServer.hpp\<close>,
  \<^verbatim>\<open>src/HttpServer.cpp\<close>): construction, the routes of the configuration, and the accept
  loop.  A handler is the lambda registered for a route, which is determined by the route
  it captures; sockets are values of a type \<open>'s\<close>.  Parsing an address and opening the
  listening socket belong to Boost.Asio and are parameters.
\<close>

section \<open>Construction\<close>

text \<open>\<open>address_error\<close> is \<^verbatim>\<open>make_address\<close>: \<open>None\<close> for a valid address, otherwise the
  message of its exception.  \<open>listen_error\<close> is the constructor of the acceptor.\<close>

record network =
  address_error :: "string \<Rightarrow> string option"
  listen_error :: "string \<Rightarrow> 16 word \<Rightarrow> string option"

record 's server =
  sv_config :: server_config
  sv_endpoint :: "string \<times> 16 word"
  sv_routes :: "route_config table"
  sv_accepts :: nat
  sv_sessions :: "'s list"
  sv_accept_logs :: nat

text \<open>The port is narrowed from \<^verbatim>\<open>unsigned int\<close> to the 16 bits of an endpoint.\<close>

definition new_impl :: "network \<Rightarrow> server_config \<Rightarrow> string + 's server" where
  "new_impl net config =
     (case address_error net (sc_host config) of
        Some m \<Rightarrow> Inl m
      | None \<Rightarrow>
          (let port = ucast (sc_port config)
           in case listen_error net (sc_host config) port of
                Some m \<Rightarrow> Inl m
              | None \<Rightarrow>
                  Inr \<lparr>sv_config = config, sv_endpoint = (sc_host config, port), sv_routes = empty_table,
                       sv_accepts = 0, sv_sessions = [], sv_accept_logs = 0\<rparr>))"

definition add_handler :: "string \<Rightarrow> route_config \<Rightarrow> 's server \<Rightarrow> 's server" where
  "add_handler path handler s = s\<lparr>sv_routes := assign path handler (sv_routes s)\<rparr>"

fun load_config_routes :: "route_config list \<Rightarrow> 's server \<Rightarrow> 's server" where
  "load_config_routes [] s = s"
| "load_config_routes (r # rs) s =
     (case rc_type r of
        Static \<Rightarrow> load_config_routes rs (add_handler (rc_path r) r s)
      | Proxy \<Rightarrow> load_config_routes rs s)"

definition new_server :: "network \<Rightarrow> server_config \<Rightarrow> string + 's server" where
  "new_server net config =
     (case new_impl net config of
        Inl m \<Rightarrow> Inl m
      | Inr s \<Rightarrow> Inr (load_config_routes (sc_routes config) s))"

section \<open>Accepting connections\<close>

definition accept_request :: "'s server \<Rightarrow> 's server" where
  "accept_request s = s\<lparr>sv_accepts := sv_accepts s + 1\<rparr>"

text \<open>\<open>None\<close> is an error; a started session is recorded by its socket.\<close>

definition on_accept :: "'s option \<Rightarrow> 's server \<Rightarrow> 's server" where
  "on_accept result s =
     (let s = (case result of Some socket \<Rightarrow> s\<lparr>sv_sessions := sv_sessions s @ [socket]\<rparr> | None \<Rightarrow> s);
          s = accept_request s
      in s\<lparr>sv_accept_logs := sv_accept_logs s + 1\<rparr>)"

definition run :: "'s server \<Rightarrow> 's server" where
  "run s = accept_request s"

text \<open>\<^verbatim>\<open>HttpServer\<close> forwards to its implementation.\<close>

definition server_route :: "string \<Rightarrow> route_config \<Rightarrow> 's server \<Rightarrow> 's server" where
  "server_route path handler s = add_handler path handler s"

definition server_run :: "'s server \<Rightarrow> 's server" where
  "server_run s = run s"

text \<open>An outstanding accept completes with a socket or an error.\<close>

inductive accept_step :: "'s server \<Rightarrow> 's option \<Rightarrow> 's server \<Rightarrow> bool" where
  "0 < sv_accepts s \<Longrightarrow> accept_step s result (on_accept result (s\<lparr>sv_accepts := sv_accepts s - 1\<rparr>))"

inductive accept_run :: "'s server \<Rightarrow> 's option list \<Rightarrow> 's server \<Rightarrow> bool" for s0 :: "'s server" where
  accept_start: "accept_run s0 [] (run s0)"
| accept_next: "accept_run s0 rs s \<Longrightarrow> accept_step s r s' \<Longrightarrow> accept_run s0 (rs @ [r]) s'"

inductive_simps accept_step_simp: "accept_step s r s'"

lemma accept_run_one: "accept_run s0 rs s \<Longrightarrow> sv_accepts s0 = 0 \<Longrightarrow> sv_accepts s = 1"
proof (induction rule: accept_run.induct)
  case accept_start
  then show ?case by (simp add: run_def accept_request_def)
next
  case (accept_next rs s r s')
  then show ?case
    by (auto simp: accept_step_simp on_accept_def accept_request_def Let_def split: option.split)
qed

section \<open>The handler of a route\<close>

definition static_handler :: "'f environment \<Rightarrow> route_config \<Rightarrow> request \<Rightarrow> 'f response outcome" where
  "static_handler env r req = handle_static_request env req (rc_root r) (rc_index r)"

interpretation static_handlers: request_handler "static_handler env" for env
  by unfold_locales (simp add: static_handler_def handle_answers)

abbreviation static_routes :: "route_config list \<Rightarrow> (string \<times> route_config) list" where
  "static_routes rs \<equiv> map (\<lambda>r. (rc_path r, r)) (filter (\<lambda>r. rc_type r = Static) rs)"

lemma load_config_routes_fold:
  "load_config_routes rs s = s\<lparr>sv_routes := foldl (\<lambda>t (k, h). assign k h t) (sv_routes s) (static_routes rs)\<rparr>"
  by (induction rs arbitrary: s) (auto simp: add_handler_def split: route_type.split)

lemma new_server_cases:
  assumes "new_server net c = Inr s"
  shows "address_error net (sc_host c) = None" "listen_error net (sc_host c) (ucast (sc_port c)) = None"
    "s = \<lparr>sv_config = c, sv_endpoint = (sc_host c, ucast (sc_port c)),
          sv_routes = foldl (\<lambda>t (k, h). assign k h t) empty_table (static_routes (sc_routes c)),
          sv_accepts = 0, sv_sessions = [], sv_accept_logs = 0\<rparr>"
proof -
  show a: "address_error net (sc_host c) = None"
    using assms by (cases "address_error net (sc_host c)") (simp_all add: new_server_def new_impl_def)
  show l: "listen_error net (sc_host c) (ucast (sc_port c)) = None"
    using assms a by (cases "listen_error net (sc_host c) (ucast (sc_port c))")
      (simp_all add: new_server_def new_impl_def)
  show "s = \<lparr>sv_config = c, sv_endpoint = (sc_host c, ucast (sc_port c)),
          sv_routes = foldl (\<lambda>t (k, h). assign k h t) empty_table (static_routes (sc_routes c)),
          sv_accepts = 0, sv_sessions = [], sv_accept_logs = 0\<rparr>"
    using assms a l by (simp add: new_server_def new_impl_def load_config_routes_fold)
qed

lemma server_table:
  assumes "new_server net c = Inr s"
  shows "table_ok (sv_routes s)" "map_of (sv_routes s) = map_of (rev (static_routes (sc_routes c)))"
proof -
  have eq: "sv_routes s = foldl (\<lambda>t (k, h). assign k h t) empty_table (static_routes (sc_routes c))"
    unfolding new_server_cases(3) [OF assms] by (rule server.select_convs)
  show "table_ok (sv_routes s)"
    unfolding eq by (rule route_table.invar_update_all [OF route_table.invar_empty])
  have none: "map_of (empty_table :: route_config table) = Map.empty" by (simp add: empty_table_def)
  show "map_of (sv_routes s) = map_of (rev (static_routes (sc_routes c)))"
    unfolding eq route_table.items_update_all [OF route_table.invar_empty] none by (rule empty_map_add)
qed

text \<open>The last entry of a key in a list.\<close>

lemma map_of_rev_last:
  "map_of (rev kvs) k = Some v \<longleftrightarrow> (\<exists>us vs. kvs = us @ (k, v) # vs \<and> k \<notin> fst ` set vs)"
proof (induction kvs rule: rev_induct)
  case (snoc x kvs)
  obtain a b where x: "x = (a, b)" by (cases x)
  show ?case
  proof (cases "a = k")
    case True
    have "(\<exists>us vs. kvs @ [(k, b)] = us @ (k, v) # vs \<and> k \<notin> fst ` set vs) \<longleftrightarrow> b = v"
    proof
      assume "\<exists>us vs. kvs @ [(k, b)] = us @ (k, v) # vs \<and> k \<notin> fst ` set vs"
      then obtain us vs where eq: "kvs @ [(k, b)] = us @ (k, v) # vs" "k \<notin> fst ` set vs" by blast
      then have "vs = []" by (cases vs rule: rev_cases) auto
      with eq show "b = v" by simp
    next
      assume "b = v"
      then show "\<exists>us vs. kvs @ [(k, b)] = us @ (k, v) # vs \<and> k \<notin> fst ` set vs" by force
    qed
    with True x show ?thesis by simp
  next
    case False
    have "(\<exists>us vs. kvs @ [(a, b)] = us @ (k, v) # vs \<and> k \<notin> fst ` set vs)
        \<longleftrightarrow> (\<exists>us vs. kvs = us @ (k, v) # vs \<and> k \<notin> fst ` set vs)"
    proof
      assume "\<exists>us vs. kvs @ [(a, b)] = us @ (k, v) # vs \<and> k \<notin> fst ` set vs"
      then obtain us vs where eq: "kvs @ [(a, b)] = us @ (k, v) # vs" "k \<notin> fst ` set vs" by blast
      with False obtain ws where "vs = ws @ [(a, b)]" by (cases vs rule: rev_cases) auto
      with eq show "\<exists>us vs. kvs = us @ (k, v) # vs \<and> k \<notin> fst ` set vs" by auto
    next
      assume "\<exists>us vs. kvs = us @ (k, v) # vs \<and> k \<notin> fst ` set vs"
      then obtain us vs where "kvs = us @ (k, v) # vs" "k \<notin> fst ` set vs" by blast
      with False show "\<exists>us vs. kvs @ [(a, b)] = us @ (k, v) # vs \<and> k \<notin> fst ` set vs"
        by (intro exI [of _ us] exI [of _ "vs @ [(a, b)]"]) auto
    qed
    with False x snoc show ?thesis by simp
  qed
qed simp


lemma last_keyed:
  "(\<exists>us vs. map (\<lambda>r. (f r, r)) xs = us @ (k, x) # vs \<and> k \<notin> fst ` set vs) \<longleftrightarrow>
   (\<exists>us vs. xs = us @ x # vs \<and> f x = k \<and> (\<forall>y\<in>set vs. f y \<noteq> k))"
proof
  assume "\<exists>us vs. map (\<lambda>r. (f r, r)) xs = us @ (k, x) # vs \<and> k \<notin> fst ` set vs"
  then obtain us vs where eq: "map (\<lambda>r. (f r, r)) xs = us @ (k, x) # vs" "k \<notin> fst ` set vs" by blast
  from eq(1) obtain as bs where "xs = as @ x # bs" "f x = k" "vs = map (\<lambda>r. (f r, r)) bs"
    by (auto simp: map_eq_append_conv map_eq_Cons_conv)
  moreover from this(3) eq(2) have "\<forall>y\<in>set bs. f y \<noteq> k" by (auto simp: image_image)
  ultimately show "\<exists>us vs. xs = us @ x # vs \<and> f x = k \<and> (\<forall>y\<in>set vs. f y \<noteq> k)" by blast
next
  assume "\<exists>us vs. xs = us @ x # vs \<and> f x = k \<and> (\<forall>y\<in>set vs. f y \<noteq> k)"
  then obtain us vs where "xs = us @ x # vs" "f x = k" "\<forall>y\<in>set vs. f y \<noteq> k" by blast
  then show "\<exists>us vs. map (\<lambda>r. (f r, r)) xs = us @ (k, x) # vs \<and> k \<notin> fst ` set vs"
    by (intro exI [of _ "map (\<lambda>r. (f r, r)) us"] exI [of _ "map (\<lambda>r. (f r, r)) vs"]) auto
qed

text \<open>Whatever file a server sends in answer to a request belongs to a static route of its
  configuration whose path is a prefix of the request's path, and the file's resolved path
  extends the canonical root of that route element by element.\<close>

lemma server_serves_contained:
  assumes "new_server net c = Inr s"
    and "respond (parse_origin_form env) (static_handler env) (sv_routes s) req = Returns res"
    and "rs_body res = FileBody f"
  shows "\<exists>r base target. r \<in> set (sc_routes c) \<and> rc_type r = Static
    \<and> prefix (rc_path r) (request_path (parse_origin_form env) req)
    \<and> resolves env req (rc_root r) (rc_index r) base target
    \<and> prefix (path_elems base) (path_elems target) \<and> open_file env (c_str target) = Opened f"
proof -
  let ?path = "request_path (parse_origin_form env) req"
  from assms(2,3) obtain k r where sel: "select ?path (sv_routes s) = Some (k, r)"
    "static_handler env r req = Returns res"
    by (auto simp: respond_def factory_defs split: option.splits outcome.splits)
  then have "longest ?path (map_of (sv_routes s)) k r"
    using route_table.select_longest [OF server_table(1) [OF assms(1)]] by blast
  then have k: "prefix k ?path" "map_of (sv_routes s) k = Some r" by (simp_all add: longest_def)
  then have "(k, r) \<in> set (static_routes (sc_routes c))"
    unfolding server_table(2) [OF assms(1)] by (auto dest: map_of_SomeD)
  then have r: "r \<in> set (sc_routes c)" "rc_type r = Static" "rc_path r = k" by auto
  have "\<exists>base target. resolves env req (rc_root r) (rc_index r) base target
      \<and> prefix (path_elems base) (path_elems target) \<and> open_file env (c_str target) = Opened f"
    using sel(2) assms(3) unfolding static_handler_def by (rule handle_file)
  with r k(1) show ?thesis by blast
qed

section \<open>Properties\<close>

text \<open>Two static routes for the same path, one below it and a proxy route.\<close>

definition four_routes :: "route_config list" where
  "four_routes = map (\<lambda>(p, ty, root). \<lparr>rc_path = p, rc_type = ty, rc_root = root, rc_index = ''index.html'',
       rc_upstream = []\<rparr>)
     [(''/'', Static, ''./old''), (''/api'', Proxy, []), (''/docs'', Static, ''./docs''), (''/'', Static, ''./public/'')]"

definition four_config :: server_config where
  "four_config = default_config\<lparr>sc_routes := four_routes\<rparr>"

definition open_network :: network where
  "open_network = \<lparr>address_error = (\<lambda>h. if h = ''127.0.0.1'' then None else Some ''invalid''),
     listen_error = (\<lambda>h p. None)\<rparr>"

definition four_server :: "nat server" where
  "four_server = (case new_server open_network four_config of Inr s \<Rightarrow> s)"

lemma four_server: "new_server open_network four_config = Inr four_server"
  by (simp add: four_server_def new_server_def new_impl_def open_network_def four_config_def default_config_def)

text \<open>C34. The routes of a server: a path is handled by the last static route of the configuration
  with that path; proxy routes register nothing.\<close>

theorem server_routes:
  assumes "new_server net c = Inr s"
  shows "map_of (sv_routes s) p = Some r \<longleftrightarrow>
    (\<exists>us vs. filter (\<lambda>r. rc_type r = Static) (sc_routes c) = us @ r # vs \<and> rc_path r = p
       \<and> (\<forall>r'\<in>set vs. rc_path r' \<noteq> p))"
  unfolding server_table(2) [OF assms] map_of_rev_last by (rule last_keyed)

theorem server_routes_witness:
  "\<exists>r. map_of (sv_routes four_server) ''/'' = Some r \<and> rc_root r = ''./public/''
     \<and> map_of (sv_routes four_server) ''/api'' = None"
proof -
  have "filter (\<lambda>r. rc_type r = Static) (sc_routes four_config) = [four_routes ! 0, four_routes ! 2] @ four_routes ! 3 # []"
    "rc_path (four_routes ! 3) = ''/''" "rc_root (four_routes ! 3) = ''./public/''"
    "\<forall>r\<in>set (filter (\<lambda>r. rc_type r = Static) (sc_routes four_config)). rc_path r \<noteq> ''/api''"
    by (simp_all add: four_config_def four_routes_def)
  moreover from this(1,2) have "map_of (sv_routes four_server) ''/'' = Some (four_routes ! 3)"
    unfolding server_routes [OF four_server] by (metis empty_iff list.set(1))
  moreover have "map_of (sv_routes four_server) ''/api'' \<noteq> Some r" for r
    unfolding server_routes [OF four_server] using calculation(4) by (metis in_set_conv_decomp)
  ultimately show ?thesis by (metis not_None_eq)
qed

text \<open>C23. Accepting never stops and never doubles: after \<open>run\<close> and any sequence of completed
  accepts, successful or not, exactly one accept is outstanding; every accepted socket got a
  session, in order; the message about a new connection is logged for failures as well.\<close>

theorem server_keeps_accepting:
  assumes "new_server net c = Inr s0" "accept_run s0 results s"
  shows "sv_accepts s = 1 \<and> sv_sessions s = List.map_filter id results \<and> sv_accept_logs s = length results
    \<and> sv_routes s = sv_routes s0"
  using assms(2)
proof (induction rule: accept_run.induct)
  case accept_start
  then show ?case using new_server_cases(3) [OF assms(1)] by (simp add: run_def accept_request_def)
next
  case (accept_next rs s r s')
  then show ?case
    by (auto simp: accept_step_simp on_accept_def accept_request_def Let_def map_filter_def split: option.splits)
qed

theorem server_keeps_accepting_witness:
  "sv_accepts (on_accept None (run four_server\<lparr>sv_accepts := 0\<rparr>)) = 1"
proof -
  have "sv_accepts (run four_server) = 1"
    using server_keeps_accepting [OF four_server accept_start] by blast
  then have "accept_step (run four_server) None (on_accept None (run four_server\<lparr>sv_accepts := 0\<rparr>))"
    using accept_step.intros [of "run four_server" None] by simp
  with server_keeps_accepting [OF four_server accept_next [OF accept_start]] show ?thesis by blast
qed

text \<open>Every response that a connection of the server writes answers the request it was written
  for: same version, same keep-alive flag, with a content type and a prepared body.\<close>

lemma server_answers:
  assumes "session_run (parse_origin_form env) (static_handler env) (sv_routes s) evs sess"
    and "\<not> s_undefined sess"
  shows "list_all2 answers (requests evs) (s_written sess)"
proof -
  have "list_all2 (\<lambda>req msg. respond (parse_origin_form env) (static_handler env) (sv_routes s) req = Returns msg)
      (requests evs) (s_written sess)"
    using session_run_inv [OF assms(1)] processed_requests [OF assms(1)] assms(2)
    by (simp add: session_inv_def answered_def)
  then show ?thesis by (rule list_all2_mono) (rule static_handlers.respond_answers)
qed

end
