(* ===== verification/System.thy ===== *)
theory System
  imports Server
begin

text \<open>
  The running server as a whole: the accept loop of \<^verbatim>\<open>src/HttpServer.cpp\<close>, the
  connections of \<^verbatim>\<open>src/HttpSession.cpp\<close> and the signal handler of \<^verbatim>\<open>src/main.cpp\<close>
  interleaved by the single thread that runs the I/O context.  A step completes one
  outstanding operation of the acceptor or of one connection, or delivers a signal; after
  \<^verbatim>\<open>ioc.stop()\<close>, or once the behaviour was undefined, nothing more is run.  The
  files that the handlers see are those of one \<open>environment\<close> for the whole run.  The event
  loop itself is in \<open>Event_Loop\<close>.
\<close>

section \<open>Steps\<close>

text \<open>The handler for \<^verbatim>\<open>SIGINT\<close> and \<^verbatim>\<open>SIGTERM\<close>; the state is whether the I/O context is
  stopped.\<close>

definition handle_signal :: "bool \<Rightarrow> bool \<Rightarrow> bool" where
  "handle_signal ec stopped = (if \<not> ec then True else stopped)"

record 'f system =
  sy_server :: "nat server"
  sy_sessions :: "'f session list"
  sy_waiting :: bool
  sy_stopped :: bool

datatype system_event = Accepted "nat option" | SessionEvent nat event | Signal bool

text \<open>Undefined behaviour of a connection is that of the whole process: nothing can be said of any step
  after it, so there is none.\<close>

definition sy_undefined :: "'f system \<Rightarrow> bool" where
  "sy_undefined sy = list_ex lost (sy_sessions sy)"

definition halted :: "'f system \<Rightarrow> bool" where
  "halted sy = (sy_stopped sy \<or> sy_undefined sy)"

text \<open>\<open>on_accept\<close> starts the session of the accepted socket.\<close>

definition system_accept :: "nat option \<Rightarrow> 'f system \<Rightarrow> 'f system" where
  "system_accept result sy =
     sy\<lparr>sy_server := on_accept result ((sy_server sy)\<lparr>sv_accepts := sv_accepts (sy_server sy) - 1\<rparr>),
        sy_sessions := sy_sessions sy @ (case result of None \<Rightarrow> [] | Some _ \<Rightarrow> [start new_session])\<rparr>"

text \<open>The wait for a signal is started once, by \<open>main\<close>, and not renewed by its handler.\<close>

definition new_system :: "nat server \<Rightarrow> 'f system" where
  "new_system s = \<lparr>sy_server = server_run s, sy_sessions = [], sy_waiting = True, sy_stopped = False\<rparr>"

definition system_signal :: "bool \<Rightarrow> 'f system \<Rightarrow> 'f system" where
  "system_signal ec sy = sy\<lparr>sy_waiting := False, sy_stopped := handle_signal ec (sy_stopped sy)\<rparr>"

inductive system_step :: "'f environment \<Rightarrow> 'f system \<Rightarrow> system_event \<Rightarrow> 'f system \<Rightarrow> bool"
  for env :: "'f environment" where
  accept: "\<not> halted sy \<Longrightarrow> 0 < sv_accepts (sy_server sy) \<Longrightarrow>
    system_step env sy (Accepted result) (system_accept result sy)"
| session: "\<not> halted sy \<Longrightarrow> i < length (sy_sessions sy) \<Longrightarrow>
    session_step (parse_origin_form env) (static_handler env) (sv_routes (sy_server sy)) (sy_sessions sy ! i) ev sess \<Longrightarrow>
    system_step env sy (SessionEvent i ev) (sy\<lparr>sy_sessions := (sy_sessions sy)[i := sess]\<rparr>)"
| signal: "\<not> halted sy \<Longrightarrow> sy_waiting sy \<Longrightarrow> system_step env sy (Signal ec) (system_signal ec sy)"

inductive system_run :: "'f environment \<Rightarrow> nat server \<Rightarrow> system_event list \<Rightarrow> 'f system \<Rightarrow> bool"
  for env :: "'f environment" and s0 :: "nat server" where
  run_init: "system_run env s0 [] (new_system s0)"
| run_next: "system_run env s0 evs sy \<Longrightarrow> system_step env sy ev sy' \<Longrightarrow> system_run env s0 (evs @ [ev]) sy'"

inductive_cases system_stepE: "system_step env sy ev sy'"

section \<open>Isolation\<close>

text \<open>The events of one connection, and the results of the accepts.\<close>

definition events_of :: "nat \<Rightarrow> system_event list \<Rightarrow> event list" where
  "events_of i evs = concat (map (\<lambda>ev. case ev of SessionEvent j e \<Rightarrow> if j = i then [e] else [] | _ \<Rightarrow> []) evs)"

definition accepts_of :: "system_event list \<Rightarrow> nat option list" where
  "accepts_of evs = concat (map (\<lambda>ev. case ev of Accepted r \<Rightarrow> [r] | _ \<Rightarrow> []) evs)"

lemma events_of_snoc [simp]:
  "events_of i (evs @ [ev]) =
     events_of i evs @ (case ev of SessionEvent j e \<Rightarrow> if j = i then [e] else [] | _ \<Rightarrow> [])"
  by (simp add: events_of_def)

lemma accepts_of_snoc [simp]:
  "accepts_of (evs @ [ev]) = accepts_of evs @ (case ev of Accepted r \<Rightarrow> [r] | _ \<Rightarrow> [])"
  by (simp add: accepts_of_def)

definition system_inv :: "'f environment \<Rightarrow> nat server \<Rightarrow> system_event list \<Rightarrow> 'f system \<Rightarrow> bool" where
  "system_inv env s0 evs sy \<longleftrightarrow>
     accept_run s0 (accepts_of evs) (sy_server sy)
     \<and> sv_routes (sy_server sy) = sv_routes s0
     \<and> length (sy_sessions sy) = length (List.map_filter id (accepts_of evs))
     \<and> (\<forall>i<length (sy_sessions sy).
          session_run (parse_origin_form env) (static_handler env) (sv_routes s0) (events_of i evs) (sy_sessions sy ! i))
     \<and> (\<forall>i\<ge>length (sy_sessions sy). events_of i evs = [])"

lemma map_filter_snoc: "List.map_filter f (xs @ [x]) = List.map_filter f xs @ (case f x of None \<Rightarrow> [] | Some y \<Rightarrow> [y])"
  by (induction xs) (auto split: option.split)

lemma system_inv_step:
  assumes "system_step env sy ev sy'" "system_inv env s0 evs sy"
  shows "system_inv env s0 (evs @ [ev]) sy'"
  using assms(1)
proof (cases rule: system_step.cases)
  case (accept result)
  have "accept_step (sy_server sy) result (sy_server sy')"
    using accept accept_step.intros [of "sy_server sy" result] by (simp add: system_accept_def)
  then have "accept_run s0 (accepts_of evs @ [result]) (sy_server sy')"
    using assms(2) accept_next unfolding system_inv_def by blast
  moreover have "sv_routes (sy_server sy') = sv_routes (sy_server sy)"
    using accept by (simp add: system_accept_def on_accept_def accept_request_def Let_def split: option.split)
  ultimately show ?thesis
    using accept assms(2) run_start [of "parse_origin_form env" "static_handler env" "sv_routes s0"]
    by (auto simp: system_inv_def system_accept_def map_filter_snoc nth_append less_Suc_eq split: option.splits)
next
  case (session i e sess)
  let ?run = "session_run (parse_origin_form env) (static_handler env) (sv_routes s0)"
  from session assms(2) have "?run (events_of i evs @ [e]) sess"
    by (intro run_step) (auto simp: system_inv_def)
  with session assms(2) show ?thesis
    by (auto simp: system_inv_def nth_list_update)
next
  case (signal ec)
  with assms(2) show ?thesis by (simp add: system_inv_def system_signal_def)
qed

lemma system_run_inv: "system_run env s0 evs sy \<Longrightarrow> system_inv env s0 evs sy"
proof (induction rule: system_run.induct)
  case run_init
  show ?case
    using accept_start [of s0]
    by (simp add: system_inv_def new_system_def events_of_def accepts_of_def server_run_def run_def accept_request_def)
next
  case (run_next evs sy ev sy')
  then show ?case by (intro system_inv_step)
qed

text \<open>The deliveries of signals in a list of events.\<close>

definition signals :: "system_event list \<Rightarrow> bool list" where
  "signals evs = concat (map (\<lambda>ev. case ev of Signal ec \<Rightarrow> [ec] | _ \<Rightarrow> []) evs)"

lemma signals_snoc [simp]:
  "signals (evs @ [ev]) = signals evs @ (case ev of Signal ec \<Rightarrow> [ec] | _ \<Rightarrow> [])"
  by (simp add: signals_def)

lemma system_signals:
  "system_run env s0 evs sy \<Longrightarrow>
     (if sy_waiting sy then signals evs = [] else \<exists>ec. signals evs = [ec])
     \<and> (sy_stopped sy \<longleftrightarrow> signals evs = [False])"
proof (induction rule: system_run.induct)
  case run_init
  then show ?case by (simp add: new_system_def signals_def)
next
  case (run_next evs sy ev sy')
  from run_next.hyps(2) run_next.IH show ?case
    by cases (simp_all add: system_accept_def system_signal_def handle_signal_def split: if_splits)
qed

section \<open>The steps as a function\<close>

text \<open>For a system whose connections have at most one outstanding
  operation.\<close>

fun system_exec :: "'f environment \<Rightarrow> 'f system \<Rightarrow> system_event \<Rightarrow> 'f system option" where
  "system_exec env sy ev =
     (if halted sy then None
      else case ev of
        Accepted r \<Rightarrow> if 0 < sv_accepts (sy_server sy) then Some (system_accept r sy) else None
      | SessionEvent i e \<Rightarrow>
          if i < length (sy_sessions sy)
          then map_option (\<lambda>sess. sy\<lparr>sy_sessions := (sy_sessions sy)[i := sess]\<rparr>)
                 (session_exec (parse_origin_form env) (static_handler env) (sv_routes (sy_server sy))
                    (sy_sessions sy ! i) e)
          else None
      | Signal ec \<Rightarrow> if sy_waiting sy then Some (system_signal ec sy) else None)"

fun system_execs :: "'f environment \<Rightarrow> 'f system \<Rightarrow> system_event list \<Rightarrow> 'f system option" where
  "system_execs env sy [] = Some sy"
| "system_execs env sy (ev # evs) =
     (case system_exec env sy ev of None \<Rightarrow> None | Some sy' \<Rightarrow> system_execs env sy' evs)"

lemma system_step_exec:
  assumes "system_run env s0 evs sy"
  shows "system_step env sy ev sy' \<longleftrightarrow> system_exec env sy ev = Some sy'"
proof (cases ev)
  case (Accepted r)
  show ?thesis unfolding Accepted
    using system_step.accept [of sy env r] by (auto elim: system_stepE)
next
  case (Signal ec)
  show ?thesis unfolding Signal
    using system_step.signal [of sy env ec] by (auto elim: system_stepE)
next
  case (SessionEvent i e)
  have pending: "s_pending (sy_sessions sy ! i) = [] \<or> (\<exists>x. s_pending (sy_sessions sy ! i) = [x])"
    if "i < length (sy_sessions sy)"
  proof -
    from system_run_inv [OF assms] that have "session_run (parse_origin_form env) (static_handler env) (sv_routes s0)
        (events_of i evs) (sy_sessions sy ! i)" by (simp add: system_inv_def)
    then show ?thesis by (rule running_pending)
  qed
  show ?thesis
  proof
    assume "system_step env sy ev sy'"
    with SessionEvent obtain sess where s: "\<not> halted sy" "i < length (sy_sessions sy)"
      "session_step (parse_origin_form env) (static_handler env) (sv_routes (sy_server sy)) (sy_sessions sy ! i) e sess"
      "sy' = sy\<lparr>sy_sessions := (sy_sessions sy)[i := sess]\<rparr>"
      by (auto elim: system_stepE)
    from s(3) have "session_exec (parse_origin_form env) (static_handler env) (sv_routes (sy_server sy))
        (sy_sessions sy ! i) e = Some sess"
      unfolding session_step_exec [OF pending [OF s(2)]] .
    with s(1,2,4) SessionEvent show "system_exec env sy ev = Some sy'"
      by (simp del: session_exec.simps)
  next
    assume "system_exec env sy ev = Some sy'"
    with SessionEvent obtain sess where s: "\<not> halted sy" "i < length (sy_sessions sy)"
      "session_exec (parse_origin_form env) (static_handler env) (sv_routes (sy_server sy)) (sy_sessions sy ! i) e = Some sess"
      "sy' = sy\<lparr>sy_sessions := (sy_sessions sy)[i := sess]\<rparr>"
      by (auto simp del: session_exec.simps split: if_splits)
    then show "system_step env sy ev sy'"
      unfolding SessionEvent using session_step_exec [OF pending] system_step.session by blast
  qed
qed

lemma system_execs_run:
  "system_run env s0 evs sy \<Longrightarrow> system_execs env sy evs' = Some sy' \<Longrightarrow> system_run env s0 (evs @ evs') sy'"
proof (induction evs' arbitrary: evs sy)
  case (Cons ev evs')
  then obtain sy1 where "system_exec env sy ev = Some sy1" "system_execs env sy1 evs' = Some sy'"
    by (auto simp del: system_exec.simps split: option.splits)
  with Cons.IH [of "evs @ [ev]" sy1] Cons.prems(1) system_step_exec [OF Cons.prems(1)] show ?case
    by (simp add: run_next del: system_exec.simps)
qed simp

section \<open>Properties\<close>

text \<open>Two clients on the server of four routes, interleaved, and a signal.\<close>

definition busy :: "system_event list" where
  "busy = [Accepted (Some 7), Accepted None, Accepted (Some 8), SessionEvent 1 (ReadDone (keep ''/'')),
     SessionEvent 0 (ReadDone (close ''/docs/a'')), SessionEvent 1 WriteDone, SessionEvent 0 WriteDone, Signal False]"

definition busy_system :: "string system" where
  "busy_system = the (system_execs sample_env (new_system four_server) busy)"

lemma busy_run: "system_run sample_env four_server busy busy_system"
proof -
  have "(case system_execs sample_env (new_system four_server) busy of None \<Rightarrow> False | Some _ \<Rightarrow> True)"
    by code_simp
  then have "system_execs sample_env (new_system four_server) busy = Some busy_system"
    by (auto simp: busy_system_def split: option.splits)
  from system_execs_run [OF system_run.run_init this] show ?thesis by simp
qed

text \<open>C20. Connections do not interfere: in every run of the server each connection has gone through
  exactly the run that its own events give, whatever the other connections, the acceptor and
  the signals did in between; and there is one connection for each successful accept.\<close>

theorem system_isolates_sessions:
  assumes "system_run env s0 evs sy"
  shows "length (sy_sessions sy) = length (List.map_filter id (accepts_of evs))
    \<and> (\<forall>i<length (sy_sessions sy).
         session_run (parse_origin_form env) (static_handler env) (sv_routes s0) (events_of i evs) (sy_sessions sy ! i))"
  using system_run_inv [OF assms] unfolding system_inv_def by blast

theorem system_isolates_sessions_witness:
  "session_run (parse_origin_form sample_env) (static_handler sample_env) (sv_routes four_server)
     [ReadDone (close ''/docs/a''), WriteDone] (sy_sessions busy_system ! 0)"
proof -
  have "0 < length (sy_sessions busy_system)" "events_of 0 busy = [ReadDone (close ''/docs/a''), WriteDone]"
    by code_simp+
  with system_isolates_sessions [OF busy_run] show ?thesis by metis
qed

text \<open>Shutdown: at most one signal is ever handled, since its wait is not renewed; the server is
  stopped exactly when that one was delivered without an error, and makes no step after it;
  until then one accept is outstanding.\<close>

lemma system_stops:
  assumes "system_run env s0 evs sy" "sv_accepts s0 = 0"
  shows "length (signals evs) \<le> 1 \<and> (sy_stopped sy \<longleftrightarrow> signals evs = [False])
    \<and> (system_step env sy ev sy' \<longrightarrow> signals evs = [] \<or> signals evs = [True])
    \<and> sv_accepts (sy_server sy) = 1"
proof -
  have "accept_run s0 (accepts_of evs) (sy_server sy)"
    using system_run_inv [OF assms(1)] by (simp add: system_inv_def)
  then have accepts: "sv_accepts (sy_server sy) = 1"
    using assms(2) by (rule accept_run_one)
  have "\<not> sy_stopped sy" if "system_step env sy ev sy'"
    using that by (cases rule: system_step.cases) (simp_all add: halted_def)
  with accepts system_signals [OF assms(1)] show ?thesis
    by (cases "sy_waiting sy") auto
qed

end
