(* ===== verification/Event_Loop.thy ===== *)
theory Event_Loop
  imports System
begin

text \<open>
  \<^verbatim>\<open>ioc.run()\<close> of \<^verbatim>\<open>src/main.cpp\<close>: the steps of \<open>System\<close>, driven by what the operating
  system reports.  The loop ends in one of three ways or runs for ever; each is
  characterised by the states after the first reports.
\<close>

section \<open>The loop\<close>

text \<open>
  \<^verbatim>\<open>ioc.run()\<close> returns when the context is stopped or no operation is outstanding.
  \<open>evs\<close> is what the operating system reports, in order and without end; a report that
  completes no outstanding operation is passed over.  \<open>throws\<close> says for which reports the
  library raises an exception, which leaves the loop.  Undefined behaviour ends
  everything.  The loop may run forever, which is the value \<open>None\<close>.
\<close>

definition has_work :: "'f system \<Rightarrow> bool" where
  "has_work sy \<longleftrightarrow>
     0 < sv_accepts (sy_server sy) \<or> sy_waiting sy \<or> (\<exists>s\<in>set (sy_sessions sy). s_pending s \<noteq> [])"

definition deliver :: "'f environment \<Rightarrow> system_event \<Rightarrow> 'f system \<Rightarrow> 'f system" where
  "deliver env ev sy = (case system_exec env sy ev of None \<Rightarrow> sy | Some sy' \<Rightarrow> sy')"

datatype 'f loop_end = LoopReturns "'f system" | LoopThrows string | LoopUndefined

partial_function (option) ioc_run ::
  "(system_event \<Rightarrow> string option) \<Rightarrow> 'f environment \<Rightarrow> (nat \<Rightarrow> system_event) \<Rightarrow> nat \<Rightarrow> 'f system \<Rightarrow>
   'f loop_end option" where
  "ioc_run throws env evs n sy =
     (if sy_undefined sy then Some LoopUndefined
      else if sy_stopped sy \<or> \<not> has_work sy then Some (LoopReturns sy)
      else case throws (evs n) of
        Some m \<Rightarrow> Some (LoopThrows m)
      | None \<Rightarrow> ioc_run throws env evs (Suc n) (deliver env (evs n) sy))"

section \<open>The states of the loop\<close>

text \<open>The state after the first \<open>k\<close> reports, and whether the loop goes on from there.\<close>

primrec system_at :: "'f environment \<Rightarrow> (nat \<Rightarrow> system_event) \<Rightarrow> 'f system \<Rightarrow> nat \<Rightarrow> 'f system" where
  "system_at env evs sy 0 = sy"
| "system_at env evs sy (Suc k) = deliver env (evs k) (system_at env evs sy k)"

definition goes_on ::
  "(system_event \<Rightarrow> string option) \<Rightarrow> 'f environment \<Rightarrow> (nat \<Rightarrow> system_event) \<Rightarrow> 'f system \<Rightarrow> nat \<Rightarrow> bool" where
  "goes_on throws env evs sy k \<longleftrightarrow>
     \<not> halted (system_at env evs sy k) \<and> has_work (system_at env evs sy k) \<and> throws (evs k) = None"

definition ending ::
  "(system_event \<Rightarrow> string option) \<Rightarrow> 'f environment \<Rightarrow> (nat \<Rightarrow> system_event) \<Rightarrow> 'f system \<Rightarrow> nat \<Rightarrow> 'f loop_end" where
  "ending throws env evs sy k =
     (let s = system_at env evs sy k
      in if sy_undefined s then LoopUndefined
         else if sy_stopped s \<or> \<not> has_work s then LoopReturns s
         else LoopThrows (the (throws (evs k))))"

lemma ioc_run_unroll:
  "(\<forall>i<k. goes_on throws env evs sy i) \<Longrightarrow>
   ioc_run throws env evs 0 sy = ioc_run throws env evs k (system_at env evs sy k)"
proof (induction k)
  case (Suc k)
  then have "goes_on throws env evs sy k" by simp
  then have "ioc_run throws env evs k (system_at env evs sy k) =
      ioc_run throws env evs (Suc k) (system_at env evs sy (Suc k))"
    by (subst ioc_run.simps) (simp add: goes_on_def halted_def)
  with Suc show ?case by simp
qed simp

lemma ioc_run_ends:
  "\<not> goes_on throws env evs sy k \<Longrightarrow>
   ioc_run throws env evs k (system_at env evs sy k) = Some (ending throws env evs sy k)"
  by (subst ioc_run.simps) (auto simp: goes_on_def ending_def halted_def Let_def split: option.splits)

lemma ioc_run_some:
  assumes "ioc_run throws env evs 0 sy = Some res"
  shows "\<exists>k. \<not> goes_on throws env evs sy k"
proof -
  let ?P = "\<lambda>throws env evs n s (res :: 'a loop_end). \<forall>sy. s = system_at env evs sy n \<longrightarrow> (\<exists>k. \<not> goes_on throws env evs sy k)"
  have "?P throws env evs 0 sy res"
  proof (rule ioc_run.raw_induct [where P = ?P, OF _ assms], intro allI impI)
    fix rec and throws :: "system_event \<Rightarrow> string option" and env :: "'a environment" and evs n and s sy :: "'a system" and res
    assume IH: "\<And>throws env evs n s res. rec throws env evs n s = Some res \<Longrightarrow> ?P throws env evs n s res"
      and eq: "(if sy_undefined s then Some LoopUndefined
        else if sy_stopped s \<or> \<not> has_work s then Some (LoopReturns s)
        else case throws (evs n) of Some m \<Rightarrow> Some (LoopThrows m)
             | None \<Rightarrow> rec throws env evs (Suc n) (deliver env (evs n) s)) = Some res"
      and s: "s = system_at env evs sy n"
    show "\<exists>k. \<not> goes_on throws env evs sy k"
    proof (cases "goes_on throws env evs sy n")
      case True
      with eq s have "rec throws env evs (Suc n) (system_at env evs sy (Suc n)) = Some res"
        by (simp add: goes_on_def halted_def)
      from IH [OF this] show ?thesis by blast
    qed blast
  qed
  then show ?thesis by simp
qed

text \<open>The result of the loop is that of the first state from which it does not go on.\<close>

lemma ioc_run_iff:
  "ioc_run throws env evs 0 sy = Some res \<longleftrightarrow>
     (\<exists>k. (\<forall>i<k. goes_on throws env evs sy i) \<and> \<not> goes_on throws env evs sy k \<and> res = ending throws env evs sy k)"
  (is "?L \<longleftrightarrow> ?R")
proof
  assume ?L
  let ?k = "LEAST k. \<not> goes_on throws env evs sy k"
  have k: "\<not> goes_on throws env evs sy ?k" by (rule LeastI_ex [OF ioc_run_some [OF \<open>?L\<close>]])
  have before: "\<forall>i<?k. goes_on throws env evs sy i" using not_less_Least by blast
  from ioc_run_unroll [OF before] ioc_run_ends [OF k] \<open>?L\<close> have "res = ending throws env evs sy ?k" by simp
  with k before show ?R by blast
next
  assume ?R
  then show ?L using ioc_run_unroll ioc_run_ends by metis
qed

lemma ioc_run_none: "ioc_run throws env evs 0 sy = None \<longleftrightarrow> (\<forall>k. goes_on throws env evs sy k)"
proof
  assume none: "ioc_run throws env evs 0 sy = None"
  show "\<forall>k. goes_on throws env evs sy k"
  proof
    fix k show "goes_on throws env evs sy k"
    proof (induction k rule: less_induct)
      case (less k)
      then show ?case using none ioc_run_iff [of throws env evs sy] by (metis option.distinct(1))
    qed
  qed
qed (use ioc_run_some in fastforce)

section \<open>What does not change\<close>

lemma system_exec_halted: "halted sy \<Longrightarrow> deliver env ev sy = sy"
  by (simp add: deliver_def)

lemma system_at_halted: "halted (system_at env evs sy k) \<Longrightarrow> k \<le> l \<Longrightarrow> system_at env evs sy l = system_at env evs sy k"
  by (induction l) (auto simp: system_exec_halted le_Suc_eq)

lemma deliver_accepts:
  "sv_accepts (sy_server sy) = 1 \<Longrightarrow> sv_accepts (sy_server (deliver env ev sy)) = 1"
  by (auto simp: deliver_def system_accept_def system_signal_def on_accept_def accept_request_def Let_def
      split: option.split system_event.split)

text \<open>A signal changes two flags, and nothing else does.\<close>

lemma deliver_signal:
  "\<not> halted sy \<Longrightarrow> sy_waiting sy \<Longrightarrow> deliver env (Signal ec) sy = system_signal ec sy"
  by (simp add: deliver_def)

lemma deliver_flags:
  assumes "\<not> (sy_waiting sy \<and> (\<exists>ec. ev = Signal ec))"
  shows "sy_waiting (deliver env ev sy) = sy_waiting sy" "sy_stopped (deliver env ev sy) = sy_stopped sy"
  using assms by (cases ev; auto simp: deliver_def system_accept_def split: option.split)+

section \<open>The server's loop\<close>

text \<open>The \<open>k\<close>-th report stops the context: a signal, no wait for one having failed before.\<close>

definition stops :: "(system_event \<Rightarrow> string option) \<Rightarrow> (nat \<Rightarrow> system_event) \<Rightarrow> nat \<Rightarrow> bool" where
  "stops throws evs k \<longleftrightarrow> evs k = Signal False \<and> (\<forall>i\<le>k. throws (evs i) = None) \<and> (\<forall>i<k. evs i \<noteq> Signal True)"

abbreviation after :: "'f environment \<Rightarrow> (nat \<Rightarrow> system_event) \<Rightarrow> nat server \<Rightarrow> nat \<Rightarrow> 'f system" where
  "after env evs s0 \<equiv> system_at env evs (new_system s0)"

lemma after_accepts: "sv_accepts s0 = 0 \<Longrightarrow> sv_accepts (sy_server (after env evs s0 k)) = 1"
  by (induction k) (simp_all add: new_system_def server_run_def run_def accept_request_def deliver_accepts)

lemma after_work: "sv_accepts s0 = 0 \<Longrightarrow> has_work (after env evs s0 k)"
  by (simp add: has_work_def after_accepts)

lemma after_defined: "\<not> sy_undefined (after env evs s0 k) \<Longrightarrow> i \<le> k \<Longrightarrow> \<not> sy_undefined (after env evs s0 i)"
  using system_at_halted [of env evs "new_system s0" i k] by (auto simp: halted_def)

lemma after_flags:
  "\<not> sy_undefined (after env evs s0 k) \<Longrightarrow>
     (sy_waiting (after env evs s0 k) \<longleftrightarrow> (\<forall>i<k. \<forall>ec. evs i \<noteq> Signal ec))
     \<and> (sy_stopped (after env evs s0 k) \<longleftrightarrow> (\<exists>i<k. evs i = Signal False \<and> (\<forall>j<i. evs j \<noteq> Signal True)))"
proof (induction k)
  case 0
  show ?case by (simp add: new_system_def)
next
  case (Suc k)
  have "\<not> sy_undefined (after env evs s0 k)" using after_defined [OF Suc.prems, of k] by simp
  note IH = Suc.IH [OF this]
  show ?case
  proof (cases "sy_waiting (after env evs s0 k) \<and> (\<exists>ec. evs k = Signal ec)")
    case True
    then obtain ec where ec: "evs k = Signal ec" by blast
    have none: "\<forall>i<k. \<forall>ec. evs i \<noteq> Signal ec" using True IH by simp
    with IH \<open>\<not> sy_undefined (after env evs s0 k)\<close> have "\<not> halted (after env evs s0 k)" by (auto simp: halted_def)
    with True ec have "after env evs s0 (Suc k) = system_signal ec (after env evs s0 k)" by (simp add: deliver_signal)
    moreover have "\<not> sy_stopped (after env evs s0 k)" using none IH by auto
    ultimately show ?thesis
      using none ec by (auto simp: system_signal_def handle_signal_def less_Suc_eq)
  next
    case False
    note same = deliver_flags [OF this, of env]
    have w: "sy_waiting (after env evs s0 k) \<longleftrightarrow> (\<forall>i<Suc k. \<forall>ec. evs i \<noteq> Signal ec)"
      using False IH by (auto simp: less_Suc_eq)
    have "(\<exists>i<k. evs i = Signal False \<and> (\<forall>j<i. evs j \<noteq> Signal True)) \<longleftrightarrow>
        (\<exists>i<Suc k. evs i = Signal False \<and> (\<forall>j<i. evs j \<noteq> Signal True))" (is "?A \<longleftrightarrow> ?B")
    proof
      assume ?B
      then obtain i where i: "i < Suc k" "evs i = Signal False" "\<forall>j<i. evs j \<noteq> Signal True" by blast
      show ?A
      proof (cases "i = k")
        case True
        with False i(2) have "\<not> sy_waiting (after env evs s0 k)" by auto
        with IH obtain j ec where j: "j < k" "evs j = Signal ec" by blast
        with i(3) True have "evs j = Signal False" by (cases ec) auto
        with j(1) i(3) True show ?thesis by (intro exI [of _ j]) auto
      next
        case False
        with i show ?thesis by (intro exI [of _ i]) auto
      qed
    qed (use less_SucI in blast)
    with same w IH show ?thesis by simp
  qed
qed

lemma goes_on_iff:
  "sv_accepts s0 = 0 \<Longrightarrow> goes_on throws env evs (new_system s0) k \<longleftrightarrow> \<not> halted (after env evs s0 k) \<and> throws (evs k) = None"
  by (simp add: goes_on_def after_work)

lemma loop_returns:
  assumes s0: "sv_accepts s0 = 0"
  shows "(\<exists>sy. ioc_run throws env evs 0 (new_system s0) = Some (LoopReturns sy)) \<longleftrightarrow>
     (\<exists>k. stops throws evs k \<and> \<not> sy_undefined (after env evs s0 k))"
proof
  assume "\<exists>sy. ioc_run throws env evs 0 (new_system s0) = Some (LoopReturns sy)"
  then obtain k where k: "\<forall>i<k. goes_on throws env evs (new_system s0) i" "sy_stopped (after env evs s0 k)" "\<not> sy_undefined (after env evs s0 k)"
    by (auto simp: ioc_run_iff ending_def Let_def after_work [OF s0] split: if_splits)
  with after_flags [OF k(3)] obtain i where i: "i < k" "evs i = Signal False" "\<forall>j<i. evs j \<noteq> Signal True" by blast
  with k(1) have "stops throws evs i" by (auto simp: stops_def goes_on_def)
  with after_defined [OF k(3), of i] i(1) show "\<exists>k. stops throws evs k \<and> \<not> sy_undefined (after env evs s0 k)" by auto
next
  assume "\<exists>k. stops throws evs k \<and> \<not> sy_undefined (after env evs s0 k)"
  then obtain k0 where k0: "stops throws evs k0" "\<not> sy_undefined (after env evs s0 k0)" by blast
  then have "evs k0 = Signal False" by (simp add: stops_def)
  from ex_least_nat_le [of "\<lambda>i. evs i = Signal False", OF this] obtain l where
    l: "l \<le> k0" "evs l = Signal False" "\<forall>i<l. evs i \<noteq> Signal False" by blast
  have none: "evs i \<noteq> Signal ec" if "i < l" for i ec
    using l(1,3) k0(1) that by (cases ec) (auto simp: stops_def)
  have on: "\<not> halted (after env evs s0 i) \<and> throws (evs i) = None \<and> sy_waiting (after env evs s0 i)" if "i \<le> l" for i
  proof -
    have d: "\<not> sy_undefined (after env evs s0 i)" using after_defined [OF k0(2)] that l(1) by simp
    have sig: "\<forall>j<i. \<forall>ec. evs j \<noteq> Signal ec" using none that by simp
    moreover have "throws (evs i) = None" using k0(1) that l(1) by (simp add: stops_def)
    moreover have "\<not> sy_stopped (after env evs s0 i)" using after_flags [OF d] sig by blast
    ultimately show ?thesis using after_flags [OF d] d unfolding halted_def by blast
  qed
  have eq: "after env evs s0 (Suc l) = system_signal False (after env evs s0 l)"
    using on [OF order_refl] l(2) by (simp add: deliver_signal)
  have stop: "sy_stopped (after env evs s0 (Suc l))" "\<not> sy_undefined (after env evs s0 (Suc l))"
    unfolding eq using on [OF order_refl] by (simp_all add: system_signal_def handle_signal_def sy_undefined_def halted_def)
  then have "\<not> goes_on throws env evs (new_system s0) (Suc l)"
    "ending throws env evs (new_system s0) (Suc l) = LoopReturns (after env evs s0 (Suc l))"
    by (simp_all only: goes_on_iff [OF s0] halted_def ending_def Let_def simp_thms if_True if_False)
  moreover have "\<forall>i<Suc l. goes_on throws env evs (new_system s0) i" using on by (simp add: goes_on_iff [OF s0] less_Suc_eq_le)
  ultimately show "\<exists>sy. ioc_run throws env evs 0 (new_system s0) = Some (LoopReturns sy)"
    unfolding ioc_run_iff by metis
qed

lemma loop_undefined:
  assumes s0: "sv_accepts s0 = 0"
  shows "ioc_run throws env evs 0 (new_system s0) = Some LoopUndefined \<longleftrightarrow>
     (\<exists>k. sy_undefined (after env evs s0 k) \<and> (\<forall>i<k. throws (evs i) = None))"
proof
  assume "ioc_run throws env evs 0 (new_system s0) = Some LoopUndefined"
  then show "\<exists>k. sy_undefined (after env evs s0 k) \<and> (\<forall>i<k. throws (evs i) = None)"
    by (auto simp: ioc_run_iff ending_def Let_def goes_on_def split: if_splits)
next
  assume "\<exists>k. sy_undefined (after env evs s0 k) \<and> (\<forall>i<k. throws (evs i) = None)"
  then obtain k0 where k0: "sy_undefined (after env evs s0 k0)" "\<forall>i<k0. throws (evs i) = None" by blast
  from ex_least_nat_le [of "\<lambda>k. sy_undefined (after env evs s0 k)", OF k0(1)] obtain l where
    l: "l \<le> k0" "sy_undefined (after env evs s0 l)" "\<forall>i<l. \<not> sy_undefined (after env evs s0 i)" by blast
  have "goes_on throws env evs (new_system s0) i" if "i < l" for i
  proof -
    have "\<not> sy_stopped (after env evs s0 i)"
    proof
      assume "sy_stopped (after env evs s0 i)"
      then have "after env evs s0 l = after env evs s0 i"
        using system_at_halted [of env evs "new_system s0" i l] that by (simp add: halted_def)
      with l(2,3) that show False by simp
    qed
    with l(1,3) k0(2) that show ?thesis by (simp add: goes_on_iff [OF s0] halted_def)
  qed
  moreover have "\<not> goes_on throws env evs (new_system s0) l" "ending throws env evs (new_system s0) l = LoopUndefined"
    using l(2) by (simp_all add: goes_on_iff [OF s0] halted_def ending_def)
  ultimately show "ioc_run throws env evs 0 (new_system s0) = Some LoopUndefined"
    unfolding ioc_run_iff by metis
qed

lemma after_reach: "\<exists>es. system_run env s0 es (after env evs s0 k)"
proof (induction k)
  case 0
  then show ?case by (auto intro: system_run.run_init)
next
  case (Suc k)
  then obtain es where es: "system_run env s0 es (after env evs s0 k)" ..
  show ?case
  proof (cases "system_exec env (after env evs s0 k) (evs k)")
    case None
    with es show ?thesis by (auto simp: deliver_def)
  next
    case (Some sy')
    with run_next [OF es] system_step_exec [OF es] show ?thesis by (auto simp: deliver_def)
  qed
qed

lemma loop_returned:
  assumes s0: "sv_accepts s0 = 0" and ret: "ioc_run throws env evs 0 (new_system s0) = Some (LoopReturns sy)"
  shows "sy_stopped sy \<and> (\<exists>es. system_run env s0 es sy)"
proof -
  from ret obtain k where "sy = after env evs s0 k" "sy_stopped (after env evs s0 k)"
    by (auto simp: ioc_run_iff ending_def Let_def after_work [OF s0] split: if_splits)
  with after_reach [of env s0 evs k] show ?thesis by simp
qed

lemma loop_forever:
  assumes s0: "sv_accepts s0 = 0"
  shows "ioc_run throws env evs 0 (new_system s0) = None \<longleftrightarrow>
     (\<forall>k. throws (evs k) = None \<and> \<not> sy_undefined (after env evs s0 k) \<and> \<not> stops throws evs k)"
proof
  assume none: "ioc_run throws env evs 0 (new_system s0) = None"
  then have "throws (evs k) = None \<and> \<not> sy_undefined (after env evs s0 k)" for k
    unfolding ioc_run_none goes_on_iff [OF s0] halted_def by blast
  moreover from this none have "\<not> stops throws evs k" for k using loop_returns [OF s0, of throws env evs] by auto
  ultimately show "\<forall>k. throws (evs k) = None \<and> \<not> sy_undefined (after env evs s0 k) \<and> \<not> stops throws evs k" by blast
next
  assume all: "\<forall>k. throws (evs k) = None \<and> \<not> sy_undefined (after env evs s0 k) \<and> \<not> stops throws evs k"
  show "ioc_run throws env evs 0 (new_system s0) = None"
  proof (cases "ioc_run throws env evs 0 (new_system s0)")
    case (Some res)
    then obtain k where k: "\<not> goes_on throws env evs (new_system s0) k" "res = ending throws env evs (new_system s0) k"
      by (auto simp: ioc_run_iff)
    with all have "res = LoopReturns (after env evs s0 k)"
      by (auto simp: goes_on_iff [OF s0] halted_def ending_def Let_def)
    with Some loop_returns [OF s0, of throws env evs] all show ?thesis by blast
  qed
qed

section \<open>How a request ends the process\<close>

lemma respond_undefined:
  "respond parse call routes req = Undefined \<longleftrightarrow>
     (\<exists>p h. select (request_path parse req) routes = Some (p, h) \<and> call h req = Undefined)"
  by (auto simp: respond_def split: option.splits outcome.splits)

lemma session_lost:
  assumes "session_step parse call routes s ev s'"
  shows "lost s' \<longleftrightarrow> (\<exists>req. ev = ReadDone req \<and> respond parse call routes req = Undefined) \<or> ev = ReadUndefined"
  using assms respond_total [of parse call routes]
  by cases (auto simp: lost_def on_read_def on_write_def process_request_def read_request_def finished_def Let_def
      split: outcome.splits)

lemma step_undefined:
  assumes "system_step env sy ev sy'"
  shows "sy_undefined sy' \<longleftrightarrow> (\<exists>i req. ev = SessionEvent i (ReadDone req)
      \<and> respond (parse_origin_form env) (static_handler env) (sv_routes (sy_server sy)) req = Undefined)
    \<or> (\<exists>i. ev = SessionEvent i ReadUndefined)"
  using assms
proof cases
  case (accept result)
  then show ?thesis
    by (auto simp: halted_def sy_undefined_def lost_def system_accept_def start_def read_request_def new_session_def
        split: option.splits)
next
  case (session i e sess)
  have old: "\<not> lost c" if "c \<in> set (sy_sessions sy)" for c
    using session(3) that by (simp add: halted_def sy_undefined_def list_ex_iff)
  have "(\<exists>c\<in>set ((sy_sessions sy)[i := sess]). lost c) \<longleftrightarrow> lost sess"
    using old set_update_subset_insert [of "sy_sessions sy" i sess] set_update_memI [OF session(4), of sess] by blast
  then have "sy_undefined sy' \<longleftrightarrow> lost sess"
    using session(2) by (simp add: sy_undefined_def list_ex_iff)
  with session(1) session_lost [OF session(5)] show ?thesis by auto
next
  case (signal ec)
  then show ?thesis by (simp add: halted_def sy_undefined_def system_signal_def)
qed

text \<open>A read of a connection into the message of the request before is outstanding.\<close>

definition used_read :: "'f system \<Rightarrow> nat \<Rightarrow> bool" where
  "used_read sy i \<longleftrightarrow> i < length (sy_sessions sy) \<and> AsyncRead False \<in> set (s_pending (sy_sessions sy ! i))"

text \<open>One step of a connection starts such a read exactly when it completes a write for a request
  that asked to keep the connection.\<close>

lemma session_used_read:
  assumes run: "session_run parse call routes evs s" and step: "session_step parse call routes s ev s'"
  shows "AsyncRead False \<in> set (s_pending s') \<and> AsyncRead False \<notin> set (s_pending s) \<longleftrightarrow>
    ev = WriteDone \<and> rq_keep_alive (last (requests evs))"
  using step
proof cases
  case (write_done msg ka)
  with session_run_inv [OF run] processed_requests [OF run]
  have "s_pending s = [AsyncWrite msg ka]" "ka = rq_keep_alive (last (requests evs))" "s_request s \<noteq> None"
    by (auto simp: lost_def session_inv_def running_def)
  with write_done show ?thesis by (simp add: on_write_def read_request_def finished_def)
qed (auto simp: on_read_def on_write_def process_request_def finished_def Let_def
      dest: subsetD [OF set_remove1_subset] split: outcome.splits)

lemma system_used_read:
  assumes run: "system_run env s0 evs sy" and step: "system_step env sy ev sy'"
  shows "used_read sy' i \<and> \<not> used_read sy i \<longleftrightarrow>
    ev = SessionEvent i WriteDone \<and> rq_keep_alive (last (requests (events_of i evs)))"
  using step
proof cases
  case (accept result)
  then show ?thesis
    by (auto simp: used_read_def system_accept_def start_def read_request_def new_session_def nth_append less_Suc_eq
        split: option.splits if_splits)
next
  case (session j e sess)
  have runs: "session_run (parse_origin_form env) (static_handler env) (sv_routes (sy_server sy)) (events_of j evs)
      (sy_sessions sy ! j)"
    using system_run_inv [OF run] session(4) by (simp add: system_inv_def)
  show ?thesis
  proof (cases "i = j")
    case True
    with session session_used_read [OF runs session(5)] show ?thesis by (simp add: used_read_def)
  qed (use session in \<open>simp add: used_read_def\<close>)
next
  case (signal ec)
  then show ?thesis by (simp add: used_read_def system_signal_def)
qed

lemma read_undefined_possible:
  assumes "\<not> halted sy"
  shows "(\<exists>sy'. system_step env sy (SessionEvent i ReadUndefined) sy') \<longleftrightarrow> used_read sy i"
proof
  assume "\<exists>sy'. system_step env sy (SessionEvent i ReadUndefined) sy'"
  then show "used_read sy i" by (auto simp: used_read_def elim!: system_stepE session_stepE)
next
  assume "used_read sy i"
  moreover from this assms have "\<not> lost (sy_sessions sy ! i)"
    by (auto simp: used_read_def halted_def sy_undefined_def list_ex_iff)
  ultimately show "\<exists>sy'. system_step env sy (SessionEvent i ReadUndefined) sy'"
    using system_step.session [OF assms] read_undefined unfolding used_read_def by blast
qed

lemma step_running: "system_step env sy ev sy' \<Longrightarrow> \<not> halted sy"
  by (cases rule: system_step.cases) auto

text \<open>Without a read there is nothing undefined.\<close>

lemma no_read_defined:
  assumes "\<And>i j e. i < k \<Longrightarrow> evs i \<noteq> SessionEvent j e"
  shows "\<not> sy_undefined (after env evs s0 k)"
  using assms
proof (induction k)
  case 0
  show ?case by (simp add: new_system_def sy_undefined_def)
next
  case (Suc k)
  then have "\<not> sy_undefined (after env evs s0 k)" by simp
  moreover obtain es where "system_run env s0 es (after env evs s0 k)" using after_reach by blast
  note exec = system_step_exec [OF this, of "evs k"]
  ultimately show ?case
    using Suc.prems [of k] step_undefined [of env "after env evs s0 k" "evs k"]
    by (cases "system_exec env (after env evs s0 k) (evs k)") (auto simp: deliver_def exec)
qed

section \<open>Properties\<close>

text \<open>C19. Termination: the event loop returns exactly when a signal is reported without an error, no
  wait for one having failed before, no exception of the library having ended the loop and no
  behaviour having been undefined; it never returns for want of work, and then it
  has stopped in a state that the steps reach.  Its behaviour is undefined exactly when that of
  some connection is, before an exception, and it runs for ever when none of the three happens.\<close>

theorem event_loop_returns:
  assumes "sv_accepts s0 = 0"
  shows "((\<exists>sy. ioc_run throws env evs 0 (new_system s0) = Some (LoopReturns sy)) \<longleftrightarrow>
       (\<exists>k. stops throws evs k \<and> \<not> sy_undefined (after env evs s0 k)))
    \<and> (ioc_run throws env evs 0 (new_system s0) = Some (LoopReturns sy) \<longrightarrow>
         sy_stopped sy \<and> (\<exists>es. system_run env s0 es sy))
    \<and> (ioc_run throws env evs 0 (new_system s0) = Some LoopUndefined \<longleftrightarrow>
         (\<exists>k. sy_undefined (after env evs s0 k) \<and> (\<forall>i<k. throws (evs i) = None)))
    \<and> (ioc_run throws env evs 0 (new_system s0) = None \<longleftrightarrow>
         (\<forall>k. throws (evs k) = None \<and> \<not> sy_undefined (after env evs s0 k) \<and> \<not> stops throws evs k))"
  using assms by (intro conjI impI loop_returns loop_returned loop_undefined loop_forever)

theorem event_loop_returns_witness:
  "\<exists>sy. ioc_run (\<lambda>_. None) sample_env (\<lambda>n. if n = 2 then Signal False else Accepted None) 0
      (new_system four_server) = Some (LoopReturns sy)"
proof -
  have "sv_accepts four_server = 0" by code_simp
  moreover have "stops (\<lambda>_. None) (\<lambda>n. if n = 2 then Signal False else Accepted None) 2"
    by (simp add: stops_def)
  moreover have "\<not> sy_undefined (after sample_env (\<lambda>n. if n = 2 then Signal False else Accepted None) four_server 2)"
    by code_simp
  ultimately show ?thesis using event_loop_returns by blast
qed

text \<open>C8. What ends the server for every connection.  A step makes the behaviour of the process
  undefined exactly when it completes a read, of any connection, with a request whose handler
  resolves its target to a proper ancestor of the canonical root of its route (then the
  comparison of the two paths runs past the end of the shorter one), or when a read into a
  message that was used before turns it undefined.  Such a read is started exactly by the
  completion of a write for a request that asked to keep its connection, and it can turn the
  behaviour undefined at every moment until it completes.\<close>

theorem server_undefined_iff:
  assumes "system_run env s0 evs sy" "system_step env sy ev sy'"
  shows "(sy_undefined sy' \<longleftrightarrow>
      (\<exists>i req p r base target. ev = SessionEvent i (ReadDone req)
         \<and> select (request_path (parse_origin_form env) req) (sv_routes s0) = Some (p, r)
         \<and> resolves env req (rc_root r) (rc_index r) base target
         \<and> strict_prefix (path_elems target) (path_elems base))
      \<or> (\<exists>i. ev = SessionEvent i ReadUndefined))
    \<and> (\<forall>i. used_read sy' i \<and> \<not> used_read sy i \<longleftrightarrow>
         ev = SessionEvent i WriteDone \<and> rq_keep_alive (last (requests (events_of i evs))))
    \<and> (\<forall>i. (\<exists>sy''. system_step env sy (SessionEvent i ReadUndefined) sy'') \<longleftrightarrow> used_read sy i)"
proof -
  have "sv_routes (sy_server sy) = sv_routes s0" using system_run_inv [OF assms(1)] by (simp add: system_inv_def)
  then have "sy_undefined sy' \<longleftrightarrow>
      (\<exists>i req p r base target. ev = SessionEvent i (ReadDone req)
         \<and> select (request_path (parse_origin_form env) req) (sv_routes s0) = Some (p, r)
         \<and> resolves env req (rc_root r) (rc_index r) base target
         \<and> strict_prefix (path_elems target) (path_elems base))
      \<or> (\<exists>i. ev = SessionEvent i ReadUndefined)"
    unfolding step_undefined [OF assms(2)] respond_undefined static_handler_def handle_undefined by auto
  with system_used_read [OF assms] read_undefined_possible [OF step_running [OF assms(2)]] show ?thesis by blast
qed

text \<open>Two clients of the server of four routes, the first about to send such a request.\<close>

definition connect_two :: "system_event list" where
  "connect_two = [Accepted (Some 7), Accepted (Some 8)]"

definition two_connected :: "string system" where
  "two_connected = the (system_execs sample_env (new_system four_server) connect_two)"

lemma two_connected_run: "system_run sample_env four_server connect_two two_connected"
proof -
  have "(case system_execs sample_env (new_system four_server) connect_two of None \<Rightarrow> False | Some _ \<Rightarrow> True)"
    by code_simp
  then have "system_execs sample_env (new_system four_server) connect_two = Some two_connected"
    by (auto simp: two_connected_def split: option.splits)
  from system_execs_run [OF system_run.run_init this] show ?thesis by simp
qed

theorem server_undefined_iff_witness:
  "\<exists>sy. system_step sample_env two_connected (SessionEvent 0 (ReadDone (keep ''/..%2f.''))) sy
     \<and> length (sy_sessions sy) = 2 \<and> sy_undefined sy"
proof -
  let ?e = "SessionEvent 0 (ReadDone (keep ''/..%2f.''))"
  have "(case system_exec sample_env two_connected ?e of None \<Rightarrow> False | Some sy \<Rightarrow> length (sy_sessions sy) = 2)"
    by code_simp
  then obtain sy where sy: "system_exec sample_env two_connected ?e = Some sy" "length (sy_sessions sy) = 2"
    by (auto split: option.splits)
  have step: "system_step sample_env two_connected ?e sy" using sy(1) system_step_exec [OF two_connected_run] by blast
  have "(case select (request_path (parse_origin_form sample_env) (keep ''/..%2f.'')) (sv_routes four_server) of
      None \<Rightarrow> False | Some (p, r) \<Rightarrow> rc_root r = ''./public/'' \<and> rc_index r = ''index.html'')"
    by code_simp
  then obtain p r where "select (request_path (parse_origin_form sample_env) (keep ''/..%2f.'')) (sv_routes four_server) = Some (p, r)"
    "rc_root r = ''./public/''" "rc_index r = ''index.html''" by (auto split: option.splits)
  moreover have "resolves sample_env (keep ''/..%2f.'') ''./public/'' ''index.html'' ''/srv/public'' ''/srv''"
    by (simp add: resolves_def sample_env_def keep_def relative_path_def path_append_def sv_starts_with_def)
  moreover have "strict_prefix (path_elems ''/srv'') (path_elems ''/srv/public'')" by code_simp
  ultimately have "sy_undefined sy" using server_undefined_iff [OF two_connected_run step] by metis
  with step sy(2) show ?thesis by blast
qed

text \<open>C36. \<^verbatim>\<open>max_connections\<close> is read and validated but limits nothing: whatever its value, there is
  a run of the server in which any number of connections are open at once.\<close>

theorem connections_unbounded:
  assumes "new_server net cfg = Inr s"
  shows "\<exists>evs sy. system_run env s evs sy \<and> length (filter (\<lambda>c. s_pending c \<noteq> []) (sy_sessions sy)) = n"
proof -
  have "sv_accepts s = 0" using new_server_cases(3) [OF assms] by simp
  have "\<exists>evs sy. system_run env s evs sy \<and> \<not> halted sy \<and> sv_accepts (sy_server sy) = 1
    \<and> sy_sessions sy = replicate n (start new_session)"
  proof (induction n)
    case 0
    from \<open>sv_accepts s = 0\<close> system_run.run_init [of env s] show ?case
      by (intro exI [of _ "[]"] exI [of _ "new_system s"])
        (simp add: new_system_def server_run_def run_def accept_request_def halted_def sy_undefined_def)
  next
    case (Suc n)
    then obtain evs sy where sy: "system_run env s evs sy" "\<not> halted sy" "sv_accepts (sy_server sy) = 1"
      "sy_sessions sy = replicate n (start new_session)" by blast
    let ?sy = "system_accept (Some 0) sy"
    have "system_run env s (evs @ [Accepted (Some 0)]) ?sy"
      using sy by (intro run_next [OF sy(1)] system_step.accept) simp_all
    moreover have "\<not> halted ?sy" using sy(2)
      by (simp add: halted_def sy_undefined_def system_accept_def start_def read_request_def lost_def new_session_def)
    moreover have "sv_accepts (sy_server ?sy) = 1"
      using sy(3) by (simp add: system_accept_def on_accept_def accept_request_def Let_def)
    moreover have "sy_sessions ?sy = replicate (Suc n) (start new_session)"
      using sy(4) by (simp add: system_accept_def replicate_append_same)
    ultimately show ?case by blast
  qed
  then obtain evs sy where "system_run env s evs sy" "sy_sessions sy = replicate n (start new_session)" by blast
  moreover have "s_pending (start new_session) \<noteq> []" by (simp add: start_def read_request_def)
  ultimately show ?thesis by (intro exI [of _ evs] exI [of _ sy]) (simp add: filter_replicate start_def read_request_def)
qed

theorem connections_unbounded_witness:
  "\<exists>evs sy. system_run sample_env four_server evs sy
     \<and> unat (max_connections four_config) < length (filter (\<lambda>c. s_pending c \<noteq> []) (sy_sessions sy))"
proof -
  have "unat (max_connections four_config) < Suc (unat (max_connections four_config))" by simp
  with connections_unbounded [OF four_server, of sample_env "Suc (unat (max_connections four_config))"]
  show ?thesis by metis
qed

end
