(* ===== verification/Main_Program.thy ===== *)
theory Main_Program
  imports Config_Props Logger_Model Event_Loop
begin

text \<open>
  \<^verbatim>\<open>src/main.cpp\<close>: the start of the program, its event loop and its exit code.  The
  run is recorded as a trace of the actions that others can observe.  A world is what the
  program finds: the parser of the configuration, the network, the file system, spdlog, whether
  the I/O context and the signal set can be constructed (\<open>w_context_error\<close>, \<open>w_signals_error\<close>), and
  what the operating system reports to the event loop while it runs (\<open>w_events\<close>, with the
  exceptions \<open>w_throws\<close> that Boost.Asio may raise).
\<close>

section \<open>The program\<close>

record ('n, 'f) world =
  w_toml :: "'n toml_api"
  w_network :: network
  w_is_directory :: "string \<Rightarrow> string + bool"
  w_log :: log_api
  w_context_error :: "string option"
  w_signals_error :: "string option"
  w_env :: "'f environment"
  w_throws :: "system_event \<Rightarrow> string option"
  w_events :: "nat \<Rightarrow> system_event"

datatype action =
    BootstrapLog
  | LoadConfig string
  | InitLogger server_config
  | Listen "string \<times> 16 word"
  | Accept nat
  | AwaitSignals
  | RunLoop
  | ReportCritical string
  | ShutdownLog

text \<open>The outcome: the exit code, undefined behaviour in the loader or of a connection, or an event loop
  that never returns.\<close>

datatype exit = ExitSuccess | ExitFailure | Crash | Runs

definition config_path :: "string list \<Rightarrow> string" where
  "config_path argv = (if length argv > 1 then argv ! 1 else ''default.toml'')"

text \<open>The handler of the \<^verbatim>\<open>try\<close> block, and the destructor of the logger.\<close>

definition leave :: "log_state \<Rightarrow> action list \<Rightarrow> exit \<Rightarrow> exit \<times> action list \<times> log_state" where
  "leave st trace code = (code, trace @ [ShutdownLog], destroy_logger st)"

definition fail :: "log_state \<Rightarrow> action list \<Rightarrow> string \<Rightarrow> exit \<times> action list \<times> log_state" where
  "fail st trace m = leave st (trace @ [ReportCritical m]) ExitFailure"

definition serve ::
  "('n, 'f) world \<Rightarrow> server_config \<Rightarrow> log_state \<Rightarrow> action list \<Rightarrow> exit \<times> action list \<times> log_state" where
  "serve w cfg st trace =
     (case w_context_error w of
        Some m \<Rightarrow> fail st trace m
      | None \<Rightarrow>
          (case new_server (w_network w) cfg of
             Inl m \<Rightarrow> fail st trace m
           | Inr server \<Rightarrow>
               (let started = new_system server;
                    server = sy_server started;
                    trace = trace @ [Listen (sv_endpoint server), Accept (sv_accepts server)]
                in case w_signals_error w of
                     Some m \<Rightarrow> fail st trace m
                   | None \<Rightarrow>
                       (let trace = trace @ [AwaitSignals, RunLoop]
                        in case ioc_run (w_throws w) (w_env w) (w_events w) 0 started of
                             None \<Rightarrow> (Runs, trace, st)
                           | Some (LoopThrows m) \<Rightarrow> fail st trace m
                           | Some LoopUndefined \<Rightarrow> (Crash, trace, st)
                           | Some (LoopReturns _) \<Rightarrow> leave st trace ExitSuccess))))"

definition main :: "('n, 'f) world \<Rightarrow> string list \<Rightarrow> exit \<times> action list \<times> log_state" where
  "main w argv =
     (let path = config_path argv;
          st = (new_logger, initial_spdlog)
      in case initialize_bootstrap (w_log w) st of
           None \<Rightarrow> (Crash, [BootstrapLog], st)
         | Some st \<Rightarrow>
             (let trace = [BootstrapLog, LoadConfig path]
              in case load_file (w_toml w) (\<lambda>h. address_error (w_network w) h = None) (w_is_directory w) path of
                   Inl NullPointer \<Rightarrow> (Crash, trace, st)
                 | Inl (Thrown e) \<Rightarrow> fail st trace (what e)
                 | Inr cfg \<Rightarrow>
                     (let trace = trace @ [InitLogger cfg]
                      in case initialize (w_log w) cfg st of
                           (st', Inl (LogError m)) \<Rightarrow> fail st' trace m
                         | (st', Inl NullLogger) \<Rightarrow> (Crash, trace, st')
                         | (st', Inr _) \<Rightarrow> serve w cfg st' trace)))"

section \<open>Lemmas\<close>

abbreviation valid_address :: "('n, 'f) world \<Rightarrow> string \<Rightarrow> bool" where
  "valid_address w \<equiv> \<lambda>h. address_error (w_network w) h = None"

lemma valid_port:
  assumes "config_valid address_ok is_directory c"
  shows "unat (ucast (sc_port c) :: 16 word) = unat (sc_port c)"
proof -
  have "unat (sc_port c) < 2 ^ 16" using assms by (simp add: config_valid_def)
  then show ?thesis by (simp add: unsigned_ucast_eq take_bit_nat_eq_self)
qed


abbreviation loaded :: "('n, 'f) world \<Rightarrow> string list \<Rightarrow> failure + server_config" where
  "loaded w argv \<equiv> load_file (w_toml w) (valid_address w) (w_is_directory w) (config_path argv)"

lemma bootstrap_initial:
  obtains lo sp where "initialize_bootstrap api (new_logger, initial_spdlog) = Some (lo, sp)"
    "\<not> lo_initialized lo" "sp_names sp = sp_names initial_spdlog"
  by (simp add: initialize_bootstrap_def new_logger_def initial_spdlog_def info_default Let_def)

text \<open>The logger of a configuration can be set up when the program starts.\<close>

abbreviation loggable :: "('n, 'f) world \<Rightarrow> server_config \<Rightarrow> bool" where
  "loggable w cfg \<equiv> can_log (w_log w) (sp_names initial_spdlog) cfg"

lemma fail_simps [simp]:
  "fst (fail st trace m) = ExitFailure"
  "fst (snd (fail st trace m)) = trace @ [ReportCritical m, ShutdownLog]"
  "snd (snd (fail st trace m)) = shutdown st"
  by (simp_all add: fail_def leave_def destroy_logger_def)

lemma leave_simps [simp]:
  "fst (leave st trace code) = code"
  "fst (snd (leave st trace code)) = trace @ [ShutdownLog]"
  "snd (snd (leave st trace code)) = shutdown st"
  by (simp_all add: leave_def destroy_logger_def)

text \<open>The event loop of a server, and the actions of starting it.\<close>

abbreviation looped :: "('n, 'f) world \<Rightarrow> nat server \<Rightarrow> 'f loop_end option" where
  "looped w server \<equiv> ioc_run (w_throws w) (w_env w) (w_events w) 0 (new_system server)"

abbreviation up :: "nat server \<Rightarrow> action list" where
  "up server \<equiv> [Listen (sv_endpoint server), Accept 1, AwaitSignals, RunLoop]"

text \<open>The ways through \<open>serve\<close>, and through \<open>main\<close>.\<close>

lemma serve_fails:
  "w_context_error w \<noteq> None \<or> (new_server (w_network w) cfg :: string + nat server) = Inl m \<Longrightarrow>
     \<exists>m. serve w cfg st trace = fail st trace m"
  by (auto simp: serve_def split: option.split)

lemma serve_loops:
  assumes "w_context_error w = None" "new_server (w_network w) cfg = Inr server"
  shows "serve w cfg st trace = (case w_signals_error w of
      Some m \<Rightarrow> fail st (trace @ [Listen (sv_endpoint server), Accept 1]) m
    | None \<Rightarrow> (case looped w server of
        None \<Rightarrow> (Runs, trace @ up server, st)
      | Some (LoopThrows m) \<Rightarrow> fail st (trace @ up server) m
      | Some LoopUndefined \<Rightarrow> (Crash, trace @ up server, st)
      | Some (LoopReturns _) \<Rightarrow> leave st (trace @ up server) ExitSuccess))"
proof -
  have "sv_accepts server = 0" using new_server_cases(3) [OF assms(2)] by simp
  with assms show ?thesis by (simp add: serve_def Let_def new_system_def server_run_def run_def accept_request_def
        split: option.split loop_end.split)
qed

lemma main_serves:
  assumes "loaded w argv = Inr cfg"
  obtains (log) m st where "\<not> loggable w cfg"
      "main w argv = fail st [BootstrapLog, LoadConfig (config_path argv), InitLogger cfg] m"
  | (serve) st where "loggable w cfg"
      "main w argv = serve w cfg st [BootstrapLog, LoadConfig (config_path argv), InitLogger cfg]"
proof (rule bootstrap_initial [of "w_log w"])
  fix lo sp
  assume st: "initialize_bootstrap (w_log w) (new_logger, initial_spdlog) = Some (lo, sp)"
    and fresh: "\<not> lo_initialized lo" and names: "sp_names sp = sp_names initial_spdlog"
  note init = initialize_fresh [OF fresh, of "w_log w" sp cfg, unfolded names]
  show ?thesis
  proof (cases "loggable w cfg")
    case False
    with init obtain m where "initialize (w_log w) cfg (lo, sp) = ((lo, sp\<lparr>sp_pool := Some (8192, 1)\<rparr>), Inl (LogError m))"
      by auto
    with assms st False show ?thesis by (intro log) (simp_all add: main_def Let_def)
  next
    case True
    with init obtain st' where "initialize (w_log w) cfg (lo, sp) = (st', Inr ())" by auto
    with assms st True show ?thesis by (intro serve) (simp_all add: main_def Let_def)
  qed
qed

text \<open>The program got as far as listening, and as its event loop.\<close>

definition listens :: "('n, 'f) world \<Rightarrow> string list \<Rightarrow> server_config \<Rightarrow> nat server \<Rightarrow> bool" where
  "listens w argv cfg server \<longleftrightarrow> load_file (w_toml w) (valid_address w) (w_is_directory w) (config_path argv) = Inr cfg
     \<and> loggable w cfg \<and> w_context_error w = None \<and> new_server (w_network w) cfg = Inr server"

definition starts :: "('n, 'f) world \<Rightarrow> string list \<Rightarrow> server_config \<Rightarrow> nat server \<Rightarrow> bool" where
  "starts w argv cfg server \<longleftrightarrow> listens w argv cfg server \<and> w_signals_error w = None"

lemma starts_accepts: "starts w argv cfg server \<Longrightarrow> sv_accepts server = 0"
  using new_server_cases(3) [of "w_network w" cfg server] by (simp add: starts_def listens_def)

lemma main_cases:
  obtains (crash) st where "loaded w argv = Inl NullPointer"
      "main w argv = (Crash, [BootstrapLog, LoadConfig (config_path argv)], st)"
  | (stop) st trace m where "loaded w argv \<noteq> Inl NullPointer" "\<forall>cfg server. \<not> starts w argv cfg server"
      "main w argv = fail st trace m" "\<forall>h p. Listen (h, p) \<notin> set trace"
  | (signals) cfg server st m where "listens w argv cfg server" "\<forall>cfg server. \<not> starts w argv cfg server"
      "main w argv = fail st [BootstrapLog, LoadConfig (config_path argv), InitLogger cfg,
         Listen (sv_endpoint server), Accept 1] m"
  | (loop) cfg server st where "starts w argv cfg server" "main w argv = (case looped w server of
      None \<Rightarrow> (Runs, [BootstrapLog, LoadConfig (config_path argv), InitLogger cfg] @ up server, st)
    | Some (LoopThrows m) \<Rightarrow> fail st ([BootstrapLog, LoadConfig (config_path argv), InitLogger cfg] @ up server) m
    | Some LoopUndefined \<Rightarrow> (Crash, [BootstrapLog, LoadConfig (config_path argv), InitLogger cfg] @ up server, st)
    | Some (LoopReturns _) \<Rightarrow> leave st ([BootstrapLog, LoadConfig (config_path argv), InitLogger cfg] @ up server) ExitSuccess)"
proof (cases "loaded w argv")
  case (Inl e)
  obtain lo sp where "initialize_bootstrap (w_log w) (new_logger, initial_spdlog) = Some (lo, sp)"
    by (rule bootstrap_initial)
  note start = this Inl
  show ?thesis
  proof (cases e)
    case NullPointer
    with start show ?thesis by (intro crash) (simp_all add: main_def Let_def)
  next
    case (Thrown x)
    with start show ?thesis
      by (intro stop [where trace = "[BootstrapLog, LoadConfig (config_path argv)]"])
        (simp_all add: main_def starts_def listens_def Let_def)
  qed
next
  case (Inr cfg)
  let ?trace = "[BootstrapLog, LoadConfig (config_path argv), InitLogger cfg]"
  show ?thesis
  proof (rule main_serves [OF Inr], goal_cases)
    case (1 m st)
    with Inr show ?case by (intro stop [where trace = ?trace]) (simp_all add: starts_def listens_def)
  next
    case (2 st)
    show ?case
    proof (cases "w_context_error w = None \<and> (\<exists>server. new_server (w_network w) cfg = Inr (server :: nat server))")
      case False
      then have "w_context_error w \<noteq> None \<or> (\<exists>m. (new_server (w_network w) cfg :: string + nat server) = Inl m)"
        by (cases "new_server (w_network w) cfg :: string + nat server") auto
      then obtain m where "serve w cfg st ?trace = fail st ?trace m" using serve_fails by metis
      with Inr 2 False show ?thesis by (intro stop [where trace = ?trace]) (auto simp: starts_def listens_def)
    next
      case True
      then obtain server :: "nat server" where s: "w_context_error w = None" "new_server (w_network w) cfg = Inr server" by blast
      note run = serve_loops [OF s, of st ?trace]
      show ?thesis
      proof (cases "w_signals_error w")
        case None
        with Inr 2 s run show ?thesis by (intro loop [of cfg server st]) (simp_all add: starts_def listens_def)
      next
        case (Some m)
        with Inr 2 s run show ?thesis by (intro signals [of cfg server st m]) (simp_all add: starts_def listens_def)
      qed
    qed
  qed
qed

lemma shutdown_down: "\<not> is_initialized (fst (shutdown st))"
  by (cases st) (simp add: shutdown_def is_initialized_def Let_def)

lemma starts_unique: "starts w argv cfg server \<Longrightarrow> starts w argv cfg' server' \<Longrightarrow> cfg' = cfg \<and> server' = server"
  by (simp add: starts_def listens_def)

lemma listens_defined: "listens w argv cfg server \<Longrightarrow> loaded w argv \<noteq> Inl NullPointer"
  by (simp add: listens_def)

lemma starts_defined: "starts w argv cfg server \<Longrightarrow> loaded w argv \<noteq> Inl NullPointer"
  by (simp add: starts_def listens_def)

section \<open>Properties\<close>

text \<open>The file \<^verbatim>\<open>default.toml\<close> on a machine where everything works.\<close>

definition fine_world :: "(toml, string) world" where
  "fine_world =
     \<lparr>w_toml = tree_api default_toml,
      w_network = \<lparr>address_error = (\<lambda>h. if h = ''127.0.0.1'' then None else Some ''bad''),
        listen_error = (\<lambda>_ _. None)\<rparr>,
      w_is_directory = (\<lambda>p. Inr (p = ''./public/'')),
      w_log = plain_api, w_context_error = None, w_signals_error = None, w_env = sample_env, w_throws = (\<lambda>_. None),
      w_events = (\<lambda>n. if n = 3 then Signal False else Accepted None)\<rparr>"

lemma fine_returns:
  assumes "sv_accepts server = 0"
  shows "\<exists>sy. looped fine_world server = Some (LoopReturns sy)"
proof -
  have "stops (w_throws fine_world) (w_events fine_world) 3"
    by (simp add: stops_def fine_world_def)
  moreover have "\<not> sy_undefined (after (w_env fine_world) (w_events fine_world) server 3)"
    by (rule no_read_defined) (simp add: fine_world_def)
  ultimately show ?thesis using loop_returns [OF assms] by blast
qed

lemma fine_run: "main fine_world [''VeloxServ''] =
    (ExitSuccess, [BootstrapLog, LoadConfig ''default.toml'', InitLogger loaded_default,
       Listen (''127.0.0.1'', 8080), Accept 1, AwaitSignals, RunLoop, ShutdownLog],
     snd (snd (main fine_world [''VeloxServ''])))"
proof -
  have start: "loaded fine_world [''VeloxServ''] = Inr loaded_default" "loggable fine_world loaded_default"
    "config_path [''VeloxServ''] = ''default.toml''"
    by code_simp+
  define server :: "nat server" where "server = \<lparr>sv_config = loaded_default, sv_endpoint = (''127.0.0.1'', 8080),
      sv_routes = foldl (\<lambda>t (k, h). assign k h t) empty_table (static_routes (sc_routes loaded_default)),
      sv_accepts = 0, sv_sessions = [], sv_accept_logs = 0\<rparr>"
  have new: "new_server (w_network fine_world) loaded_default = Inr server"
    unfolding server_def by code_simp
  then have zero: "sv_accepts server = 0" by (simp add: server_def)
  have up: "starts fine_world [''VeloxServ''] loaded_default server" using start new by (simp add: starts_def listens_def fine_world_def)
  from fine_returns [OF zero] obtain sy where sy: "looped fine_world server = Some (LoopReturns sy)" by blast
  show ?thesis
  proof (rule main_cases [of fine_world "[''VeloxServ'']"], goal_cases)
    case (4 cfg server' st)
    with starts_unique [OF up] have "cfg = loaded_default" "server' = server" by simp_all
    with 4 start sy show ?case by (simp add: server_def leave_def)
  qed (use up starts_defined in auto)
qed

text \<open>C9. The program listens only for a configuration that was loaded and is valid, after its logger
  was set up, on exactly the configured host and port: the narrowing to 16 bits loses nothing.\<close>

theorem main_listens_validated:
  assumes "Listen (h, p) \<in> set (fst (snd (main w argv)))"
  shows "\<exists>cfg. load_file (w_toml w) (valid_address w) (w_is_directory w) (config_path argv) = Inr cfg
    \<and> config_valid (valid_address w) (w_is_directory w) cfg \<and> loggable w cfg
    \<and> h = sc_host cfg \<and> unat p = unat (sc_port cfg) \<and> p \<noteq> 0"
proof -
  have found: ?thesis if up: "listens w argv cfg server" and e: "(h, p) = sv_endpoint server" for cfg server
  proof -
    have up: "loaded w argv = Inr cfg" "loggable w cfg" "new_server (w_network w) cfg = Inr server"
      using up by (simp_all add: listens_def)
    have e: "h = sc_host cfg" "p = ucast (sc_port cfg)" using e new_server_cases(3) [OF up(3)] by simp_all
    from up(1) have v: "config_valid (valid_address w) (w_is_directory w) cfg"
      by (rule load_file_config_valid)
    then have port: "unat p = unat (sc_port cfg)" "1 \<le> unat (sc_port cfg)"
      unfolding e(2) by (simp_all add: valid_port, simp add: config_valid_def)
    then have "p \<noteq> 0" by auto
    with up(1,2) v e(1) port(1) show ?thesis by (intro exI [of _ cfg]) simp
  qed
  show ?thesis
  proof (rule main_cases [of w argv], goal_cases)
    case (3 cfg server st m)
    with assms have "(h, p) = sv_endpoint server" by auto
    with 3(1) show ?case by (rule found)
  next
    case (4 cfg server st)
    with assms have "(h, p) = sv_endpoint server" by (auto split: option.splits loop_end.splits)
    with 4(1) show ?case by (intro found [of cfg server]) (simp_all add: starts_def)
  qed (use assms in auto)
qed

theorem main_listens_validated_witness:
  "\<exists>cfg. load_file (w_toml fine_world) (valid_address fine_world) (w_is_directory fine_world)
      (config_path [''VeloxServ'']) = Inr cfg \<and> unat (8080 :: 16 word) = unat (sc_port cfg)"
proof -
  have "Listen (''127.0.0.1'', 8080) \<in> set (fst (snd (main fine_world [''VeloxServ''])))"
    by (subst fine_run) simp
  from main_listens_validated [OF this] show ?thesis by blast
qed

text \<open>C30. The exit code is success exactly when the configuration loads, the logger, the I/O context, the
  server and the signal set can be set up and the event loop is stopped by a signal, no behaviour having been
  undefined until then; the program then did these steps in this order, with one accept
  outstanding when the loop starts.\<close>

theorem main_success:
  "fst (main w argv) = ExitSuccess \<longleftrightarrow>
   (\<exists>cfg server k. starts w argv cfg server
      \<and> stops (w_throws w) (w_events w) k \<and> \<not> sy_undefined (after (w_env w) (w_events w) server k)
      \<and> fst (snd (main w argv)) =
          [BootstrapLog, LoadConfig (config_path argv), InitLogger cfg, Listen (sv_endpoint server), Accept 1,
           AwaitSignals, RunLoop, ShutdownLog])"
proof (rule main_cases [of w argv], goal_cases)
  case (4 cfg server st)
  note unique = starts_unique [OF 4(1)]
  have returns: "(\<exists>sy. looped w server = Some (LoopReturns sy)) \<longleftrightarrow>
      (\<exists>k. stops (w_throws w) (w_events w) k \<and> \<not> sy_undefined (after (w_env w) (w_events w) server k))"
    by (rule loop_returns [OF starts_accepts [OF 4(1)]])
  show ?case
  proof
    assume "fst (main w argv) = ExitSuccess"
    with 4(2) obtain sy where "looped w server = Some (LoopReturns sy)" by (auto split: option.splits loop_end.splits)
    with 4 returns show "\<exists>cfg server k. starts w argv cfg server
      \<and> stops (w_throws w) (w_events w) k \<and> \<not> sy_undefined (after (w_env w) (w_events w) server k)
      \<and> fst (snd (main w argv)) =
          [BootstrapLog, LoadConfig (config_path argv), InitLogger cfg, Listen (sv_endpoint server), Accept 1,
           AwaitSignals, RunLoop, ShutdownLog]"
      by (intro exI [of _ cfg] exI [of _ server]) simp
  qed (use 4 returns unique in fastforce)
qed (auto dest: starts_defined listens_defined)

text \<open>C31. Termination: the program runs on for ever exactly when it got as far as its event loop, no
  signal stops that, Boost.Asio raises no exception and no behaviour is undefined;
  in every other case it returns an exit code or dies.\<close>

theorem main_runs_on:
  "fst (main w argv) = Runs \<longleftrightarrow>
    (\<exists>cfg server. starts w argv cfg server
      \<and> (\<forall>k. w_throws w (w_events w k) = None \<and> \<not> sy_undefined (after (w_env w) (w_events w) server k)
             \<and> \<not> stops (w_throws w) (w_events w) k))"
proof (rule main_cases [of w argv], goal_cases)
  case (4 cfg server st)
  from 4(2) have "fst (main w argv) = Runs \<longleftrightarrow> looped w server = None"
    by (auto split: option.splits loop_end.splits)
  then show ?case
    unfolding loop_forever [OF starts_accepts [OF 4(1)]] using 4(1) starts_unique [OF 4(1)] by blast
qed (auto dest: starts_defined listens_defined)

theorem main_runs_on_witness:
  "fst (main (fine_world\<lparr>w_events := (\<lambda>n. Accepted None)\<rparr>) [''VeloxServ'']) = Runs"
proof -
  let ?w = "fine_world\<lparr>w_events := (\<lambda>n. Accepted None)\<rparr>"
  have "load_file (w_toml ?w) (valid_address ?w) (w_is_directory ?w) (config_path [''VeloxServ'']) = Inr loaded_default"
    "loggable ?w loaded_default" by code_simp+
  moreover have "(case new_server (w_network ?w) loaded_default :: string + nat server of Inl _ \<Rightarrow> False | Inr _ \<Rightarrow> True)"
    by code_simp
  then obtain server :: "nat server" where "new_server (w_network ?w) loaded_default = Inr server"
    by (auto split: sum.splits)
  ultimately have "starts ?w [''VeloxServ''] loaded_default server" by (simp add: starts_def listens_def fine_world_def)
  moreover have "\<not> sy_undefined (after (w_env ?w) (w_events ?w) server k)" for k
    by (rule no_read_defined) simp
  moreover have "w_throws ?w ev = None" for ev by (simp add: fine_world_def)
  moreover have "\<not> stops (w_throws ?w) (w_events ?w) k" for k by (simp add: stops_def)
  ultimately show ?thesis unfolding main_runs_on by blast
qed

text \<open>C39. The program dies of undefined behaviour exactly when the configuration file parses but its
  \<^verbatim>\<open>[server]\<close> or \<^verbatim>\<open>[logging]\<close> table lacks a key, or when it got as far as its event loop and
  the behaviour of a connection is undefined there before an exception; on every other way out,
  failure or success, the logger has been shut down.\<close>

theorem main_exit:
  "(fst (main w argv) = Crash \<longleftrightarrow>
     (\<exists>tbl. parse_file (w_toml w) (config_path argv) = Inr tbl
        \<and> (missing_key (w_toml w) tbl ''server'' server_keys \<or> missing_key (w_toml w) tbl ''logging'' logging_keys))
     \<or> (\<exists>cfg server k. starts w argv cfg server \<and> sy_undefined (after (w_env w) (w_events w) server k)
          \<and> (\<forall>i<k. w_throws w (w_events w i) = None)))
   \<and> (fst (main w argv) = ExitSuccess \<or> fst (main w argv) = ExitFailure \<longrightarrow>
        \<not> is_initialized (fst (snd (snd (main w argv)))) \<and> last (fst (snd (main w argv))) = ShutdownLog)"
  unfolding null_iff [of "w_toml w" "valid_address w" "w_is_directory w", symmetric]
proof (rule main_cases [of w argv], goal_cases)
  case (4 cfg server st)
  from 4(2) have "fst (main w argv) = Crash \<longleftrightarrow> looped w server = Some LoopUndefined"
    by (auto split: option.splits loop_end.splits)
  also have "\<dots> \<longleftrightarrow> (\<exists>k. sy_undefined (after (w_env w) (w_events w) server k) \<and> (\<forall>i<k. w_throws w (w_events w i) = None))"
    by (rule loop_undefined [OF starts_accepts [OF 4(1)]])
  finally have crash: "fst (main w argv) = Crash \<longleftrightarrow>
      (\<exists>cfg server k. starts w argv cfg server \<and> sy_undefined (after (w_env w) (w_events w) server k)
          \<and> (\<forall>i<k. w_throws w (w_events w i) = None))"
    using 4(1) starts_unique [OF 4(1)] by blast
  have "fst (main w argv) = ExitSuccess \<or> fst (main w argv) = ExitFailure \<longrightarrow>
        \<not> is_initialized (fst (snd (snd (main w argv)))) \<and> last (fst (snd (main w argv))) = ShutdownLog"
    unfolding 4(2) by (auto simp: shutdown_down split: option.splits loop_end.splits)
  with crash starts_defined [OF 4(1)] show ?case by blast
qed (auto simp: shutdown_down dest: starts_defined listens_defined)

theorem main_exit_witness:
  "last (fst (snd (main fine_world [''VeloxServ'']))) = ShutdownLog
   \<and> fst (main (fine_world\<lparr>w_toml := tree_api (TTable [(''server'', TTable [])])\<rparr>) []) = Crash"
proof -
  let ?w = "fine_world\<lparr>w_toml := tree_api (TTable [(''server'', TTable [])])\<rparr>"
  have "fst (main fine_world [''VeloxServ'']) = ExitSuccess" by (subst fine_run) simp
  with main_exit [of fine_world "[''VeloxServ'']"] have "last (fst (snd (main fine_world [''VeloxServ'']))) = ShutdownLog"
    by blast
  moreover have "parse_file (w_toml ?w) (config_path []) = Inr (TTable [(''server'', TTable [])])"
    "missing_key (w_toml ?w) (TTable [(''server'', TTable [])]) ''server'' server_keys" by code_simp+
  then have "fst (main ?w []) = Crash" using main_exit [of ?w "[]"] by blast
  ultimately show ?thesis by blast
qed

end
