(* ===== verification/Spec2Isabelle.thy ===== *)
theory Spec2Isabelle
  imports Router_References Router_Cost Handler_Lifetime Mime Config_Props Session_Machine Session_Timing Containment
    Main_Program
begin

text \<open>
  A model of VeloxServ, an HTTP server in C++20 on Boost.Asio and Boost.Beast, and the
  theorems that make it correct.

  \<^bold>\<open>The program.\<close>  \<^verbatim>\<open>main\<close> sets up a bootstrap logger, loads and validates a TOML
  file, sets up the real logger, constructs an \<^verbatim>\<open>HttpServer\<close> with the routes of the
  configuration, starts to accept connections, waits for \<^verbatim>\<open>SIGINT\<close> or \<^verbatim>\<open>SIGTERM\<close> and runs
  the I/O context in its one thread.  An accepted socket becomes an \<^verbatim>\<open>HttpSession\<close>, which
  reads a request, gives it to the handler of the longest matching prefix in the route table,
  writes the response and reads again while the client keeps the connection.  The handlers
  of the table serve files below a root directory.  \<^verbatim>\<open>Router\<close> (a radix tree with parameters)
  and \<^verbatim>\<open>MimeTypes\<close> are components that the server does not use yet; the tests exercise them.

  \<^bold>\<open>Theories and sources\<close> (file names without a directory are under \<^verbatim>\<open>src/\<close>).

    \<^item> \<open>Prelude\<close>: operations of \<^verbatim>\<open>std::string_view\<close> on character lists, and lemmas.
    \<^item> \<open>Router_Model\<close>: \<^verbatim>\<open>Router.cpp\<close>, \<^verbatim>\<open>Router.hpp\<close> and the records of \<^verbatim>\<open>HttpTypes.hpp\<close>.
      \<open>node\<close> is \<^verbatim>\<open>Router::Node\<close>, a \<^verbatim>\<open>Node*\<close> is the list of edges that leads to it;
      \<open>validate_pattern\<close>, \<open>insert_static\<close>, \<open>insert_special\<close>, \<open>insert_route\<close>, \<open>add_route\<close>,
      \<open>search\<close> and \<open>match_route\<close> are the functions of these names.
      \<open>Router_Spec\<close> says what a router means (token lists, matching, priority),
      \<open>Router_Match\<close>, \<open>Router_Insert\<close> and \<open>Router_Validation\<close> relate the code to it,
      \<open>Router_Store\<close> states the contract of a router as the locale \<open>pattern_store\<close> and
      interprets it, \<open>Router_Props\<close> draws the consequences for any sequence of registrations.
      \<open>Router_Machine\<close> refines a table of shapes by the tree, \<open>Router_Cost\<close> lists the
      nodes that a search visits, \<open>Handler_Lifetime\<close> models the handler objects that the
      router only refers to.
    \<^item> \<open>Router_Heap\<close>: \<^verbatim>\<open>Router.cpp\<close> again, with the nodes as objects in memory: a \<open>cell\<close> is
      a \<^verbatim>\<open>Router::Node\<close> whose children are addresses, a split changes it in place, parameter
      values are offsets and lengths; the functions are those of \<open>Router_Model\<close> with the
      prefix \<open>heap_\<close>.  \<open>Router_Ownership\<close> says when cells hold a tree (\<open>stored\<close>) and frames
      it; \<open>Router_Heap_Insert\<close>, \<open>Router_Heap_Match\<close> relate the operations of the two models;
      \<open>Router_Heap_Machine\<close> shows the bisimulation and memory safety.  \<open>Router_Boundaries\<close>
      and \<open>Router_Addresses\<close> say where the nodes of a tree are before and after an insertion,
      and \<open>Router_References\<close> what that does to the references that \<^verbatim>\<open>match\<close> returned.
    \<^item> \<open>Mime\<close>: \<^verbatim>\<open>MimeTypes.cpp\<close> and the \<^verbatim>\<open>mime_types\<close> of \<^verbatim>\<open>HttpServer.hpp\<close>; the hash
      maps are buckets, and \<open>hash_map\<close> is the contract of their hash and equality.
    \<^item> \<open>Config\<close>, \<open>Config_Props\<close>: \<^verbatim>\<open>ConfigLoader\<close>, \<^verbatim>\<open>ConfigValidator\<close>, \<^verbatim>\<open>ConfigException\<close> and
      \<^verbatim>\<open>ConfigDiagnostic\<close>.
    \<^item> \<open>Response\<close>: \<^verbatim>\<open>ResponseFactory\<close> and the messages of Boost.Beast as the sources use them.
    \<^item> \<open>Route_Table\<close>: the \<^verbatim>\<open>RouteTable\<close> of \<^verbatim>\<open>HttpTypes.hpp\<close> as a sorted association list
      (locale \<open>ordered_map\<close>) and the prefix loop of \<^verbatim>\<open>HttpSession::process_request\<close>.
    \<^item> \<open>Static_Files\<close>: \<^verbatim>\<open>HttpServer::handle_static_request\<close>.  \<open>File_System\<close> is a POSIX
      file system with symbolic links and the operations of \<^verbatim>\<open>std::filesystem\<close> on it;
      \<open>Containment\<close> shows what the handler serves from it.
    \<^item> \<open>Session\<close>: \<^verbatim>\<open>HttpSession\<close> as a step relation over its outstanding operations; the
      contract of a handler is the locale \<open>request_handler\<close>.  Boost.Beast leaves a read into a
      message that is not empty undefined, and \<^verbatim>\<open>request_\<close> is never cleared: such a read
      delivers a request, which is what \<^verbatim>\<open>request_\<close> then holds, or fails, or ends the process
      (\<open>ReadUndefined\<close>).  \<open>Session_Machine\<close> refines a
      machine of four phases by it, \<open>Session_Timing\<close> adds a clock and the deadline.
    \<^item> \<open>Server\<close>: \<^verbatim>\<open>HttpServer\<close> and its \<^verbatim>\<open>Impl\<close>: construction, routes, accept loop.
    \<^item> \<open>System\<close>: acceptor, connections and signal handler interleaved; undefined behaviour
      leaves no further step.  \<open>Event_Loop\<close>: \<^verbatim>\<open>ioc.run()\<close>, which returns, throws,
      meets undefined behaviour (\<open>loop_end\<close>) or runs for ever, and what decides it.
    \<^item> \<open>Logger_Model\<close>: \<^verbatim>\<open>Logger.cpp\<close> over the global state of spdlog, and the machine of three
      phases that it refines.
    \<^item> \<open>Main_Program\<close>: \<^verbatim>\<open>main.cpp\<close>.
    \<^item> \<open>Refinement\<close>: traces of labelled transition systems; the locales \<open>refinement\<close> and
      \<open>exact_refinement\<close> that \<open>Router_Machine\<close> and \<open>Session_Machine\<close> interpret, and
      \<open>bisimulation\<close>, that \<open>Router_Heap_Machine\<close> interprets.

  \<^bold>\<open>What is shown.\<close>  Router: lookups are sound, complete and prioritised, registration has
  the strong exception guarantee and keeps the radix-tree invariant, the tree in
  memory is indistinguishable from a table, its operations follow no bad pointer, a lookup
  visits no node twice, a match result keeps its route unless a later registration
  splits its node, handlers that outlive their registrations are called and temporaries dangle.  Configuration: which
  files load, which crash the loader, which diagnostics are given.  Static files: what is served
  lies below the root, for paths and, without dot-dots in the decoded path, physically; how
  links are followed out of it otherwise; when the path comparison is undefined.  Connections:
  responses in order, one operation at a time, exact refinement of a small machine, bounds on
  the time between requests.  Server and system: the routes of a configuration, one
  outstanding accept, isolation of connections, no limit on their number, shutdown and
  termination of the event loop, and what ends it for all connections.
  Logger: its life cycle, and when logging follows a null pointer.  Program: order of start-up, exit codes, when it runs on.  This theory adds the properties
  that span all of them.

  \<^bold>\<open>Parameters.\<close>  What is not in the repository is an argument: toml++ (\<open>toml_api\<close>, a record
  of its functions, with \<open>tree_api\<close> as a concrete one), \<^verbatim>\<open>make_address\<close> and the
  acceptor (\<open>network\<close>), \<^verbatim>\<open>is_directory\<close>, URL parsing, \<^verbatim>\<open>weakly_canonical\<close> and
  opening a file (\<open>environment\<close>, with \<open>fs_environment\<close> as the instance on a file system),
  spdlog's fallible functions (\<open>log_api\<close>), the constructors of the I/O context and the signal set, the number of buckets and the hash of a hash map,
  and the reports of the operating system to the event loop.  No law is assumed of them except where a theorem names it.

  \<^bold>\<open>Errors, bounds, termination.\<close>  Exceptions are values of sum types; operations that throw
  after they have changed something return the state beside the outcome.  Undefined
  behaviour has values of its own (\<open>NullPointer\<close>, \<open>Undefined\<close>, \<open>LoopUndefined\<close>, \<open>Dangling\<close>;
  in memory, and without a default logger, \<open>None\<close>).  Ports, sizes and
  limits are words of their width, hashes wrap at 64 bits.  All loops and recursions of the
  code are total functions with termination proofs, except two.  \<open>ioc_run\<close> may not return; it
  is a partial function whose \<open>None\<close> is an endless run.  \<open>heap_search\<close> would not return on a
  memory with a cycle; its fuel, the length of the target and one, bounds the depth of the
  recursion, and \<open>heap_router_safe\<close> shows that it never runs out.  The
  resolution of a path follows at most 40 links, as Linux does; more are an error, not a bound
  of the model.

  \<^bold>\<open>Not modelled.\<close>  The destruction of a router and its nodes; the bytes of HTTP on the wire and
  the parser of Boost.Beast; methods, fields and bodies of requests, which the code does not read;
  the content
  of log messages other than those of the logger itself and their asynchronous delivery;
  allocation failure; permissions; changes of the files during a run (the
  handlers of one run see one \<open>environment\<close>); the proxy routes, which the code refuses; the tests, the benchmark and the build
  files.
\<close>

section \<open>The properties of the whole\<close>

text \<open>Every file a connection sends comes from a configured static route.\<close>

lemma system_serves:
  assumes "load_file api address_ok is_directory file = Inr cfg" "new_server net cfg = Inr s"
    and "system_run env s evs sy" "i < length (sy_sessions sy)"
    and "msg \<in> set (s_written (sy_sessions sy ! i))" "rs_body msg = FileBody f"
  shows "\<exists>req\<in>set (requests (events_of i evs)). \<exists>r base target.
    r \<in> set (sc_routes cfg) \<and> rc_type r = Static \<and> is_directory (rc_root r) = Inr True
    \<and> prefix (rc_path r) (request_path (parse_origin_form env) req)
    \<and> resolves env req (rc_root r) (rc_index r) base target
    \<and> prefix (path_elems base) (path_elems target) \<and> open_file env (c_str target) = Opened f"
proof -
  from system_run_inv [OF assms(3)] assms(4)
  have run: "session_run (parse_origin_form env) (static_handler env) (sv_routes s) (events_of i evs) (sy_sessions sy ! i)"
    by (simp add: system_inv_def)
  obtain req where req: "req \<in> set (requests (events_of i evs))"
    "respond (parse_origin_form env) (static_handler env) (sv_routes s) req = Returns msg"
    using session_written_from [OF run assms(5)] by blast
  from server_serves_contained [OF assms(2) req(2) assms(6)] obtain r base target where
    "r \<in> set (sc_routes cfg)" "rc_type r = Static"
    "prefix (rc_path r) (request_path (parse_origin_form env) req)"
    "resolves env req (rc_root r) (rc_index r) base target"
    "prefix (path_elems base) (path_elems target)" "open_file env (c_str target) = Opened f" by blast
  moreover from load_file_config_valid [OF assms(1)] \<open>r \<in> set (sc_routes cfg)\<close>
  have "is_directory (rc_root r) = Inr True" by (simp add: config_valid_def route_valid_def)
  ultimately show ?thesis using req(1) by blast
qed

text \<open>C4. From the configuration file to the wire: in every run of the server, with any number of
  connections interleaved, every file sent on a connection answers a request read on that
  connection, belongs to a static route that the loader validated (its root is an existing
  directory, its path is a prefix of the request's path), and resolves to a path that extends
  the canonical root of the route.\<close>

theorem system_serves_contained:
  assumes "load_file api address_ok is_directory file = Inr cfg" "new_server net cfg = Inr s"
    and "system_run env s evs sy" "i < length (sy_sessions sy)"
    and "msg \<in> set (s_written (sy_sessions sy ! i))" "rs_body msg = FileBody f"
  shows "\<exists>req\<in>set (requests (events_of i evs)). \<exists>r base target.
    r \<in> set (sc_routes cfg) \<and> rc_type r = Static \<and> is_directory (rc_root r) = Inr True
    \<and> prefix (rc_path r) (request_path (parse_origin_form env) req)
    \<and> resolves env req (rc_root r) (rc_index r) base target
    \<and> prefix (path_elems base) (path_elems target) \<and> open_file env (c_str target) = Opened f"
  by (rule system_serves [OF assms])

text \<open>Two clients of the server that \<^verbatim>\<open>default.toml\<close> configures.\<close>

definition default_server :: "nat server" where
  "default_server = (case new_server open_network loaded_default of Inr s \<Rightarrow> s)"

definition two_clients :: "system_event list" where
  "two_clients = [Accepted (Some 5), Accepted (Some 6), SessionEvent 1 ReadFailed, SessionEvent 0 (ReadDone (keep ''/''))]"

definition two_clients_system :: "string system" where
  "two_clients_system = the (system_execs sample_env (new_system default_server) two_clients)"

lemma two_clients_run: "system_run sample_env default_server two_clients two_clients_system"
proof -
  have "(case system_execs sample_env (new_system default_server) two_clients of None \<Rightarrow> False | Some _ \<Rightarrow> True)"
    by code_simp
  then have "system_execs sample_env (new_system default_server) two_clients = Some two_clients_system"
    by (auto simp: two_clients_system_def split: option.splits)
  from system_execs_run [OF system_run.run_init this] show ?thesis by simp
qed

theorem system_serves_contained_witness:
  "\<exists>r\<in>set (sc_routes loaded_default). prefix (rc_path r) ''/'' \<and> public_dir (rc_root r) = Inr True
     \<and> (\<exists>target. open_file sample_env (c_str target) = Opened ''hello'')"
proof -
  have server: "new_server open_network loaded_default = Inr default_server"
    by (simp add: default_server_def new_server_def new_impl_def open_network_def loaded_default_def)
  have sys: "0 < length (sy_sessions two_clients_system)"
    "map rs_body (s_written (sy_sessions two_clients_system ! 0)) = [FileBody ''hello'']"
    "events_of 0 two_clients = [ReadDone (keep ''/'')]" by code_simp+
  from sys(2) obtain msg where msg: "msg \<in> set (s_written (sy_sessions two_clients_system ! 0))"
    "rs_body msg = FileBody ''hello''" by auto
  from system_serves_contained [OF load_default server two_clients_run sys(1) msg] obtain req r target where
    "req \<in> set (requests [ReadDone (keep ''/'')])" "r \<in> set (sc_routes loaded_default)"
    "public_dir (rc_root r) = Inr True" "prefix (rc_path r) (request_path (parse_origin_form sample_env) req)"
    "open_file sample_env (c_str target) = Opened ''hello''" unfolding sys(3) by blast
  moreover have "request_path (parse_origin_form sample_env) (keep ''/'') = ''/''" by code_simp
  ultimately show ?thesis by (auto simp: requests_def)
qed

text \<open>C3. Containment end to end, on a file system with symbolic links: whatever file the server sends
  on any connection lies physically inside the root directory of a static route that was
  configured, provided the decoded paths of the requests have no dot-dot and no NUL (both take
  an encoded character in the target).\<close>

theorem files_stay_inside:
  assumes "load_file api address_ok (fs_is_directory fs) file = Inr cfg" "new_server net cfg = Inr s" "fs_ok fs"
    and "system_run (fs_environment fs parse h n) s evs sy" "i < length (sy_sessions sy)"
    and "msg \<in> set (s_written (sy_sessions sy ! i))" "rs_body msg = FileBody ys"
    and "\<And>req uv r. req \<in> set (requests (events_of i evs)) \<Longrightarrow> parse (rq_target req) = Some uv \<Longrightarrow>
      r \<in> set (sc_routes cfg) \<Longrightarrow> rel_ok (relative_path (url_path uv) (rc_index r))"
  shows "\<exists>r k base m. r \<in> set (sc_routes cfg) \<and> rc_type r = Static \<and> resolve fs (rc_root r) = Found k base
    \<and> prefix base ys \<and> lookup (fs_root fs) ys = Some m \<and> \<not> is_link m"
proof -
  from system_serves [OF assms(1,2,4,5,6,7)] obtain req r b target where
    req: "req \<in> set (requests (events_of i evs))"
    and r: "r \<in> set (sc_routes cfg)" "rc_type r = Static" "fs_is_directory fs (rc_root r) = Inr True"
    and res: "resolves (fs_environment fs parse h n) req (rc_root r) (rc_index r) b target"
    and below: "prefix (path_elems b) (path_elems target)"
    and opened: "fs_open fs (c_str target) = Opened ys" by auto
  from r(3) obtain k base where base: "resolve fs (rc_root r) = Found k base"
    by (auto simp: fs_is_directory_def split: resolution.splits)
  show ?thesis
  proof (rule resolves_inside [OF assms(3) base res below opened assms(8) [OF req _ r(1)]])
    fix uv j
    assume inside: "resolve fs (path_append (absolute_string base) (relative_path (url_path uv) (rc_index r))) = Found j ys"
      "prefix base ys"
    obtain m where "lookup (fs_root fs) ys = Some m" "\<not> is_link m" by (rule resolve_found [OF assms(3) inside(1)])
    with r(1,2) base inside(2) show ?thesis by blast
  qed
qed

text \<open>The default configuration on the file system of \<open>Containment\<close>.\<close>

definition inside_events :: "system_event list" where
  "inside_events = [Accepted (Some 5), SessionEvent 0 (ReadDone (keep ''/docs/here''))]"

definition inside_system :: "string list system" where
  "inside_system = the (system_execs leak_env (new_system default_server) inside_events)"

lemma inside_run: "system_run leak_env default_server inside_events inside_system"
proof -
  have "(case system_execs leak_env (new_system default_server) inside_events of None \<Rightarrow> False | Some _ \<Rightarrow> True)"
    by code_simp
  then have "system_execs leak_env (new_system default_server) inside_events = Some inside_system"
    by (auto simp: inside_system_def split: option.splits)
  from system_execs_run [OF system_run.run_init this] show ?thesis by simp
qed

theorem files_stay_inside_witness:
  "\<exists>base. prefix base [''srv'', ''public'', ''index.html''] \<and> resolve leak_fs ''./public/'' = Found 40 base"
proof -
  have load: "load_file (tree_api default_toml) localhost (fs_is_directory leak_fs) ''default.toml'' = Inr loaded_default"
    by code_simp
  have server: "new_server open_network loaded_default = Inr default_server"
    by (simp add: default_server_def new_server_def new_impl_def open_network_def loaded_default_def)
  have sys: "0 < length (sy_sessions inside_system)"
    "map rs_body (s_written (sy_sessions inside_system ! 0)) = [FileBody [''srv'', ''public'', ''index.html'']]"
    "requests (events_of 0 inside_events) = [keep ''/docs/here'']"
    "leak_parse (rq_target (keep ''/docs/here'')) = Some \<lparr>url_path = ''/docs/here'', url_segments = [''docs'', ''here'']\<rparr>"
    "map rc_index (sc_routes loaded_default) = [''index.html'']" "map rc_root (sc_routes loaded_default) = [''./public/'']"
    "rel_ok (relative_path ''/docs/here'' ''index.html'')" by code_simp+
  from sys(2) obtain msg where msg: "msg \<in> set (s_written (sy_sessions inside_system ! 0))"
    "rs_body msg = FileBody [''srv'', ''public'', ''index.html'']" by auto
  have index: "rc_index r = ''index.html''" "rc_root r = ''./public/''" if "r \<in> set (sc_routes loaded_default)" for r
    using that sys(5,6) by auto
  have rel: "rel_ok (relative_path (url_path uv) (rc_index r))"
    if "req \<in> set (requests (events_of 0 inside_events))" "leak_parse (rq_target req) = Some uv"
      "r \<in> set (sc_routes loaded_default)" for req uv r
    using that(1,2) sys(3,4,7) index(1) [OF that(3)] by auto
  have "\<exists>r k base m. r \<in> set (sc_routes loaded_default) \<and> rc_type r = Static
    \<and> resolve leak_fs (rc_root r) = Found k base \<and> prefix base [''srv'', ''public'', ''index.html'']
    \<and> lookup (fs_root leak_fs) [''srv'', ''public'', ''index.html''] = Some m \<and> \<not> is_link m"
    by (rule files_stay_inside [OF load server leak_fs_ok(1) inside_run sys(1) msg]) (rule rel)
  then obtain r k base where
    "r \<in> set (sc_routes loaded_default)" "resolve leak_fs (rc_root r) = Found k base"
    "prefix base [''srv'', ''public'', ''index.html'']" by blast
  with index(2) leak_fs_ok(2) show ?thesis by auto
qed

end
